(* ===== verification/Farsight_Prelude.thy ===== *)
theory Farsight_Prelude
  imports Main "HOL-Library.Word"
begin

text \<open>
  Shared vocabulary of the development: the machine integers of the Rust sources as words,
  IPv4 addresses by their big-endian bits, the big-endian byte codecs, and the lemmas on
  words, lists and results that every component uses.

  Arithmetic follows the release profile the README builds (\<^verbatim>\<open>cargo build --release\<close>, no
  \<^verbatim>\<open>overflow-checks\<close>): \<^verbatim>\<open>+\<close>, \<^verbatim>\<open>-\<close> and \<^verbatim>\<open>*\<close> on machine integers wrap around.
\<close>

unbundle bit_operations_syntax

type_synonym u8 = "8 word"
type_synonym u16 = "16 word"
type_synonym u32 = "32 word"
type_synonym u64 = "64 word"
type_synonym usize = "64 word"
type_synonym i32 = "32 word"
type_synonym ipv4 = "32 word"
type_synonym bytes = "8 word list"

named_theorems be_simps \<open>unfolding rules of the byte codecs\<close>
named_theorems wordnat \<open>facts that move a word computation to the natural numbers\<close>

subsection \<open>Words\<close>

lemma unat_bound: "unat (w :: 'a::len word) < 2 ^ LENGTH('a)"
  by (rule unsigned_less)

lemma unat_bounds:
  "unat (a :: u8) < 256" "unat (b :: u16) < 65536" "unat (c :: u32) < 4294967296"
  "unat (d :: u64) < 18446744073709551616"
  using unat_bound[of a] unat_bound[of b] unat_bound[of c] unat_bound[of d] by simp_all

lemma unat_ucast_mod: "unat (ucast (x :: 'b::len word) :: 'a::len word) = unat x mod 2 ^ LENGTH('a)"
  by (simp only: unsigned_ucast_eq take_bit_eq_mod)

lemma unat_Suc_less [wordnat]: "(a :: 'a::len word) < b \<Longrightarrow> unat (a + 1) = unat a + 1"
  by unat_arith

lemma unat_pred_less [wordnat]: "(a :: 'a::len word) < b \<Longrightarrow> unat (b - 1) = unat b - 1"
  by unat_arith

lemma word_le_pred: "(e :: 'a::len word) \<noteq> 0 \<Longrightarrow> x \<le> e - 1 \<longleftrightarrow> x < e"
  by unat_arith

lemma word_Suc_le_iff: "(a :: 'a::len word) < b \<Longrightarrow> a + 1 \<le> x \<longleftrightarrow> a < x"
  by unat_arith

lemma word_less_plus1: "(a :: 'a::len word) < b \<Longrightarrow> a < a + 1"
  by unat_arith

lemma word_neq_0_less: "(a :: 'a::len word) < b \<Longrightarrow> b \<noteq> 0"
  by unat_arith

subsection \<open>Aligned blocks\<close>

lemma unat_and_not_mask:
  "unat ((x :: 'a::len word) AND NOT (mask k)) = unat x div 2 ^ k * 2 ^ k"
proof -
  have "x AND NOT (mask k) = push_bit k (drop_bit k x)"
    by (rule bit_word_eqI) (auto simp: bit_simps)
  moreover have "unat (push_bit k (drop_bit k x)) = push_bit k (drop_bit k (unat x))"
  proof -
    have "push_bit k (drop_bit k (unat x)) < 2 ^ LENGTH('a)"
      using le_less_trans[OF div_times_less_eq_dividend[of "unat x" "2 ^ k"] unat_bound[of x]]
      by (simp add: push_bit_eq_mult drop_bit_eq_div)
    then show ?thesis
      by (simp only: unsigned_push_bit_eq unat_drop_bit_eq take_bit_nat_eq_self)
  qed
  ultimately show ?thesis by (simp add: push_bit_eq_mult drop_bit_eq_div)
qed

lemma nat_or_mask: "(n :: nat) OR mask k = n div 2 ^ k * 2 ^ k + (2 ^ k - 1)"
proof -
  have "n OR mask k = push_bit k (drop_bit k n) OR mask k"
    by (rule bit_eqI) (auto simp: bit_simps)
  also have "\<dots> = push_bit k (drop_bit k n) + mask k"
    by (rule disjunctive_add_eq_or [symmetric]) (rule bit_eqI, auto simp: bit_simps)
  finally show ?thesis by (simp add: push_bit_eq_mult drop_bit_eq_div mask_nat_def)
qed

lemma unat_or_mask:
  assumes "k \<le> LENGTH('a)"
  shows "unat ((x :: 'a::len word) OR mask k) = unat x div 2 ^ k * 2 ^ k + (2 ^ k - 1)"
proof -
  have "unat (mask k :: 'a word) = mask k"
    using assms uint_mask_eq[where 'a = 'a, of k]
    by (metis min_absorb2 nat_uint_eq nat_mask_eq)
  then show ?thesis by (simp add: unsigned_or_eq nat_or_mask)
qed

lemma div_eq_block_iff:
  fixes m d q :: nat
  assumes "0 < d"
  shows "m div d = q \<longleftrightarrow> q * d \<le> m \<and> m \<le> q * d + (d - 1)"
proof
  assume "m div d = q"
  then have "m = q * d + m mod d" "m mod d < d" using assms div_mult_mod_eq[of m d] by simp_all
  then show "q * d \<le> m \<and> m \<le> q * d + (d - 1)" by auto
next
  assume "q * d \<le> m \<and> m \<le> q * d + (d - 1)"
  then show "m div d = q" using assms by (intro div_nat_eqI) (auto simp: mult.commute)
qed

lemma same_block_iff:
  assumes "k \<le> LENGTH('a)"
  shows "(ip :: 'a::len word) AND NOT (mask k) \<le> x \<and> x \<le> ip OR mask k \<longleftrightarrow> drop_bit k x = drop_bit k ip"
proof -
  have "drop_bit k x = drop_bit k ip \<longleftrightarrow> unat x div 2 ^ k = unat ip div 2 ^ k"
    by (simp only: word_unat_eq_iff unat_drop_bit_eq) (simp only: drop_bit_eq_div)
  also have "\<dots> \<longleftrightarrow> unat ip div 2 ^ k * 2 ^ k \<le> unat x \<and> unat x \<le> unat ip div 2 ^ k * 2 ^ k + (2 ^ k - 1)"
    by (rule div_eq_block_iff) simp
  finally show ?thesis
    using assms by (simp add: word_le_nat_alt unat_and_not_mask unat_or_mask)
qed

subsection \<open>Big-endian byte codecs\<close>

definition from_be16 :: "u8 \<Rightarrow> u8 \<Rightarrow> u16" where
  "from_be16 a b = push_bit 8 (ucast a) OR ucast b"

definition to_be16 :: "u16 \<Rightarrow> bytes" where
  "to_be16 w = [ucast (drop_bit 8 w), ucast w]"

definition from_be32 :: "u8 \<Rightarrow> u8 \<Rightarrow> u8 \<Rightarrow> u8 \<Rightarrow> u32" where
  "from_be32 a b c d = push_bit 24 (ucast a) OR push_bit 16 (ucast b) OR push_bit 8 (ucast c) OR ucast d"

definition to_be32 :: "u32 \<Rightarrow> bytes" where
  "to_be32 w = [ucast (drop_bit 24 w), ucast (drop_bit 16 w), ucast (drop_bit 8 w), ucast w]"

lemma u8_bit_beyond: "8 \<le> n \<Longrightarrow> \<not> bit (b :: u8) n"
  using bit_imp_le_length[of b n] by auto

lemma from_to_be16 [be_simps]: "from_be16 (ucast (drop_bit 8 w)) (ucast w) = w"
  by (rule bit_word_eqI) (auto simp: from_be16_def bit_simps)

lemma to_from_be16 [be_simps]: "to_be16 (from_be16 a b) = [a, b]"
  by (auto simp: to_be16_def from_be16_def bit_simps u8_bit_beyond intro!: bit_word_eqI)

lemma from_to_be32 [be_simps]:
  "from_be32 (ucast (drop_bit 24 w)) (ucast (drop_bit 16 w)) (ucast (drop_bit 8 w)) (ucast w) = w"
proof (rule bit_word_eqI)
  fix n assume "n < LENGTH(32)"
  then consider "n < 8" | "8 \<le> n" "n < 16" | "16 \<le> n" "n < 24" | "24 \<le> n" "n < 32" by fastforce
  then show "bit (from_be32 (ucast (drop_bit 24 w)) (ucast (drop_bit 16 w)) (ucast (drop_bit 8 w)) (ucast w)) n
      = bit w n"
    by cases (auto simp: from_be32_def bit_simps)
qed

lemma to_from_be32 [be_simps]: "to_be32 (from_be32 a b c d) = [a, b, c, d]"
  by (auto simp: to_be32_def from_be32_def bit_simps u8_bit_beyond intro!: bit_word_eqI)

lemma length_to_be [simp]: "length (to_be16 w) = 2" "length (to_be32 v) = 4"
  by (simp_all add: to_be16_def to_be32_def)

lemma unat_from_be16 [wordnat]: "unat (from_be16 a b) = 256 * unat a + unat b"
proof -
  have "from_be16 a b = push_bit 8 (ucast a) + ucast b"
    unfolding from_be16_def
    by (rule disjunctive_add_eq_or [symmetric])
       (rule bit_word_eqI, auto simp: bit_simps u8_bit_beyond)
  also have "\<dots> = word_of_nat (256 * unat a + unat b)"
    by (simp add: push_bit_eq_mult of_nat_unat)
  finally have "unat (from_be16 a b) = (256 * unat a + unat b) mod 2 ^ 16"
    by (simp only: unat_of_nat len_of_numeral_defs) simp
  then show ?thesis
    using unat_bounds(1)[of a] unat_bounds(1)[of b] by simp
qed

section \<open>Positions in a ring\<close>

lemma mod_neq_window:
  fixes i j n :: nat
  assumes "i < j" and "j < i + n"
  shows "i mod n \<noteq> j mod n"
proof
  assume "i mod n = j mod n"
  then have "n dvd j - i" using assms(1) mod_eq_dvd_iff_nat[of i j n] by simp
  with assms show False by (auto dest: dvd_imp_le)
qed

end
