(* ===== verification/Tcp.thy ===== *)
theory Tcp
  imports Farsight_Prelude
begin

text \<open>
  \<^verbatim>\<open>farsight/src/net/tcp.rs\<close>: the packet template, the header views, the SYN cookie and the checksum
  arithmetic, with the Internet checksum of RFC 1071 as the reference. \<^verbatim>\<open>from_ne_bytes\<close> is taken
  little-endian, as on the x86-64 hosts the program is built for.
\<close>

section \<open>The packet template and the header views\<close>

definition TCP_PACKET :: bytes where
  "TCP_PACKET =
     [0x00, 0x00, 0x00, 0x00, 0x00, 0x00,
      0x00, 0x00, 0x00, 0x00, 0x00, 0x00,
      0x08, 0x00,
      0x45, 0x00, 0x00, 0x30, 0x00, 0x01, 0x40, 0x00, 0x40, 0x06, 0x00, 0x00,
      0, 0, 0, 0,
      0, 0, 0, 0,
      0x00, 0x00, 0x00, 0x00,
      0x00, 0x00, 0x00, 0x00,
      0x00, 0x00, 0x00, 0x00,
      0x70, 0x00, 0x80, 0x00,
      0x00, 0x00, 0x00, 0x00,
      0x02, 0x04, 0x05, 0x3C, 0x01, 0x01, 0x04, 0x02]"

record packet_template =
  pt_source_port :: u16
  pt_ip :: ipv4
  pt_destination_port :: u16

definition packet_template_new :: "u16 \<Rightarrow> ipv4 \<Rightarrow> u16 \<Rightarrow> packet_template" where
  "packet_template_new source_port ip destination_port =
     \<lparr>pt_source_port = source_port, pt_ip = ip, pt_destination_port = destination_port\<rparr>"

text \<open>The fields of \<^verbatim>\<open>EthTcpIpHdr\<close>, each the offset \<^verbatim>\<open>repr(C, packed)\<close> gives it.\<close>

definition off_len :: nat where "off_len = 16"
definition off_ip_checksum :: nat where "off_ip_checksum = 24"
definition off_dest_addr :: nat where "off_dest_addr = 30"
definition off_source_port :: nat where "off_source_port = 34"
definition off_dest_port :: nat where "off_dest_port = 36"
definition off_seq :: nat where "off_seq = 38"
definition off_ack :: nat where "off_ack = 42"
definition off_flags :: nat where "off_flags = 47"
definition off_tcp_checksum :: nat where "off_tcp_checksum = 50"
definition eth_tcp_ip_hdr_size :: nat where "eth_tcp_ip_hdr_size = 52"

text \<open>\<^verbatim>\<open>TcpHdr\<close>: what the responder reads of a received segment.\<close>

record tcp_hdr =
  th_source_port :: u16
  th_dest_port :: u16
  th_seq :: u32
  th_ack :: u32
  th_flags :: u8

fun tcp_hdr_ref_from_bytes :: "bytes \<Rightarrow> tcp_hdr option" where
  "tcp_hdr_ref_from_bytes [s0, s1, d0, d1, q0, q1, q2, q3, a0, a1, a2, a3, _, f] =
     Some \<lparr>th_source_port = from_be16 s0 s1, th_dest_port = from_be16 d0 d1,
           th_seq = from_be32 q0 q1 q2 q3, th_ack = from_be32 a0 a1 a2 a3, th_flags = f\<rparr>"
| "tcp_hdr_ref_from_bytes _ = None"

subsection \<open>Flags\<close>

definition Fin :: u8 where "Fin = 0b00000001"
definition Syn :: u8 where "Syn = 0b00000010"
definition Rst :: u8 where "Rst = 0b00000100"
definition Psh :: u8 where "Psh = 0b00001000"
definition Ack :: u8 where "Ack = 0b00010000"

definition Urg :: u8 where "Urg = 0b00100000"
definition Ece :: u8 where "Ece = 0b01000000"
definition Cwr :: u8 where "Cwr = 0b10000000"

definition contains_flags :: "u8 \<Rightarrow> u8 \<Rightarrow> bool" where
  "contains_flags self other \<longleftrightarrow> self AND other = other"

section \<open>The cookie\<close>

definition K :: usize where "K = 0xf1357aea2e62a9c5"

definition from_ne_bytes :: "bytes \<Rightarrow> u32" where
  "from_ne_bytes bs = (case bs of [a, b, c, d] \<Rightarrow> from_be32 d c b a | _ \<Rightarrow> 0)"

definition cookie :: "ipv4 \<Rightarrow> u16 \<Rightarrow> u64 \<Rightarrow> u32" where
  "cookie ip port seed =
     ucast ((((ucast (from_ne_bytes (to_be32 ip)) * K) + ucast port) * K + seed) * K)"

lemma ucast_down_mod: "(ucast (x :: u64) :: u32) = word_of_nat n" if "unat x = n mod 2 ^ 64"
proof -
  have "(ucast x :: u32) = word_of_nat (n mod 2 ^ 64)" using that by (metis of_nat_unat)
  also have "\<dots> = word_of_nat n"
    by (simp only: word_of_nat_eq_iff take_bit_eq_mod) (simp add: mod_mod_cancel)
  finally show ?thesis .
qed

lemma ucast_down_add: "(ucast (a + b :: u64) :: u32) = ucast a + ucast b"
  by (subst ucast_down_mod[of _ "unat a + unat b"]) (simp_all add: unat_word_ariths of_nat_unat)

lemma ucast_down_mult: "(ucast (a * b :: u64) :: u32) = ucast a * ucast b"
  by (subst ucast_down_mod[of _ "unat a * unat b"]) (simp_all add: unat_word_ariths of_nat_unat)

definition K32 :: u32 where "K32 = 0x2e62a9c5"
definition K32_inv :: u32 where "K32_inv = 0x5daaed0d"

lemma K32_mult_inv: "K32 * K32_inv = 1"
  unfolding K32_def K32_inv_def by code_simp

lemma K32_odd: "x * K32 * K32_inv = x"
  by (simp add: K32_mult_inv mult.assoc)

lemma mult_K32_eq: "x * K32 = y * K32 \<longleftrightarrow> x = y"
  using K32_odd by metis

lemma ucast_K: "(ucast K :: u32) = K32"
  unfolding K_def K32_def by code_simp

lemma ucast_u32_up_down: "(ucast (ucast (x :: u32) :: u64) :: u32) = x"
  by (rule bit_word_eqI) (simp add: bit_simps)

lemma ucast_u16_up_down: "(ucast (ucast (x :: u16) :: u64) :: u32) = ucast x"
  by (rule bit_word_eqI) (auto simp: bit_simps)

lemma ucast_u16_u32: "(ucast (ucast (x :: u16) :: u32) :: u16) = x"
  by (rule bit_word_eqI) (auto simp: bit_simps)

lemma cookie_low_word:
  "cookie ip port seed
     = ((from_ne_bytes (to_be32 ip) * K32 + ucast port) * K32 + ucast seed) * K32"
  by (simp only: cookie_def ucast_down_add ucast_down_mult ucast_u32_up_down ucast_u16_up_down ucast_K)

lemma to_be32_nth:
  "from_be32 (to_be32 x ! 0) (to_be32 x ! 1) (to_be32 x ! 2) (to_be32 x ! 3) = x"
  by (simp add: to_be32_def from_to_be32)

lemma to_be32_inj: "to_be32 a = to_be32 b \<longleftrightarrow> a = b"
  by (metis to_be32_nth)

lemma to_from_ne_bytes: "to_be32 (from_ne_bytes (to_be32 a)) = rev (to_be32 a)"
  by (simp add: from_ne_bytes_def to_be32_def[of a] to_from_be32)

lemma from_ne_bytes_inj: "from_ne_bytes (to_be32 a) = from_ne_bytes (to_be32 b) \<longleftrightarrow> a = b"
  using to_from_ne_bytes[of a] to_from_ne_bytes[of b] by (metis rev_is_rev_conv to_be32_inj)

section \<open>Checksums\<close>

definition ipv4_sum :: "bytes \<Rightarrow> u32" where
  "ipv4_sum ip = ucast (from_be16 (ip ! 0) (ip ! 1)) + ucast (from_be16 (ip ! 2) (ip ! 3))"

definition fold16 :: "u32 \<Rightarrow> u16" where
  "fold16 s = (let s = drop_bit 16 s + (s AND 0xffff) in ucast (s + drop_bit 16 s))"

fun sum_body_loop :: "u32 \<Rightarrow> bytes \<Rightarrow> u32" where
  "sum_body_loop s (a # b # rest) = sum_body_loop (s + ucast (from_be16 a b)) rest"
| "sum_body_loop s [l] = s + push_bit 8 (ucast l)"
| "sum_body_loop s [] = s"

definition sum_body :: "bytes \<Rightarrow> u32" where
  "sum_body data = sum_body_loop 0 data"


subsection \<open>The Internet checksum as a reference\<close>

text \<open>
  RFC 1071: the ones' complement sum of the big-endian 16-bit words, an odd byte padded with zero.
  \<open>oc_sum\<close> adds with end-around carry; \<open>oc_norm\<close> is its closed form on an ordinary sum.
\<close>

fun words16 :: "bytes \<Rightarrow> nat list" where
  "words16 (a # b # rest) = (256 * unat a + unat b) # words16 rest"
| "words16 [a] = [256 * unat a]"
| "words16 [] = []"

definition oc_add :: "nat \<Rightarrow> nat \<Rightarrow> nat" where
  "oc_add a b = (if a + b \<ge> 65536 then a + b - 65535 else a + b)"

definition oc_sum :: "nat list \<Rightarrow> nat" where
  "oc_sum ws = foldl oc_add 0 ws"

definition oc_norm :: "nat \<Rightarrow> nat" where
  "oc_norm n = (if n = 0 then 0 else (n - 1) mod 65535 + 1)"

lemma oc_norm_small: "n \<le> 65535 \<Longrightarrow> oc_norm n = n"
  by (auto simp: oc_norm_def)

lemma oc_norm_carry: "65535 < n \<Longrightarrow> oc_norm n = oc_norm (n - 65535)"
proof -
  assume n: "65535 < n"
  then have "(n - 1) mod 65535 = (n - 1 - 65535) mod 65535"
    by (simp add: le_mod_geq)
  with n show ?thesis by (auto simp: oc_norm_def)
qed

lemma oc_norm_bound: "oc_norm n \<le> 65535"
  by (simp add: oc_norm_def Suc_le_eq)

lemma oc_norm_add: "oc_norm (oc_norm a + b) = oc_norm (a + b)"
proof (induction a rule: less_induct)
  case (less a)
  show ?case
  proof (cases "a \<le> 65535")
    case False
    then have "oc_norm (oc_norm a + b) = oc_norm (a - 65535 + b)"
      using less[of "a - 65535"] oc_norm_carry[of a] by simp
    also have "\<dots> = oc_norm (a + b)"
      using False oc_norm_carry[of "a + b"] by (simp add: add.commute)
    finally show ?thesis .
  qed (simp add: oc_norm_small)
qed

lemma oc_add_norm: "a \<le> 65535 \<Longrightarrow> b \<le> 65535 \<Longrightarrow> oc_add a b = oc_norm (a + b)"
  by (simp add: oc_add_def oc_norm_small oc_norm_carry)

lemma oc_sum_norm: "\<forall>w\<in>set ws. w \<le> 65535 \<Longrightarrow> oc_sum ws = oc_norm (sum_list ws)"
proof -
  have "\<forall>w\<in>set ws. w \<le> 65535 \<Longrightarrow> foldl oc_add (oc_norm a) ws = oc_norm (a + sum_list ws)" for a
  proof (induction ws arbitrary: a)
    case (Cons w ws)
    then show ?case
      using oc_norm_bound[of a] by (simp add: oc_add_norm oc_norm_add add.assoc)
  qed simp
  from this[of 0] show "\<forall>w\<in>set ws. w \<le> 65535 \<Longrightarrow> oc_sum ws = oc_norm (sum_list ws)"
    by (simp add: oc_sum_def oc_norm_small)
qed

lemma words16_bound: "w \<in> set (words16 bs) \<Longrightarrow> w \<le> 65535"
proof (induction bs rule: words16.induct)
  case (1 a b rest)
  then show ?case using unat_bounds(1)[of a] unat_bounds(1)[of b] by auto
next
  case (2 a)
  then show ?case using unat_bounds(1)[of a] by auto
qed simp

lemma oc_sum_words16: "oc_sum (words16 bs) = oc_norm (sum_list (words16 bs))"
  by (rule oc_sum_norm) (simp add: words16_bound)

text \<open>A checksum field that completes a sum to all ones.\<close>

lemma oc_complement: "0 < s \<Longrightarrow> oc_norm (s + (65535 - oc_norm s)) = 65535"
proof (induction s rule: less_induct)
  case (less s)
  show ?case
  proof (cases "s \<le> 65535")
    case False
    then have "oc_norm (s + (65535 - oc_norm s)) = oc_norm (s + (65535 - oc_norm s) - 65535)"
      by (intro oc_norm_carry) simp
    also have "s + (65535 - oc_norm s) - 65535 = s - 65535 + (65535 - oc_norm (s - 65535))"
      using False oc_norm_carry[of s] by simp
    finally show ?thesis using False less.IH[of "s - 65535"] by simp
  qed (simp add: oc_norm_small)
qed

lemma oc_norm_65536: "oc_norm (65536 * h + b) = oc_norm (h + b)"
proof (induction h arbitrary: b)
  case (Suc h)
  have "oc_norm (65536 * Suc h + b) = oc_norm (65536 * h + Suc b)"
    by (subst oc_norm_carry) simp_all
  then show ?case using Suc[of "Suc b"] by simp
qed simp

subsection \<open>The code against the reference\<close>


lemma unat_drop16: "unat (drop_bit 16 (s :: u32)) = unat s div 65536"
  by (simp only: unat_drop_bit_eq) (simp add: drop_bit_eq_div)

lemma unat_and_ffff: "unat ((s :: u32) AND 0xffff) = unat s mod 65536"
proof -
  have "s AND 0xffff = take_bit 16 s" by (simp add: take_bit_eq_mask mask_eq_exp_minus_1)
  then have "unat (s AND 0xffff) = take_bit 16 (unat s)" by (simp only: unsigned_take_bit_eq)
  then show ?thesis by (simp add: take_bit_eq_mod)
qed

lemma fold16_norm: "unat (fold16 s) = oc_norm (unat s)"
proof -
  define h l where "h = unat s div 65536" and "l = unat s mod 65536"
  have hl: "h < 65536" "l < 65536" "unat s = 65536 * h + l"
    using unat_bounds(3)[of s] by (auto simp: h_def l_def)
  define t where "t = drop_bit 16 s + (s AND 0xffff)"
  have t: "unat t = h + l"
    using hl by (simp add: t_def unat_word_ariths unat_drop16 unat_and_ffff h_def[symmetric] l_def[symmetric])
  have "unat (t + drop_bit 16 t) = h + l + (h + l) div 65536"
    using hl by (simp add: unat_word_ariths unat_drop16 t)
  then have f: "unat (fold16 s) = (h + l + (h + l) div 65536) mod 65536"
    by (simp add: fold16_def Let_def t_def[symmetric] unat_ucast_mod)
  have n: "oc_norm (unat s) = oc_norm (h + l)"
    using hl(3) by (simp add: oc_norm_65536)
  show ?thesis
  proof (cases "h + l \<le> 65535")
    case True
    then show ?thesis using f n by (simp add: oc_norm_small)
  next
    case False
    then have "(h + l) div 65536 = 1" using hl by simp
    with False hl show ?thesis using f n oc_norm_carry[of "h + l"]
      by (simp add: oc_norm_small le_mod_geq)
  qed
qed


lemma unat_sum_body_loop:
  "unat s + 65535 * length bs < 2 ^ 32 \<Longrightarrow> unat (sum_body_loop s bs) = unat s + sum_list (words16 bs)"
proof (induction s bs rule: sum_body_loop.induct)
  case (1 s a b rest)
  have w: "unat (ucast (from_be16 a b) :: u32) = 256 * unat a + unat b"
    using unat_bounds(2)[of "from_be16 a b"] by (simp add: unat_ucast_mod unat_from_be16)
  moreover have "256 * unat a + unat b < 65536"
    using unat_bounds(1)[of a] unat_bounds(1)[of b] by simp
  ultimately have "unat (s + ucast (from_be16 a b)) = unat s + (256 * unat a + unat b)"
    using 1(2) by (simp add: unat_word_ariths)
  with 1 \<open>256 * unat a + unat b < 65536\<close> show ?case by simp
next
  case (2 s l)
  have "unat (push_bit 8 (ucast l) :: u32) = 256 * unat l"
    using unat_bounds(1)[of l] by (simp add: push_bit_eq_mult unat_word_ariths unat_ucast_mod)
  with 2 unat_bounds(1)[of l] show ?case by (simp add: unat_word_ariths)
qed simp

lemma unat_sum_body: "length bs < 65537 \<Longrightarrow> unat (sum_body bs) = sum_list (words16 bs)"
  using unat_sum_body_loop[of 0 bs] by (simp add: sum_body_def)

lemma unat_ipv4_sum: "unat (ipv4_sum [a, b, c, d]) = sum_list (words16 [a, b, c, d])"
  using unat_bounds(2)[of "from_be16 a b"] unat_bounds(2)[of "from_be16 c d"]
  by (simp add: ipv4_sum_def unat_word_ariths unat_ucast_mod unat_from_be16)

section \<open>The theorems\<close>

text \<open>The two-step fold of the code is the ones' complement sum: for any data of at most 65536 bytes
  the folded 32-bit accumulator equals the end-around-carry sum of its 16-bit words.\<close>

theorem fold_sum_body:
  assumes "length bs \<le> 65536"
  shows "unat (fold16 (sum_body bs)) = oc_sum (words16 bs)"
  using assms by (simp add: fold16_norm unat_sum_body oc_sum_words16)

theorem fold_sum_body_witness:
  "length [0xFF, 0xFF, 0x00, 0x02, 0x10 :: u8] \<le> 65536
   \<and> unat (fold16 (sum_body [0xFF, 0xFF, 0x00, 0x02, 0x10])) = oc_sum (words16 [0xFF, 0xFF, 0x00, 0x02, 0x10])"
  using fold_sum_body[of "[0xFF, 0xFF, 0x00, 0x02, 0x10]"] by simp

text \<open>C35. The SYN cookie separates what one session probes: two ports of one address, or one port of two
  addresses, never share a cookie, and two seeds share the cookies of a target exactly when they agree
  modulo \<open>2 ^ 32\<close> (the 64-bit seed carries 32 bits of it).\<close>

theorem cookie_separates:
  "(cookie ip p seed = cookie ip q seed \<longleftrightarrow> p = q)
   \<and> (cookie ip p seed = cookie jp p seed \<longleftrightarrow> ip = jp)
   \<and> (cookie ip p seed = cookie ip p seed' \<longleftrightarrow> (ucast seed :: u32) = ucast seed')"
proof -
  have "(ucast p :: u32) = ucast q \<longleftrightarrow> p = q"
    by (metis ucast_u16_u32)
  then show ?thesis
    by (simp add: cookie_low_word mult_K32_eq from_ne_bytes_inj)
qed

end
