(* ===== verification/Ring.thy ===== *)
theory Ring
  imports Farsight_Prelude
begin

text \<open>
  The AF_XDP rings of \<^verbatim>\<open>src/farsight/src/xdp/ring.rs\<close>: the single-producer single-consumer queues the
  program shares with the kernel. The program's side keeps cached copies of the two free-running 32-bit
  counters and refreshes the kernel's one only when the cached copy is not enough.

  The operations are the code's, on 32-bit words with wrap-around. \<open>producer_run\<close> and \<open>consumer_run\<close> are
  the step relations of one ring with the kernel at the other end; \<open>producer_ok\<close> and \<open>consumer_ok\<close> relate
  the words to unbounded counters. The results are that both kinds of ring are first-in first-out
  queues in every interleaving and that a reservation succeeds exactly when there is room.

  The remainder by \<^verbatim>\<open>StrengthReducedU32\<close> is the ordinary remainder of two words; the mapping of the ring into
  memory (\<^verbatim>\<open>mmap\<close>, \<^verbatim>\<open>setsockopt\<close>) is part of \<open>Setup\<close>; here the shared counters and the slots are fields of the ring.
\<close>

section \<open>Data\<close>

record descriptor =
  d_addr :: u64
  d_len :: u32
  d_options :: u32

datatype ring_kind = Fill | Complete | Tx | Rx

text \<open>
  A ring with the words the kernel shares: \<open>prod_ctr\<close>, \<open>cons_ctr\<close> and \<open>rflags\<close> are the mapped counters and
  flags, \<open>slots\<close> the mapped descriptor array.
\<close>

record 't ring =
  cached_prod :: u32
  cached_cons :: u32
  ring_size :: u32
  slots :: "'t list"
  prod_ctr :: u32
  cons_ctr :: u32
  rflags :: u32

definition XDP_RING_NEED_WAKEUP :: u32 where "XDP_RING_NEED_WAKEUP = 1"

definition needs_wakeup :: "u32 \<Rightarrow> bool" where
  "needs_wakeup flags \<longleftrightarrow> flags AND XDP_RING_NEED_WAKEUP \<noteq> 0"

definition ring_new :: "ring_kind \<Rightarrow> u32 \<Rightarrow> 't list \<Rightarrow> u32 \<Rightarrow> u32 \<Rightarrow> u32 \<Rightarrow> 't ring" where
  "ring_new kind sz mem p c fl =
     (let (cp, cc) = (case kind of
          Fill \<Rightarrow> (0, sz)
        | Complete \<Rightarrow> (0, 0)
        | Tx \<Rightarrow> (p, c + sz)
        | Rx \<Rightarrow> (p, c))
      in \<lparr>cached_prod = cp, cached_cons = cc, ring_size = sz, slots = mem,
          prod_ctr = p, cons_ctr = c, rflags = fl\<rparr>)"

definition slot_of :: "'t ring \<Rightarrow> u32 \<Rightarrow> nat" where
  "slot_of r i = unat (i mod ring_size r)"

definition ring_index :: "'t ring \<Rightarrow> u32 \<Rightarrow> 't" where
  "ring_index r i = slots r ! slot_of r i"

definition ring_index_mut :: "'t ring \<Rightarrow> u32 \<Rightarrow> 't \<Rightarrow> 't ring" where
  "ring_index_mut r i v = r\<lparr>slots := (slots r)[slot_of r i := v]\<rparr>"

section \<open>Producer\<close>

definition free :: "'t ring \<Rightarrow> u32 \<Rightarrow> u32 \<times> 't ring" where
  "free r batch_size =
     (let free_entries = cached_cons r - cached_prod r in
      if free_entries \<ge> batch_size then (free_entries, r)
      else (let r' = r\<lparr>cached_cons := cons_ctr r + ring_size r\<rparr> in (cached_cons r' - cached_prod r', r')))"

definition reserve :: "'t ring \<Rightarrow> u32 \<Rightarrow> u32 option \<times> 't ring" where
  "reserve r batch_size =
     (let (n, r') = free r batch_size in
      if n < batch_size then (None, r')
      else (Some (cached_prod r'), r'\<lparr>cached_prod := cached_prod r' + batch_size\<rparr>))"

definition submit :: "'t ring \<Rightarrow> u32 \<Rightarrow> u32 \<times> 't ring" where
  "submit r batch_size = (prod_ctr r, r\<lparr>prod_ctr := prod_ctr r + batch_size\<rparr>)"

section \<open>Consumer\<close>

definition available :: "'t ring \<Rightarrow> u32 \<Rightarrow> u32 \<times> 't ring" where
  "available r batch_size =
     (let entries = cached_prod r - cached_cons r in
      if entries < batch_size
      then (let r' = r\<lparr>cached_prod := prod_ctr r\<rparr> in (min (cached_prod r' - cached_cons r') batch_size, r'))
      else (min entries batch_size, r))"

definition peek :: "'t ring \<Rightarrow> u32 \<Rightarrow> (u32 \<times> u32) option \<times> 't ring" where
  "peek r batch_size =
     (let (entries, r') = available r batch_size in
      if entries = 0 then (None, r')
      else (Some (cached_cons r', entries), r'\<lparr>cached_cons := cached_cons r' + entries\<rparr>))"

definition unpeek :: "'t ring \<Rightarrow> u32 \<Rightarrow> 't ring" where
  "unpeek r entries = r\<lparr>cached_cons := cached_cons r - entries\<rparr>"

definition release :: "'t ring \<Rightarrow> u32 \<Rightarrow> u32 \<times> 't ring" where
  "release r batch_size = (cons_ctr r, r\<lparr>cons_ctr := cons_ctr r + batch_size\<rparr>)"

section \<open>Counters without wrap-around\<close>

definition ring_wf :: "'t ring \<Rightarrow> bool" where
  "ring_wf r \<longleftrightarrow> 0 < unat (ring_size r) \<and> unat (ring_size r) dvd 2 ^ 32 \<and> unat (ring_size r) < 2 ^ 32
     \<and> length (slots r) = unat (ring_size r)"

text \<open>
  The counters of a producer ring as unbounded numbers: the kernel has consumed \<open>C\<close> entries, the
  producer last saw \<open>C'\<close> of them, has submitted \<open>P\<close> and reserved \<open>R\<close>.
\<close>

definition producer_ok :: "'t ring \<Rightarrow> nat \<Rightarrow> nat \<Rightarrow> nat \<Rightarrow> nat \<Rightarrow> bool" where
  "producer_ok r C' C P R \<longleftrightarrow> ring_wf r
     \<and> cons_ctr r = word_of_nat C \<and> prod_ctr r = word_of_nat P
     \<and> cached_prod r = word_of_nat R \<and> cached_cons r = word_of_nat (C' + unat (ring_size r))
     \<and> C' \<le> C \<and> C \<le> P \<and> P \<le> R \<and> R \<le> C' + unat (ring_size r)"

lemma unat_diff_counter:
  "b \<le> a \<Longrightarrow> a - b < 2 ^ 32 \<Longrightarrow> unat (word_of_nat a - word_of_nat b :: u32) = a - b"
  by (simp add: unat_of_nat flip: of_nat_diff)

lemma free_spec:
  assumes "producer_ok r C' C P R" and "free r n = (m, r')"
  shows "\<exists>C''. producer_ok r' C'' C P R \<and> unat m = C'' + unat (ring_size r) - R
     \<and> (unat m < unat n \<longrightarrow> C'' = C) \<and> slots r' = slots r \<and> ring_size r' = ring_size r"
proof -
  have c: "cons_ctr r + ring_size r = word_of_nat (C + unat (ring_size r))"
    using assms(1) by (simp add: producer_ok_def)
  have d: "unat (word_of_nat (X + unat (ring_size r)) - word_of_nat R :: u32) = X + unat (ring_size r) - R"
    if "C' \<le> X" "X \<le> C" for X
    using assms(1) that by (intro unat_diff_counter) (auto simp: producer_ok_def ring_wf_def)
  show ?thesis
  proof (cases "cached_cons r - cached_prod r \<ge> n")
    case True
    then show ?thesis using assms d[of C'] by (auto simp: free_def producer_ok_def word_le_nat_alt)
  next
    case False
    then have r': "r' = r\<lparr>cached_cons := cons_ctr r + ring_size r\<rparr>" "m = cons_ctr r + ring_size r - cached_prod r"
      using assms(2) by (auto simp: free_def Let_def)
    then show ?thesis using assms(1) c d[of C]
      by (intro exI[of _ C]) (auto simp: producer_ok_def ring_wf_def)
  qed
qed


lemma reserve_spec:
  assumes "producer_ok r C' C P R" and "reserve r n = (res, r')"
  shows "\<exists>C''. producer_ok r' C'' C P (if res = None then R else R + unat n)
     \<and> (res = None \<longleftrightarrow> C + unat (ring_size r) < R + unat n)
     \<and> (res \<noteq> None \<longrightarrow> res = Some (word_of_nat R))
     \<and> slots r' = slots r \<and> ring_size r' = ring_size r"
proof -
  obtain m r1 where f: "free r n = (m, r1)" by (cases "free r n")
  from free_spec[OF assms(1) f] obtain C1 where
    ok: "producer_ok r1 C1 C P R" and m: "unat m = C1 + unat (ring_size r) - R"
    and C1: "unat m < unat n \<longrightarrow> C1 = C" and fr: "slots r1 = slots r" "ring_size r1 = ring_size r"
    by blast
  show ?thesis
  proof (cases "m < n")
    case True
    then have r: "res = None" "r' = r1" using assms(2) f by (auto simp: reserve_def)
    have lt: "unat m < unat n" using True by (simp add: word_less_nat_alt)
    moreover have "R \<le> C1 + unat (ring_size r)" using ok fr by (simp add: producer_ok_def)
    moreover have "C1 = C" using lt C1 by blast
    ultimately have "C + unat (ring_size r) < R + unat n" using m by arith
    then show ?thesis using r ok fr by auto
  next
    case False
    then have r: "res = Some (cached_prod r1)" "r' = r1\<lparr>cached_prod := cached_prod r1 + n\<rparr>"
      using assms(2) f by (auto simp: reserve_def)
    have le: "R + unat n \<le> C1 + unat (ring_size r)" "C1 \<le> C" "cached_prod r1 = word_of_nat R"
      using False m ok fr by (auto simp: word_less_nat_alt producer_ok_def)
    then have "producer_ok r' C1 C P (R + unat n)"
      using ok fr r by (simp add: producer_ok_def ring_wf_def)
    then show ?thesis using r fr le by auto
  qed
qed

lemma slot_of_nat:
  assumes "ring_wf r"
  shows "slot_of r (word_of_nat i) = i mod unat (ring_size r)"
proof -
  have "unat (word_of_nat i mod ring_size r) = (i mod 2 ^ 32) mod unat (ring_size r)"
    by (simp add: unat_mod unat_of_nat)
  also have "\<dots> = i mod unat (ring_size r)"
    using assms by (simp add: ring_wf_def mod_mod_cancel)
  finally show ?thesis by (simp add: slot_of_def)
qed

section \<open>The producer and the kernel\<close>

text \<open>
  A run of one producer ring: the program reserves, fills reserved slots and submits, the kernel takes
  submitted entries one by one. \<open>submitted\<close> and \<open>taken\<close> record the entries handed over and received.
\<close>

inductive producer_run :: "'t ring \<Rightarrow> 't list \<Rightarrow> 't list \<Rightarrow> bool" where
  pr_start: "ring_wf r \<Longrightarrow> r = ring_new Tx sz mem p p fl \<Longrightarrow> producer_run r [] []"
| pr_reserve: "producer_run r sub tak \<Longrightarrow> producer_run (snd (reserve r n)) sub tak"
| pr_write: "producer_run r sub tak \<Longrightarrow> i - prod_ctr r < cached_prod r - prod_ctr r
    \<Longrightarrow> producer_run (ring_index_mut r i v) sub tak"
| pr_submit: "producer_run r sub tak \<Longrightarrow> n \<le> cached_prod r - prod_ctr r
    \<Longrightarrow> producer_run (snd (submit r n))
          (sub @ map (\<lambda>k. ring_index r (prod_ctr r + word_of_nat k)) [0..<unat n]) tak"
| pr_kernel: "producer_run r sub tak \<Longrightarrow> cons_ctr r \<noteq> prod_ctr r
    \<Longrightarrow> producer_run (r\<lparr>cons_ctr := cons_ctr r + 1\<rparr>) sub (tak @ [ring_index r (cons_ctr r)])"
| pr_wakeup: "producer_run r sub tak \<Longrightarrow> producer_run (r\<lparr>rflags := fl\<rparr>) sub tak"

definition producer_inv :: "'t ring \<Rightarrow> 't list \<Rightarrow> 't list \<Rightarrow> bool" where
  "producer_inv r sub tak \<longleftrightarrow> (\<exists>B C' R.
     producer_ok r C' (B + length tak) (B + length sub) R \<and> tak = take (length tak) sub
     \<and> (\<forall>k. length tak \<le> k \<and> k < length sub \<longrightarrow> slots r ! ((B + k) mod unat (ring_size r)) = sub ! k))"


lemma producer_outstanding:
  assumes "producer_ok r C' C P R"
  shows "unat (cached_prod r - prod_ctr r) = R - P"
proof -
  have "P \<le> R" "R - P < 2 ^ 32" "cached_prod r = word_of_nat R" "prod_ctr r = word_of_nat P"
    using assms by (auto simp: producer_ok_def ring_wf_def)
  then show ?thesis using unat_diff_counter by simp
qed

lemma producer_inv_start:
  assumes "ring_wf r" "r = ring_new Tx sz mem p p fl"
  shows "producer_inv r [] []"
  unfolding producer_inv_def producer_ok_def
  using assms by (intro exI[of _ "unat p"]) (auto simp: ring_new_def ring_wf_def)

lemma producer_inv_reserve:
  assumes "producer_inv r sub tak"
  shows "producer_inv (snd (reserve r n)) sub tak"
proof -
  obtain res r' where e: "reserve r n = (res, r')" by (cases "reserve r n")
  from assms obtain B C' R where ok: "producer_ok r C' (B + length tak) (B + length sub) R"
    and rest: "tak = take (length tak) sub"
      "\<forall>k. length tak \<le> k \<and> k < length sub \<longrightarrow> slots r ! ((B + k) mod unat (ring_size r)) = sub ! k"
    unfolding producer_inv_def by blast
  from reserve_spec[OF ok e] rest e show ?thesis
    unfolding producer_inv_def by (metis snd_conv)
qed

lemma producer_inv_write:
  assumes inv: "producer_inv r sub tak" and i: "i - prod_ctr r < cached_prod r - prod_ctr r"
  shows "producer_inv (ring_index_mut r i v) sub tak"
proof -
  from inv obtain B C' R where ok: "producer_ok r C' (B + length tak) (B + length sub) R"
    and pre: "tak = take (length tak) sub"
    and sl: "\<forall>k. length tak \<le> k \<and> k < length sub \<longrightarrow> slots r ! ((B + k) mod unat (ring_size r)) = sub ! k"
    unfolding producer_inv_def by blast
  define d where "d = unat (i - prod_ctr r)"
  let ?j = "B + length sub + d"
  have wf: "ring_wf r" using ok by (simp add: producer_ok_def)
  note out = producer_outstanding[OF ok]
  have d: "?j < R" using i out by (simp add: d_def word_less_nat_alt)
  have "i = word_of_nat ?j" using ok by (simp add: d_def producer_ok_def)
  then have s: "slot_of r i = ?j mod unat (ring_size r)" by (simp only: slot_of_nat[OF wf])
  have "slots (ring_index_mut r i v) ! ((B + k) mod unat (ring_size r)) = sub ! k"
    if k: "length tak \<le> k" "k < length sub" for k
  proof -
    have "(B + k) mod unat (ring_size r) \<noteq> ?j mod unat (ring_size r)"
      using k d ok by (intro mod_neq_window) (auto simp: producer_ok_def)
    then show ?thesis using sl k s by (simp add: ring_index_mut_def)
  qed
  moreover have "producer_ok (ring_index_mut r i v) C' (B + length tak) (B + length sub) R"
    using ok by (simp add: producer_ok_def ring_wf_def ring_index_mut_def)
  moreover have "ring_size (ring_index_mut r i v) = ring_size r" by (simp add: ring_index_mut_def)
  ultimately show ?thesis unfolding producer_inv_def using pre
    by (intro exI[of _ B] exI[of _ C'] exI[of _ R]) simp
qed

lemma producer_inv_submit:
  assumes inv: "producer_inv r sub tak" and n: "n \<le> cached_prod r - prod_ctr r"
  shows "producer_inv (snd (submit r n))
           (sub @ map (\<lambda>k. ring_index r (prod_ctr r + word_of_nat k)) [0..<unat n]) tak" (is "producer_inv _ ?sub _")
proof -
  from inv obtain B C' R where ok: "producer_ok r C' (B + length tak) (B + length sub) R"
    and pre: "tak = take (length tak) sub"
    and sl: "\<forall>k. length tak \<le> k \<and> k < length sub \<longrightarrow> slots r ! ((B + k) mod unat (ring_size r)) = sub ! k"
    unfolding producer_inv_def by blast
  have wf: "ring_wf r" and le: "length tak \<le> length sub" using ok by (simp_all add: producer_ok_def)
  note out = producer_outstanding[OF ok]
  have "B + length sub + unat n \<le> R" using n ok out by (auto simp: word_le_nat_alt producer_ok_def)
  then have "producer_ok (snd (submit r n)) C' (B + length tak) (B + length ?sub) R"
    using ok by (simp add: producer_ok_def ring_wf_def submit_def)
  moreover have "ring_index r (prod_ctr r + word_of_nat k) = slots r ! ((B + length sub + k) mod unat (ring_size r))" for k
    using slot_of_nat[OF wf, of "B + length sub + k"] ok by (simp add: ring_index_def producer_ok_def)
  then have "\<forall>k. length tak \<le> k \<and> k < length ?sub \<longrightarrow>
      slots (snd (submit r n)) ! ((B + k) mod unat (ring_size (snd (submit r n)))) = ?sub ! k"
    using sl by (auto simp: submit_def nth_append)
  moreover have "tak = take (length tak) ?sub"
    using pre le by simp
  ultimately show ?thesis unfolding producer_inv_def by blast
qed

lemma producer_inv_kernel:
  assumes inv: "producer_inv r sub tak" and c: "cons_ctr r \<noteq> prod_ctr r"
  shows "producer_inv (r\<lparr>cons_ctr := cons_ctr r + 1\<rparr>) sub (tak @ [ring_index r (cons_ctr r)])"
proof -
  from inv obtain B C' R where ok: "producer_ok r C' (B + length tak) (B + length sub) R"
    and pre: "tak = take (length tak) sub"
    and sl: "\<forall>k. length tak \<le> k \<and> k < length sub \<longrightarrow> slots r ! ((B + k) mod unat (ring_size r)) = sub ! k"
    unfolding producer_inv_def by blast
  have wf: "ring_wf r" using ok by (simp add: producer_ok_def)
  have lt: "length tak < length sub" using c ok by (cases "length tak = length sub") (auto simp: producer_ok_def)
  have "ring_index r (cons_ctr r) = sub ! length tak"
    using sl lt slot_of_nat[OF wf, of "B + length tak"] ok by (simp add: ring_index_def producer_ok_def)
  then have "tak @ [ring_index r (cons_ctr r)] = take (Suc (length tak)) sub"
    using pre lt by (metis take_Suc_conv_app_nth)
  moreover have "producer_ok (r\<lparr>cons_ctr := cons_ctr r + 1\<rparr>) C' (B + Suc (length tak)) (B + length sub) R"
    using ok lt by (simp add: producer_ok_def ring_wf_def)
  ultimately show ?thesis unfolding producer_inv_def using sl lt
    by (intro exI[of _ B] exI[of _ C'] exI[of _ R]) auto
qed

lemma producer_inv_wakeup: "producer_inv r sub tak \<Longrightarrow> producer_inv (r\<lparr>rflags := fl\<rparr>) sub tak"
  by (simp add: producer_inv_def producer_ok_def ring_wf_def)

lemma producer_run_inv: "producer_run r sub tak \<Longrightarrow> producer_inv r sub tak"
  by (induction rule: producer_run.induct)
    (blast intro: producer_inv_start producer_inv_reserve producer_inv_write producer_inv_submit
      producer_inv_kernel producer_inv_wakeup)+


text \<open>The slots behind \<open>size\<close> consecutive indices are all different.\<close>

lemma slots_inj:
  assumes "ring_wf r"
  shows "inj_on (\<lambda>j. slot_of r (i + word_of_nat j)) {..<unat (ring_size r)}"
proof -
  let ?s = "unat (ring_size r)"
  have e: "slot_of r (i + word_of_nat j) = (unat i + j) mod ?s" for j
    using slot_of_nat[OF assms, of "unat i + j"] by simp
  have "j = j'" if "j \<le> j'" "j' < ?s" "(unat i + j) mod ?s = (unat i + j') mod ?s" for j j'
  proof -
    have "?s dvd (unat i + j') - (unat i + j)" using that by (subst mod_eq_dvd_iff_nat[symmetric]) simp_all
    then show ?thesis using that(1,2) by (cases "j = j'") (auto dest: dvd_imp_le)
  qed
  then show ?thesis unfolding e inj_on_def by (metis lessThan_iff linear)
qed

text \<open>
  C24. A ring stays one: every operation of either side keeps the number of slots a power of two that matches the array, every
  index, however far the counters have run, names a slot of the array, as many consecutive indices as there are slots name
  all different ones, and a write through an index is what is read there and nowhere else.
\<close>
theorem ring_typed:
  assumes wf: "ring_wf r"
  shows "(\<forall>r' \<in> {snd (reserve r n), snd (submit r n), snd (peek r n), unpeek r n, snd (release r n), ring_index_mut r i v}.
       ring_wf r' \<and> ring_size r' = ring_size r)
     \<and> slot_of r i < length (slots r) \<and> inj_on (\<lambda>j. slot_of r (i + word_of_nat j)) {..<unat (ring_size r)}
     \<and> ring_index (ring_index_mut r i v) i = v
     \<and> (slot_of r k \<noteq> slot_of r i \<longrightarrow> ring_index (ring_index_mut r i v) k = ring_index r k)"
proof -
  have i: "slot_of r i < length (slots r)" using wf by (simp add: ring_wf_def slot_of_def unat_mod)
  have "ring_wf r' \<and> ring_size r' = ring_size r"
    if "r' \<in> {snd (reserve r n), snd (submit r n), snd (peek r n), unpeek r n, snd (release r n), ring_index_mut r i v}" for r'
    using that wf by (auto simp: ring_wf_def reserve_def free_def submit_def peek_def available_def unpeek_def release_def ring_index_mut_def Let_def)
  moreover have "ring_index (ring_index_mut r i v) i = v" using i by (simp add: ring_index_def ring_index_mut_def slot_of_def)
  moreover have "ring_index (ring_index_mut r i v) k = ring_index r k" if "slot_of r k \<noteq> slot_of r i"
    using that by (simp add: ring_index_def ring_index_mut_def slot_of_def)
  ultimately show ?thesis using i slots_inj[OF wf] by blast
qed

text \<open>
  C22. Producer rings deliver in order: in every interleaving of the program's reservations, slot writes
  and submissions with the kernel's consumption, across wrap-around of the 32-bit counters, the entries the
  kernel takes are a prefix of the entries submitted, and at most the ring's size of entries is pending.
\<close>
theorem producer_fifo:
  assumes "producer_run r sub tak"
  shows "tak = take (length tak) sub \<and> length tak \<le> length sub
     \<and> length sub \<le> length tak + unat (ring_size r)"
proof -
  from producer_run_inv[OF assms] obtain B C' R where
    "producer_ok r C' (B + length tak) (B + length sub) R" "tak = take (length tak) sub"
    unfolding producer_inv_def by blast
  then show ?thesis by (auto simp: producer_ok_def)
qed

lemma reserve_reachable:
  assumes "producer_run r sub tak"
  shows "(fst (reserve r n) = None \<longleftrightarrow> unat (ring_size r) < unat (cached_prod r - cons_ctr r) + unat n)
     \<and> (fst (reserve r n) \<noteq> None \<longrightarrow> fst (reserve r n) = Some (cached_prod r))"
proof -
  obtain res r' where e: "reserve r n = (res, r')" by (cases "reserve r n")
  from producer_run_inv[OF assms] obtain B C' R where
    ok: "producer_ok r C' (B + length tak) (B + length sub) R"
    unfolding producer_inv_def by blast
  let ?C = "B + length tak"
  have "?C \<le> R" "R - ?C < 2 ^ 32" and w: "cached_prod r = word_of_nat R" "cons_ctr r = word_of_nat ?C"
    using ok by (auto simp: producer_ok_def ring_wf_def)
  then have "unat (cached_prod r - cons_ctr r) = R - ?C"
    using unat_diff_counter[of ?C R] by (simp del: of_nat_add)
  with reserve_spec[OF ok e] \<open>?C \<le> R\<close> w e show ?thesis by auto
qed

text \<open>
  In every reachable state a reservation of \<open>n\<close> slots fails exactly when fewer than \<open>n\<close> slots are free
  of reserved and unconsumed entries, and otherwise returns the next unreserved index.
\<close>
theorem reserve_exact:
  assumes "producer_run r sub tak"
  shows "fst (reserve r n) =
     (if unat (ring_size r) < unat (cached_prod r - cons_ctr r) + unat n then None else Some (cached_prod r))"
  using reserve_reachable[OF assms, of n] by auto

section \<open>The consumer and the kernel\<close>

text \<open>
  The counters of a consumer ring: \<open>C\<close> entries released, \<open>K\<close> peeked, \<open>P'\<close> known and \<open>P\<close> produced.
\<close>

definition consumer_ok :: "'t ring \<Rightarrow> nat \<Rightarrow> nat \<Rightarrow> nat \<Rightarrow> nat \<Rightarrow> bool" where
  "consumer_ok r C K P' P \<longleftrightarrow> ring_wf r
     \<and> cons_ctr r = word_of_nat C \<and> cached_cons r = word_of_nat K
     \<and> cached_prod r = word_of_nat P' \<and> prod_ctr r = word_of_nat P
     \<and> C \<le> K \<and> K \<le> P' \<and> P' \<le> P \<and> P \<le> C + unat (ring_size r)"

lemma available_spec:
  assumes "consumer_ok r C K P' P" and "available r n = (m, r')"
  shows "\<exists>P''. consumer_ok r' C K P'' P \<and> unat m = min (P'' - K) (unat n) \<and> unat m = min (P - K) (unat n)
     \<and> slots r' = slots r \<and> ring_size r' = ring_size r"
proof -
  have d: "unat (word_of_nat X - word_of_nat K :: u32) = X - K" if "K \<le> X" "X \<le> P" for X
    using assms(1) that by (intro unat_diff_counter) (auto simp: consumer_ok_def ring_wf_def)
  have w: "cached_prod r = word_of_nat P'" "cached_cons r = word_of_nat K" "prod_ctr r = word_of_nat P"
    and le: "K \<le> P'" "P' \<le> P"
    using assms(1) by (auto simp: consumer_ok_def)
  have mn: "unat (min a b) = min (unat a) (unat b)" for a b :: u32
    by (auto simp: min_def word_le_nat_alt)
  show ?thesis
  proof (cases "cached_prod r - cached_cons r < n")
    case True
    then have r: "r' = r\<lparr>cached_prod := prod_ctr r\<rparr>" "unat m = min (P - K) (unat n)"
      using assms(2) w d[of P] le mn by (auto simp: available_def)
    then have "consumer_ok r' C K P P" using assms(1) by (simp add: consumer_ok_def ring_wf_def)
    then show ?thesis using r by auto
  next
    case False
    then have "unat n \<le> P' - K" using w d[of P'] le by (simp add: word_less_nat_alt)
    moreover have m: "r' = r" "m = min (cached_prod r - cached_cons r) n"
      using False assms(2) by (simp_all add: available_def Let_def)
    then have "unat m = min (P' - K) (unat n)" using w d[of P'] le by (simp add: mn)
    ultimately show ?thesis using assms(1) le m(1) by (intro exI[of _ P']) (auto simp: min_def)
  qed
qed

inductive consumer_run :: "'t ring \<Rightarrow> 't list \<Rightarrow> 't list \<Rightarrow> bool" where
  cr_start: "ring_wf r \<Longrightarrow> r = ring_new Rx sz mem p p fl \<Longrightarrow> consumer_run r [] []"
| cr_kernel: "consumer_run r pub rcv \<Longrightarrow> prod_ctr r - cons_ctr r < ring_size r
    \<Longrightarrow> consumer_run ((ring_index_mut r (prod_ctr r) v)\<lparr>prod_ctr := prod_ctr r + 1\<rparr>) (pub @ [v]) rcv"
| cr_peek: "consumer_run r pub rcv \<Longrightarrow> peek r n = (Some (i, k), r')
    \<Longrightarrow> consumer_run r' pub (rcv @ map (\<lambda>j. ring_index r' (i + word_of_nat j)) [0..<unat k])"
| cr_peek_none: "consumer_run r pub rcv \<Longrightarrow> peek r n = (None, r') \<Longrightarrow> consumer_run r' pub rcv"
| cr_unpeek: "consumer_run r pub rcv \<Longrightarrow> k \<le> cached_cons r - cons_ctr r
    \<Longrightarrow> consumer_run (unpeek r k) pub (take (length rcv - unat k) rcv)"
| cr_release: "consumer_run r pub rcv \<Longrightarrow> n \<le> cached_cons r - cons_ctr r
    \<Longrightarrow> consumer_run (snd (release r n)) pub rcv"

definition consumer_inv :: "'t ring \<Rightarrow> 't list \<Rightarrow> 't list \<Rightarrow> bool" where
  "consumer_inv r pub rcv \<longleftrightarrow> (\<exists>B c P'.
     consumer_ok r (B + c) (B + length rcv) P' (B + length pub) \<and> rcv = take (length rcv) pub
     \<and> (\<forall>k. c \<le> k \<and> k < length pub \<longrightarrow> slots r ! ((B + k) mod unat (ring_size r)) = pub ! k))"


lemma consumer_inv_start:
  assumes "ring_wf r" "r = ring_new Rx sz mem p p fl"
  shows "consumer_inv r [] []"
  unfolding consumer_inv_def consumer_ok_def
  using assms by (intro exI[of _ "unat p"] exI[of _ 0]) (auto simp: ring_new_def ring_wf_def)

lemma consumer_outstanding:
  assumes "consumer_ok r C K P' P"
  shows "unat (cached_cons r - cons_ctr r) = K - C" and "unat (prod_ctr r - cons_ctr r) = P - C"
proof -
  have "C \<le> K" "K - C < 2 ^ 32" "cached_cons r = word_of_nat K" "cons_ctr r = word_of_nat C"
    "C \<le> P" "P - C < 2 ^ 32" "prod_ctr r = word_of_nat P"
    using assms by (auto simp: consumer_ok_def ring_wf_def)
  then show "unat (cached_cons r - cons_ctr r) = K - C" "unat (prod_ctr r - cons_ctr r) = P - C"
    using unat_diff_counter by simp_all
qed

lemma consumer_inv_kernel:
  assumes inv: "consumer_inv r pub rcv" and lt: "prod_ctr r - cons_ctr r < ring_size r"
  shows "consumer_inv ((ring_index_mut r (prod_ctr r) v)\<lparr>prod_ctr := prod_ctr r + 1\<rparr>) (pub @ [v]) rcv"
    (is "consumer_inv ?r _ _")
proof -
  from inv obtain B c P' where ok: "consumer_ok r (B + c) (B + length rcv) P' (B + length pub)"
    and pre: "rcv = take (length rcv) pub"
    and sl: "\<forall>k. c \<le> k \<and> k < length pub \<longrightarrow> slots r ! ((B + k) mod unat (ring_size r)) = pub ! k"
    unfolding consumer_inv_def by blast
  have wf: "ring_wf r" and le: "length rcv \<le> length pub" "c \<le> length pub"
    using ok by (auto simp: consumer_ok_def)
  have room: "length pub < c + unat (ring_size r)"
    using lt consumer_outstanding(2)[OF ok] le by (simp add: word_less_nat_alt)
  have s: "slot_of r (prod_ctr r) = (B + length pub) mod unat (ring_size r)"
    using ok slot_of_nat[OF wf, of "B + length pub"] by (simp add: consumer_ok_def)
  have "slots ?r ! ((B + k) mod unat (ring_size r)) = (pub @ [v]) ! k"
    if k: "c \<le> k" "k < Suc (length pub)" for k
  proof (cases "k = length pub")
    case True
    then show ?thesis using s wf by (simp add: ring_index_mut_def ring_wf_def)
  next
    case False
    then have "k < length pub" using k by simp
    moreover from this have "(B + k) mod unat (ring_size r) \<noteq> (B + length pub) mod unat (ring_size r)"
      using room k(1) by (intro mod_neq_window) auto
    ultimately show ?thesis using s sl k by (simp add: ring_index_mut_def nth_append)
  qed
  moreover have "consumer_ok ?r (B + c) (B + length rcv) P' (B + length (pub @ [v]))"
    using ok room by (simp add: consumer_ok_def ring_wf_def ring_index_mut_def)
  moreover have "ring_size ?r = ring_size r" by (simp add: ring_index_mut_def)
  ultimately show ?thesis unfolding consumer_inv_def using pre le
    by (intro exI[of _ B] exI[of _ c] exI[of _ P']) simp
qed

lemma consumer_inv_peek_none:
  assumes inv: "consumer_inv r pub rcv" and e: "peek r n = (None, r')"
  shows "consumer_inv r' pub rcv"
proof -
  from inv obtain B c P' where ok: "consumer_ok r (B + c) (B + length rcv) P' (B + length pub)"
    and pre: "rcv = take (length rcv) pub"
    and sl: "\<forall>k. c \<le> k \<and> k < length pub \<longrightarrow> slots r ! ((B + k) mod unat (ring_size r)) = pub ! k"
    unfolding consumer_inv_def by blast
  obtain m r1 where a: "available r n = (m, r1)" by (cases "available r n")
  then have "r' = r1" using e by (auto simp: peek_def split: if_splits)
  with available_spec[OF ok a] pre sl show ?thesis unfolding consumer_inv_def by metis
qed

lemma consumer_inv_peek:
  assumes inv: "consumer_inv r pub rcv" and e: "peek r n = (Some (i, k), r')"
  shows "consumer_inv r' pub (rcv @ map (\<lambda>j. ring_index r' (i + word_of_nat j)) [0..<unat k])"
    (is "consumer_inv _ _ (rcv @ ?new)")
proof -
  from inv obtain B c P' where ok: "consumer_ok r (B + c) (B + length rcv) P' (B + length pub)"
    and pre: "rcv = take (length rcv) pub"
    and sl: "\<forall>k. c \<le> k \<and> k < length pub \<longrightarrow> slots r ! ((B + k) mod unat (ring_size r)) = pub ! k"
    unfolding consumer_inv_def by blast
  obtain m r1 where a: "available r n = (m, r1)" by (cases "available r n")
  then have r': "m = k" "i = cached_cons r1" "r' = r1\<lparr>cached_cons := cached_cons r1 + k\<rparr>"
    using e by (auto simp: peek_def split: if_splits)
  from available_spec[OF ok a] obtain P1 where ok1: "consumer_ok r1 (B + c) (B + length rcv) P1 (B + length pub)"
    and m: "unat m = min (P1 - (B + length rcv)) (unat n)" and fr: "slots r1 = slots r" "ring_size r1 = ring_size r"
    by blast
  have le: "B + length rcv + unat k \<le> P1" "c \<le> length rcv" "P1 \<le> B + length pub"
    using ok1 m r'(1) by (auto simp: consumer_ok_def)
  have wf: "ring_wf r'" using ok1 r'(3) by (simp add: consumer_ok_def ring_wf_def)
  have "ring_index r' (i + word_of_nat j) = pub ! (length rcv + j)" if "j < unat k" for j
  proof -
    have "i + word_of_nat j = word_of_nat (B + (length rcv + j))"
      using ok1 r'(2) by (simp add: consumer_ok_def)
    then have "slot_of r' (i + word_of_nat j) = (B + (length rcv + j)) mod unat (ring_size r')"
      by (simp only: slot_of_nat[OF wf])
    then show ?thesis using sl that le r'(3) fr by (simp add: ring_index_def)
  qed
  then have "?new = take (unat k) (drop (length rcv) pub)"
    using le by (intro nth_equalityI) auto
  then have "rcv @ ?new = take (length (rcv @ ?new)) pub"
    using pre le by (metis length_map length_upt length_append minus_nat.diff_0 take_add)
  moreover have "consumer_ok r' (B + c) (B + length (rcv @ ?new)) P1 (B + length pub)"
    using ok1 r'(3) le by (simp add: consumer_ok_def ring_wf_def)
  moreover have "slots r' = slots r" "ring_size r' = ring_size r" using r'(3) fr by auto
  ultimately show ?thesis unfolding consumer_inv_def using sl by metis
qed


lemma consumer_inv_unpeek:
  assumes inv: "consumer_inv r pub rcv" and k: "k \<le> cached_cons r - cons_ctr r"
  shows "consumer_inv (unpeek r k) pub (take (length rcv - unat k) rcv)" (is "consumer_inv _ _ ?rcv")
proof -
  from inv obtain B c P' where ok: "consumer_ok r (B + c) (B + length rcv) P' (B + length pub)"
    and pre: "rcv = take (length rcv) pub"
    and sl: "\<forall>k. c \<le> k \<and> k < length pub \<longrightarrow> slots r ! ((B + k) mod unat (ring_size r)) = pub ! k"
    unfolding consumer_inv_def by blast
  have le: "unat k \<le> length rcv - c" "c \<le> length rcv"
    using k consumer_outstanding(1)[OF ok] ok by (auto simp: word_le_nat_alt consumer_ok_def)
  have "cached_cons (unpeek r k) = word_of_nat (B + length ?rcv)"
    using ok le by (simp add: consumer_ok_def unpeek_def of_nat_diff)
  then have "consumer_ok (unpeek r k) (B + c) (B + length ?rcv) P' (B + length pub)"
    using ok le by (auto simp: consumer_ok_def unpeek_def ring_wf_def)
  moreover have "?rcv = take (length ?rcv) pub"
    using pre by (metis diff_le_self length_take min.absorb2 take_take)
  moreover have "slots (unpeek r k) = slots r" "ring_size (unpeek r k) = ring_size r"
    by (simp_all add: unpeek_def)
  ultimately show ?thesis unfolding consumer_inv_def using sl by metis
qed

lemma consumer_inv_release:
  assumes inv: "consumer_inv r pub rcv" and n: "n \<le> cached_cons r - cons_ctr r"
  shows "consumer_inv (snd (release r n)) pub rcv"
proof -
  from inv obtain B c P' where ok: "consumer_ok r (B + c) (B + length rcv) P' (B + length pub)"
    and pre: "rcv = take (length rcv) pub"
    and sl: "\<forall>k. c \<le> k \<and> k < length pub \<longrightarrow> slots r ! ((B + k) mod unat (ring_size r)) = pub ! k"
    unfolding consumer_inv_def by blast
  have "c + unat n \<le> length rcv"
    using n consumer_outstanding(1)[OF ok] ok by (auto simp: word_le_nat_alt consumer_ok_def)
  then have "consumer_ok (snd (release r n)) (B + (c + unat n)) (B + length rcv) P' (B + length pub)"
    using ok by (simp add: consumer_ok_def release_def ring_wf_def)
  then show ?thesis unfolding consumer_inv_def using pre sl
    by (intro exI[of _ B] exI[of _ "c + unat n"] exI[of _ P']) (simp add: release_def)
qed

lemma consumer_run_inv: "consumer_run r pub rcv \<Longrightarrow> consumer_inv r pub rcv"
  by (induction rule: consumer_run.induct)
    (blast intro: consumer_inv_start consumer_inv_kernel consumer_inv_peek consumer_inv_peek_none
      consumer_inv_unpeek consumer_inv_release)+

text \<open>
  C23. Consumer rings deliver in order: in every interleaving of the kernel's production with the program's
  peeks, un-peeks and releases, across wrap-around of the counters, the entries the program has read and
  kept are a prefix of the entries the kernel produced: none is skipped, repeated or overwritten before it is read.
\<close>
theorem consumer_fifo:
  assumes "consumer_run r pub rcv"
  shows "rcv = take (length rcv) pub \<and> length rcv \<le> length pub"
proof -
  from consumer_run_inv[OF assms] obtain B c P' where
    "consumer_ok r (B + c) (B + length rcv) P' (B + length pub)" "rcv = take (length rcv) pub"
    unfolding consumer_inv_def by blast
  then show ?thesis by (auto simp: consumer_ok_def)
qed

section \<open>A concrete ring\<close>

lemma wrap32: "(4294967296 :: u32) = 0"
  by simp

text \<open>A transmit ring of two slots whose counters are about to wrap around.\<close>

definition demo_ring :: "ring_kind \<Rightarrow> nat ring" where
  "demo_ring kind = ring_new kind 2 [0, 0] 0xFFFFFFFF 0xFFFFFFFF 0"

definition demo_tx :: "nat ring" where
  "demo_tx = snd (submit (ring_index_mut (ring_index_mut (snd (reserve (demo_ring Tx) 2))
     0xFFFFFFFF 7) 0 8) 2)"

lemma demo_tx_run: "producer_run demo_tx [7, 8] []"
proof -
  have "producer_run (demo_ring Tx) [] []"
    by (rule pr_start[where sz = 2 and mem = "[0, 0]" and p = "0xFFFFFFFF" and fl = 0])
      (simp_all add: ring_wf_def demo_ring_def ring_new_def)
  note r1 = pr_reserve[OF this, of 2]
  have "producer_run (ring_index_mut (snd (reserve (demo_ring Tx) 2)) 0xFFFFFFFF 7) [] []"
    by (rule pr_write[OF r1]) (simp add: demo_ring_def ring_new_def reserve_def free_def)
  then have "producer_run (ring_index_mut (ring_index_mut (snd (reserve (demo_ring Tx) 2)) 0xFFFFFFFF 7) 0 8) [] []"
    by (rule pr_write) (simp add: demo_ring_def ring_new_def reserve_def free_def ring_index_mut_def)
  note pr_submit[OF this, of 2]
  then show ?thesis
    by (simp add: demo_tx_def demo_ring_def ring_new_def reserve_def free_def ring_index_mut_def
        ring_index_def slot_of_def upt_rec)
qed


lemma demo_tx_taken: "producer_run (demo_tx\<lparr>cons_ctr := 0\<rparr>) [7, 8] [7]"
  using pr_kernel[OF demo_tx_run]
  by (simp add: demo_tx_def demo_ring_def ring_new_def reserve_def free_def ring_index_mut_def
      ring_index_def slot_of_def submit_def wrap32)

definition demo_rx :: "nat ring" where
  "demo_rx = snd (peek ((ring_index_mut (demo_ring Rx) 0xFFFFFFFF 5)\<lparr>prod_ctr := 0\<rparr>) 2)"

lemma demo_rx_run: "consumer_run demo_rx [5] [5]"
proof -
  have "consumer_run (demo_ring Rx) [] []"
    by (rule cr_start[where sz = 2 and mem = "[0, 0]" and p = "0xFFFFFFFF" and fl = 0])
      (simp_all add: ring_wf_def demo_ring_def ring_new_def)
  from cr_kernel[OF this, of 5]
  have "consumer_run ((ring_index_mut (demo_ring Rx) 0xFFFFFFFF 5)\<lparr>prod_ctr := 0\<rparr>) [5] []"
    by (simp add: demo_ring_def ring_new_def wrap32)
  moreover have "peek ((ring_index_mut (demo_ring Rx) 0xFFFFFFFF 5)\<lparr>prod_ctr := 0\<rparr>) 2
      = (Some (0xFFFFFFFF, 1), demo_rx)"
    by (simp add: demo_rx_def peek_def available_def demo_ring_def ring_new_def ring_index_mut_def slot_of_def)
  ultimately have "consumer_run demo_rx [5] ([] @ map (\<lambda>j. ring_index demo_rx (0xFFFFFFFF + word_of_nat j)) [0..<unat (1 :: u32)])"
    by (rule cr_peek)
  then show ?thesis
    by (simp add: demo_rx_def peek_def available_def demo_ring_def ring_new_def ring_index_mut_def
        ring_index_def slot_of_def)
qed

theorem producer_fifo_witness:
  "producer_run (demo_tx\<lparr>cons_ctr := 0\<rparr>) [7, 8] [7] \<and> [7] = take 1 [7, 8 :: nat]
     \<and> 2 \<le> 1 + unat (ring_size demo_tx)"
  using demo_tx_taken producer_fifo[OF demo_tx_taken] by simp

theorem reserve_exact_witness:
  "producer_run (demo_tx\<lparr>cons_ctr := 0\<rparr>) [7, 8] [7]
     \<and> fst (reserve (demo_tx\<lparr>cons_ctr := 0\<rparr>) 2) = None
     \<and> fst (reserve (demo_tx\<lparr>cons_ctr := 0\<rparr>) 1) = Some 1"
  using demo_tx_taken reserve_exact[OF demo_tx_taken, of 2] reserve_exact[OF demo_tx_taken, of 1]
  by (simp add: demo_tx_def demo_ring_def ring_new_def reserve_def free_def ring_index_mut_def submit_def)

theorem consumer_fifo_witness: "consumer_run demo_rx [5] [5] \<and> [5] = take (length [5 :: nat]) [5]"
  using demo_rx_run consumer_fifo[OF demo_rx_run] by simp

theorem ring_typed_witness:
  "ring_wf (demo_ring Tx) \<and> ring_wf (snd (reserve (demo_ring Tx) 1)) \<and> ring_index (ring_index_mut (demo_ring Tx) 0xFFFFFFFF 9) 0xFFFFFFFF = 9
     \<and> slot_of (demo_ring Tx) 0xFFFFFFFF < length (slots (demo_ring Tx))"
proof -
  have "ring_wf (demo_ring Tx)" by (simp add: demo_ring_def ring_new_def ring_wf_def)
  from ring_typed[OF this, of 1 "0xFFFFFFFF" 9] this show ?thesis by blast
qed

end
