(* ===== verification/Umem.thy ===== *)
theory Umem
  imports Ring
begin

text \<open>
  The packet memory shared with the kernel: \<^verbatim>\<open>src/farsight/src/xdp/page.rs\<close>, \<^verbatim>\<open>umem.rs\<close> and \<^verbatim>\<open>tx_metadata.rs\<close>. The
  area is a function from offsets to bytes; \<^verbatim>\<open>of_desc\<close> yields the start and the length of a slice. The page sizes,
  \<^verbatim>\<open>mmap\<close> and the registration with the kernel are parameters.
\<close>

section \<open>Pages\<close>

definition align_to :: "usize \<Rightarrow> usize \<Rightarrow> usize" where
  "align_to sz align = (sz + align - 1) AND NOT (align - 1)"

definition align_to_page :: "usize \<Rightarrow> usize \<Rightarrow> usize" where
  "align_to_page page_size sz = align_to sz page_size"

definition align_to_hugepage :: "usize \<Rightarrow> usize \<Rightarrow> usize" where
  "align_to_hugepage hugepage_size sz = align_to sz hugepage_size"

section \<open>Transmit metadata\<close>

definition to_le16 :: "u16 \<Rightarrow> bytes" where
  "to_le16 w = rev (to_be16 w)"

definition to_le64 :: "u64 \<Rightarrow> bytes" where
  "to_le64 w = map (\<lambda>i. ucast (drop_bit (8 * i) w)) [0..<8]"

record tx_metadata_request =
  csum_start :: u16
  csum_offset :: u16
  launch_time :: u64

record tx_metadata =
  txmd_flags :: u64
  txmd_request :: tx_metadata_request

definition TX_METADATA_LEN :: nat where "TX_METADATA_LEN = 24"

definition tx_metadata_req :: "u64 \<Rightarrow> u16 \<Rightarrow> u16 \<Rightarrow> u64 \<Rightarrow> tx_metadata" where
  "tx_metadata_req fl start off time =
     \<lparr>txmd_flags = fl, txmd_request = \<lparr>csum_start = start, csum_offset = off, launch_time = time\<rparr>\<rparr>"

section \<open>The packet memory\<close>

type_synonym memory = "nat \<Rightarrow> u8"

definition write_bytes :: "memory \<Rightarrow> nat \<Rightarrow> bytes \<Rightarrow> memory" where
  "write_bytes mem at bs = (\<lambda>a. if at \<le> a \<and> a < at + length bs then bs ! (a - at) else mem a)"

definition read_bytes :: "memory \<Rightarrow> nat \<Rightarrow> nat \<Rightarrow> bytes" where
  "read_bytes mem at n = map (\<lambda>i. mem (at + i)) [0..<n]"

text \<open>The union and its padding as \<^verbatim>\<open>repr(C)\<close> lays them out; the four padding bytes are left as they are.\<close>

definition write_tx_metadata :: "memory \<Rightarrow> nat \<Rightarrow> tx_metadata \<Rightarrow> memory" where
  "write_tx_metadata mem at md =
     (let mem = write_bytes mem at (to_le64 (txmd_flags md));
          mem = write_bytes mem (at + 8) (to_le16 (csum_start (txmd_request md)));
          mem = write_bytes mem (at + 10) (to_le16 (csum_offset (txmd_request md)))
      in write_bytes mem (at + 16) (to_le64 (launch_time (txmd_request md))))"

record umem =
  um_area :: u64
  um_size :: usize
  um_frame_size :: u32

definition saturating_mul :: "u32 \<Rightarrow> u32 \<Rightarrow> u32" where
  "saturating_mul a b = (if unat a * unat b < 2 ^ 32 then a * b else - 1)"

text \<open>\<^verbatim>\<open>mmap\<close> is a parameter: the address it maps a size and a choice of huge pages to, or its failure.\<close>

definition umem_new :: "usize \<Rightarrow> usize \<Rightarrow> (usize \<Rightarrow> bool \<Rightarrow> u64 option) \<Rightarrow> u32 \<Rightarrow> u32 \<Rightarrow> bool \<Rightarrow> umem option" where
  "umem_new page_size hugepage_size mmap frame_size frame_count huge_pages =
     (let sz = (if huge_pages then align_to_hugepage hugepage_size (ucast (saturating_mul frame_size frame_count))
                else align_to_page page_size (ucast (saturating_mul frame_size frame_count)))
      in case mmap sz huge_pages of
           None \<Rightarrow> None
         | Some area \<Rightarrow> Some \<lparr>um_area = area, um_size = sz, um_frame_size = frame_size\<rparr>)"

text \<open>The slice of a descriptor: where it starts in the area and how long it is.\<close>

definition of_desc :: "umem \<Rightarrow> descriptor \<Rightarrow> nat \<times> nat" where
  "of_desc self desc = (unat (d_addr desc), unat (um_frame_size self))"

section \<open>Registration\<close>

definition XDP_UMEM_TX_METADATA_LEN :: u32 where "XDP_UMEM_TX_METADATA_LEN = 4"

record umem_reg =
  reg_addr :: u64
  reg_len :: u64
  reg_frame_size :: u32
  reg_headroom :: u32
  reg_flags :: u32
  reg_tx_metadata_len :: u32

definition as_reg :: "umem \<Rightarrow> umem_reg" where
  "as_reg self = \<lparr>reg_addr = um_area self, reg_len = um_size self, reg_frame_size = um_frame_size self,
     reg_headroom = 0, reg_flags = XDP_UMEM_TX_METADATA_LEN, reg_tx_metadata_len = word_of_nat TX_METADATA_LEN\<rparr>"

definition remove_flags :: "umem_reg \<Rightarrow> umem_reg" where
  "remove_flags reg = reg\<lparr>reg_flags := 0\<rparr>"

section \<open>Lemmas\<close>

lemma write_bytes_same: "i < length bs \<Longrightarrow> write_bytes mem at bs (at + i) = bs ! i"
  by (simp add: write_bytes_def)

lemma write_bytes_other: "a < at \<or> at + length bs \<le> a \<Longrightarrow> write_bytes mem at bs a = mem a"
  by (auto simp: write_bytes_def)

lemma read_write_bytes: "read_bytes (write_bytes mem at bs) at (length bs) = bs"
  by (intro nth_equalityI) (simp_all add: read_bytes_def write_bytes_def)

lemma align_to_unat:
  assumes "align = 2 ^ k" "k < 64" and "unat sz + 2 ^ k \<le> 2 ^ 64"
  shows "unat (align_to sz align) = (unat sz + (2 ^ k - 1)) div 2 ^ k * 2 ^ k"
proof -
  have "align - 1 = mask k" using assms(1) by (simp add: mask_eq_exp_minus_1)
  moreover have "unat (sz + align - 1) = unat sz + (2 ^ k - 1)"
  proof -
    have "sz + align - 1 = sz + (2 ^ k - 1)" using assms(1) by (simp add: algebra_simps)
    also have "\<dots> = word_of_nat (unat sz) + word_of_nat (2 ^ k - 1)" by (simp add: of_nat_diff)
    finally have "sz + align - 1 = word_of_nat (unat sz + (2 ^ k - 1))" by (simp only: of_nat_add)
    moreover have "unat sz + (2 ^ k - 1) < 2 ^ 64" using assms(3) by (cases "(2::nat) ^ k") auto
    ultimately show ?thesis by (simp add: unat_of_nat)
  qed
  ultimately show ?thesis by (simp add: align_to_def unat_and_not_mask)
qed

lemma round_up_least:
  fixes n d :: nat
  assumes "0 < d"
  shows "d dvd (n + (d - 1)) div d * d" and "n \<le> (n + (d - 1)) div d * d"
    and "d dvd m \<Longrightarrow> n \<le> m \<Longrightarrow> (n + (d - 1)) div d * d \<le> m"
proof -
  show "d dvd (n + (d - 1)) div d * d" by simp
  have "(n + (d - 1)) div d * d + (n + (d - 1)) mod d = n + (d - 1)" by simp
  moreover have "(n + (d - 1)) mod d \<le> d - 1" using mod_less_divisor[OF assms, of "n + (d - 1)"] by linarith
  ultimately show "n \<le> (n + (d - 1)) div d * d" by linarith
  assume "d dvd m" "n \<le> m"
  then obtain q where q: "m = q * d" by (metis dvd_def mult.commute)
  have "n + (d - 1) < (q + 1) * d" using \<open>n \<le> m\<close> q assms by simp
  then have "(n + (d - 1)) div d < q + 1" by (simp add: less_mult_imp_div_less)
  then have "(n + (d - 1)) div d \<le> q" by linarith
  then show "(n + (d - 1)) div d * d \<le> m" using q mult_le_mono1 by blast
qed


lemma unat_saturating_mul: "unat a * unat b < 2 ^ 32 \<Longrightarrow> unat (saturating_mul a b) = unat a * unat b"
  by (simp add: saturating_mul_def unat_word_ariths)

lemma umem_new_size:
  assumes "umem_new page_size hugepage_size mmap fs cnt huge = Some u"
    and "(if huge then hugepage_size else page_size) = 2 ^ k" "k < 63" and "unat fs * unat cnt < 2 ^ 32"
  shows "unat (um_size u) = (unat fs * unat cnt + (2 ^ k - 1)) div 2 ^ k * 2 ^ k \<and> um_frame_size u = fs"
proof -
  have sz: "unat (ucast (saturating_mul fs cnt) :: usize) = unat fs * unat cnt"
    using assms(4) by (simp add: unat_ucast_mod unat_saturating_mul)
  have "(2 :: nat) ^ k \<le> 2 ^ 62" using assms(3) by (intro power_increasing) auto
  then have "unat fs * unat cnt + 2 ^ k \<le> 2 ^ 64" using assms(4) by simp
  then have "unat (align_to (ucast (saturating_mul fs cnt)) (2 ^ k :: usize))
      = (unat fs * unat cnt + (2 ^ k - 1)) div 2 ^ k * 2 ^ k"
    using align_to_unat[OF refl, of k "ucast (saturating_mul fs cnt)"] assms(3) sz by simp
  then show ?thesis using assms(1,2)
    by (auto simp: umem_new_def align_to_page_def align_to_hugepage_def Let_def split: option.splits if_splits)
qed

text \<open>
  The mapped area holds the frames: it is the smallest whole number of pages for the frames asked for, so the
  slice of every descriptor that addresses a frame by its start lies inside the area.
\<close>
theorem umem_holds_frames:
  assumes "umem_new page_size hugepage_size mmap fs cnt huge = Some u"
    and "(if huge then hugepage_size else page_size) = 2 ^ k" "k < 63" and "unat fs * unat cnt < 2 ^ 32"
  shows "2 ^ k dvd unat (um_size u) \<and> unat fs * unat cnt \<le> unat (um_size u)
     \<and> (\<forall>m. 2 ^ k dvd m \<and> unat fs * unat cnt \<le> m \<longrightarrow> unat (um_size u) \<le> m)
     \<and> (\<forall>desc j. j < unat cnt \<and> unat (d_addr desc) = j * unat fs \<longrightarrow>
          fst (of_desc u desc) + snd (of_desc u desc) \<le> unat (um_size u))"
proof -
  note sz = umem_new_size[OF assms]
  have ge: "unat fs * unat cnt \<le> unat (um_size u)" using sz round_up_least(2)[of "2 ^ k"] by simp
  have "fst (of_desc u desc) + snd (of_desc u desc) \<le> unat (um_size u)"
    if "j < unat cnt" "unat (d_addr desc) = j * unat fs" for desc j
  proof -
    have "(j + 1) * unat fs \<le> unat cnt * unat fs" using that(1) by (intro mult_le_mono1) simp
    then show ?thesis using that(2) ge sz by (simp add: of_desc_def algebra_simps)
  qed
  then show ?thesis using sz ge round_up_least(1,3)[of "2 ^ k"] by auto
qed

theorem umem_holds_frames_witness:
  "umem_new 4096 2097152 (\<lambda>_ _. Some 0) 2048 12 False = Some \<lparr>um_area = 0, um_size = 24576, um_frame_size = 2048\<rparr>
     \<and> 24576 \<le> unat (um_size \<lparr>um_area = 0, um_size = 24576, um_frame_size = 2048\<rparr>)"
proof -
  have n: "umem_new 4096 2097152 (\<lambda>_ _. Some 0) 2048 12 False = Some \<lparr>um_area = 0, um_size = 24576, um_frame_size = 2048\<rparr>"
    by (simp add: umem_new_def align_to_page_def align_to_def saturating_mul_def)
  show ?thesis using umem_holds_frames[OF n, of 12] n by simp
qed

text \<open>
  A transmit descriptor starts 24 bytes into its frame, after the metadata, but \<^verbatim>\<open>of_desc\<close> returns a slice of a whole
  frame: with the program's frames of 2048 bytes and an even ring size the slice of the last frame ends 24 bytes
  behind the end of the mapped area.
\<close>
theorem tx_slice_overruns:
  assumes "umem_new 4096 hugepage_size mmap 2048 (3 * n) False = Some u"
    and "even (unat n)" "0 < unat n" "unat n < 2 ^ 19"
    and "unat (d_addr desc) = (3 * unat n - 1) * 2048 + TX_METADATA_LEN"
  shows "fst (of_desc u desc) + snd (of_desc u desc) = unat (um_size u) + 24"
proof -
  have n: "unat (3 * n) = 3 * unat n" using assms(4) by (simp add: unat_word_ariths)
  have "unat (um_size u) = (2048 * (3 * unat n) + 4095) div 4096 * 4096 \<and> um_frame_size u = 2048"
    using umem_new_size[OF assms(1), of 12] n assms(4) by simp
  moreover obtain q where "unat n = 2 * q" "0 < q" using assms(2,3) by auto
  moreover from this have "(2048 * (3 * unat n) + 4095) div 4096 = 3 * q" by simp
  ultimately show ?thesis using assms(5) by (simp add: of_desc_def TX_METADATA_LEN_def)
qed

theorem tx_slice_overruns_witness:
  "fst (of_desc \<lparr>um_area = 0, um_size = 24576, um_frame_size = 2048\<rparr> \<lparr>d_addr = 22552, d_len = 62, d_options = 0\<rparr>)
     + snd (of_desc \<lparr>um_area = 0, um_size = 24576, um_frame_size = 2048\<rparr> \<lparr>d_addr = 22552, d_len = 62, d_options = 0\<rparr>)
   = unat (24576 :: usize) + 24"
proof -
  have n: "umem_new 4096 2097152 (\<lambda>_ _. Some 0) 2048 (3 * 4) False = Some \<lparr>um_area = 0, um_size = 24576, um_frame_size = 2048\<rparr>"
    by (simp add: umem_new_def align_to_page_def align_to_def saturating_mul_def)
  show ?thesis
    using tx_slice_overruns[OF n, of "\<lparr>d_addr = 22552, d_len = 62, d_options = 0\<rparr>"]
    by (simp add: TX_METADATA_LEN_def)
qed

end
