(* ===== verification/Completer.thy ===== *)
theory Completer
  imports Ring Complex_Main
begin

text \<open>
  The completer, \<^verbatim>\<open>src/farsight/src/controller/completer.rs\<close>: it takes finished transmissions from the completion ring,
  at most as many as a token bucket allows. Its \<^verbatim>\<open>f64\<close> tokens, rate and times are rational numbers, so the
  rounding of the floating-point operations is not modelled. The counter \<^verbatim>\<open>completed\<close> that the code shares
  through a reference is a field of the state.
\<close>

section \<open>The completer\<close>

definition f64_of_u32 :: "u32 \<Rightarrow> rat" where
  "f64_of_u32 w = rat_of_nat (unat w)"

text \<open>Times and tokens are rational numbers; \<open>now\<close> is what \<^verbatim>\<open>Instant::now\<close> returns at a call.\<close>

record completer =
  cr :: "u64 ring"
  completed :: usize
  rate :: rat
  tokens :: rat
  last_refill :: rat
  comp_batch_size :: u32

definition completer_new :: "rat \<Rightarrow> u32 \<Rightarrow> u64 ring \<Rightarrow> rat \<Rightarrow> usize \<Rightarrow> completer" where
  "completer_new now batch c r done =
     \<lparr>cr = c, completed = done, rate = r, tokens = 0, last_refill = now, comp_batch_size = batch\<rparr>"

definition next_batch :: "rat \<Rightarrow> completer \<Rightarrow> u32 \<times> completer" where
  "next_batch now self =
     (let elapsed = now - last_refill self;
          self1 = self\<lparr>last_refill := now\<rparr>;
          self2 = self1\<lparr>tokens := min (tokens self1 + elapsed * rate self1) (f64_of_u32 (comp_batch_size self1))\<rparr>
      in if tokens self2 < 1 then (0, self2)
         else (let take = \<lfloor>tokens self2\<rfloor> in (word_of_int take, self2\<lparr>tokens := tokens self2 - of_int take\<rparr>)))"

definition completer_tick :: "rat \<Rightarrow> completer \<Rightarrow> bool \<times> completer" where
  "completer_tick now self =
     (let (batch, self1) = next_batch now self in
      case peek (cr self1) batch of
        (Some (_, cnt), c) \<Rightarrow>
          (True, self1\<lparr>cr := snd (release c cnt), completed := completed self1 + ucast cnt,
                      tokens := tokens self1 + f64_of_u32 (batch - cnt)\<rparr>)
      | (None, c) \<Rightarrow> (False, self1\<lparr>cr := c, tokens := tokens self1 + f64_of_u32 batch\<rparr>))"

definition completer_into_inner :: "completer \<Rightarrow> u64 ring" where
  "completer_into_inner self = cr self"

section \<open>The token bucket\<close>

definition bucket_ok :: "completer \<Rightarrow> bool" where
  "bucket_ok c \<longleftrightarrow> 0 \<le> tokens c \<and> 0 \<le> rate c \<and> tokens c \<le> f64_of_u32 (comp_batch_size c)"

lemma f64_nonneg: "0 \<le> f64_of_u32 w"
  unfolding f64_of_u32_def by (rule of_nat_0_le_iff)

lemma f64_0 [simp]: "f64_of_u32 0 = 0"
  by (simp add: f64_of_u32_def)

lemma f64_floor:
  assumes "0 \<le> x" "x \<le> f64_of_u32 b"
  shows "f64_of_u32 (word_of_int \<lfloor>x\<rfloor>) = of_int \<lfloor>x\<rfloor>"
proof -
  have "\<lfloor>x\<rfloor> \<le> int (unat b)"
    using floor_mono[OF assms(2)] unfolding f64_of_u32_def by (simp only: floor_of_nat)
  moreover have "int (unat b) < int 4294967296" using unat_bounds(3)[of b] by (simp only: of_nat_less_iff)
  ultimately have "\<lfloor>x\<rfloor> < 4294967296" by linarith
  moreover have "0 \<le> \<lfloor>x\<rfloor>" using assms(1) by simp
  ultimately have "uint (word_of_int \<lfloor>x\<rfloor> :: u32) = \<lfloor>x\<rfloor>"
    by (simp add: uint_word_of_int mod_pos_pos_trivial)
  then have "int (unat (word_of_int \<lfloor>x\<rfloor> :: u32)) = \<lfloor>x\<rfloor>" by (simp only: uint_nat[symmetric])
  then show ?thesis unfolding f64_of_u32_def by (metis of_int_of_nat_eq)
qed

lemma next_batch_spec:
  assumes ok: "bucket_ok c" and now: "last_refill c \<le> now" and e: "next_batch now c = (n, c')"
  shows "tokens c' + f64_of_u32 n \<le> tokens c + (now - last_refill c) * rate c
     \<and> 0 \<le> tokens c' \<and> tokens c' + f64_of_u32 n \<le> f64_of_u32 (comp_batch_size c)
     \<and> last_refill c' = now \<and> rate c' = rate c \<and> comp_batch_size c' = comp_batch_size c
     \<and> completed c' = completed c \<and> cr c' = cr c"
proof -
  define t where "t = min (tokens c + (now - last_refill c) * rate c) (f64_of_u32 (comp_batch_size c))"
  have t0: "0 \<le> t" using ok now f64_nonneg by (simp add: t_def bucket_ok_def)
  have tb: "t \<le> f64_of_u32 (comp_batch_size c)" "t \<le> tokens c + (now - last_refill c) * rate c"
    by (simp_all add: t_def)
  have e': "next_batch now c = (if t < 1 then (0, c\<lparr>last_refill := now, tokens := t\<rparr>)
      else (word_of_int \<lfloor>t\<rfloor>, c\<lparr>last_refill := now, tokens := t - of_int \<lfloor>t\<rfloor>\<rparr>))"
    by (simp add: next_batch_def Let_def t_def)
  show ?thesis
  proof (cases "t < 1")
    case True
    then have "n = 0" "c' = c\<lparr>last_refill := now, tokens := t\<rparr>" using e e' by auto
    then show ?thesis using t0 tb by simp
  next
    case False
    then have "n = word_of_int \<lfloor>t\<rfloor>" "c' = c\<lparr>last_refill := now, tokens := t - of_int \<lfloor>t\<rfloor>\<rparr>" using e e' by auto
    then show ?thesis using f64_floor[OF t0 tb(1)] tb by simp
  qed
qed

lemma peek_count:
  assumes "peek r n = (Some (i, k), r')"
  shows "k \<le> n"
  using assms by (auto simp: peek_def available_def Let_def split: if_splits prod.splits)

lemma f64_diff: "k \<le> n \<Longrightarrow> f64_of_u32 (n - k) = f64_of_u32 n - f64_of_u32 k"
  unfolding f64_of_u32_def word_le_nat_alt by (simp only: unat_sub word_le_nat_alt of_nat_diff)

text \<open>What a tick takes from the completion ring.\<close>

definition taken :: "rat \<Rightarrow> completer \<Rightarrow> u32" where
  "taken now c = (let (batch, c1) = next_batch now c in
     case fst (peek (cr c1) batch) of Some (_, k) \<Rightarrow> k | None \<Rightarrow> 0)"

lemma tick_spec:
  assumes ok: "bucket_ok c" and now: "last_refill c \<le> now" and e: "completer_tick now c = (b, c')"
  shows "tokens c' + f64_of_u32 (taken now c) \<le> tokens c + (now - last_refill c) * rate c
     \<and> bucket_ok c' \<and> taken now c \<le> comp_batch_size c \<and> completed c' = completed c + ucast (taken now c)
     \<and> last_refill c' = now \<and> rate c' = rate c \<and> comp_batch_size c' = comp_batch_size c"
proof -
  obtain n c1 where n: "next_batch now c = (n, c1)" by (cases "next_batch now c")
  note nb = next_batch_spec[OF ok now n]
  have nle: "n \<le> comp_batch_size c"
  proof -
    have "f64_of_u32 n \<le> f64_of_u32 (comp_batch_size c)" using nb by linarith
    then show ?thesis by (simp add: f64_of_u32_def word_le_nat_alt del: of_nat_unat)
  qed
  obtain p r where p: "peek (cr c1) n = (p, r)" by (cases "peek (cr c1) n")
  show ?thesis
  proof (cases p)
    case None
    then show ?thesis using e n p nb ok nle f64_nonneg[of n] by (auto simp: completer_tick_def taken_def bucket_ok_def)
  next
    case (Some ik)
    obtain i k where ik: "ik = (i, k)" by (cases ik)
    then have k: "k \<le> n" using p Some peek_count by blast
    moreover have "f64_of_u32 k \<le> f64_of_u32 n" "0 \<le> f64_of_u32 k"
      using f64_diff[OF k] f64_nonneg[of "n - k"] f64_nonneg[of k] by simp_all
    ultimately show ?thesis using e n p nb ok nle Some ik f64_diff[OF k]
      by (auto simp: completer_tick_def taken_def bucket_ok_def)
  qed
qed


text \<open>
  A sequence of ticks, each at a time and after the kernel has moved the producer counter of the completion ring; the
  result counts the completions taken.
\<close>

fun comp_ticks :: "(rat \<times> u32) list \<Rightarrow> completer \<Rightarrow> nat \<times> completer" where
  "comp_ticks [] c = (0, c)"
| "comp_ticks ((now, p) # es) c =
     (let c0 = c\<lparr>cr := (cr c)\<lparr>prod_ctr := p\<rparr>\<rparr>;
          (m, c2) = comp_ticks es (snd (completer_tick now c0))
      in (unat (taken now c0) + m, c2))"

lemma comp_ticks_bound:
  assumes "bucket_ok c" "sorted (last_refill c # map fst es)" "comp_ticks es c = (m, c')"
  shows "of_nat m + tokens c' \<le> tokens c + (last_refill c' - last_refill c) * rate c
     \<and> bucket_ok c' \<and> rate c' = rate c \<and> comp_batch_size c' = comp_batch_size c
     \<and> last_refill c' = last (last_refill c # map fst es)"
  using assms
proof (induction es arbitrary: c m)
  case (Cons e es)
  obtain now p where e: "e = (now, p)" by (cases e)
  define c0 where "c0 = c\<lparr>cr := (cr c)\<lparr>prod_ctr := p\<rparr>\<rparr>"
  obtain b c1 where t: "completer_tick now c0 = (b, c1)" by (cases "completer_tick now c0")
  have "bucket_ok c0" "last_refill c0 \<le> now" using Cons(2,3) by (auto simp: c0_def bucket_ok_def e)
  note ts = tick_spec[OF this t]
  obtain m1 where r: "comp_ticks es c1 = (m1, c')" and m: "m = unat (taken now c0) + m1"
    using Cons(4) t by (auto simp: e c0_def[symmetric] Let_def split: prod.splits)
  have fields: "tokens c0 = tokens c" "last_refill c0 = last_refill c" "rate c0 = rate c"
      "comp_batch_size c0 = comp_batch_size c" by (simp_all add: c0_def)
  have "sorted (last_refill c1 # map fst es)" using Cons(3) ts by (simp add: e)
  then have ih: "of_nat m1 + tokens c' \<le> tokens c1 + (last_refill c' - now) * rate c" "bucket_ok c'" "rate c' = rate c"
      "comp_batch_size c' = comp_batch_size c1" "last_refill c' = last (now # map fst es)"
    using Cons(1)[OF _ _ r] ts fields by auto
  have "rat_of_nat m = f64_of_u32 (taken now c0) + of_nat m1"
    unfolding m f64_of_u32_def by (rule of_nat_add)
  moreover have "(last_refill c' - last_refill c) * rate c
      = (last_refill c' - now) * rate c + (now - last_refill c) * rate c" by (simp add: algebra_simps)
  ultimately show ?case using ih ts fields by (simp add: e)
qed simp



end
