(* ===== verification/Sender.thy ===== *)
theory Sender
  imports Tcp Umem Completer
begin

text \<open>
  The sender of TCP segments (\<^verbatim>\<open>controller/sender.rs\<close>): the templates it lays into its frames, the loops that wait for
  transmit slots, and the writing of SYN batches, control segments and data segments into packet memory. The lemmas
  compare the bytes left in memory with reference packets whose checksums verify.
\<close>

section \<open>The sender\<close>

record shared_data =
  source_ip :: ipv4
  gateway :: bytes
  interface :: bytes
  xdp_checksum_offload :: bool

record sender =
  tcp_checksum :: u32
  ipv4_checksum :: u32
  s_umem :: umem
  s_tx :: "descriptor ring"
  checksum_offload :: bool

definition XDP_TX_METADATA :: u32 where "XDP_TX_METADATA = 2"

definition XDP_TXMD_FLAGS_CHECKSUM :: u64 where "XDP_TXMD_FLAGS_CHECKSUM = 2"

definition init_frame :: "shared_data \<Rightarrow> umem \<Rightarrow> u32 \<Rightarrow> descriptor ring \<times> memory \<Rightarrow> descriptor ring \<times> memory" where
  "init_frame shared um idx = (\<lambda>(tx, mem).
     let meta_addr = unat idx * unat (um_frame_size um);
         addr = meta_addr + TX_METADATA_LEN;
         desc = (ring_index tx idx)\<lparr>d_addr := word_of_nat addr\<rparr>;
         (desc, mem) =
           (if xdp_checksum_offload shared
            then (desc\<lparr>d_options := XDP_TX_METADATA\<rparr>,
                  write_tx_metadata mem meta_addr (tx_metadata_req XDP_TXMD_FLAGS_CHECKSUM 34 16 0))
            else (desc, mem));
         mem = write_bytes mem addr TCP_PACKET;
         mem = write_bytes mem addr (gateway shared);
         mem = write_bytes mem (addr + 6) (interface shared);
         mem = write_bytes mem (addr + 26) (to_be32 (source_ip shared))
     in (ring_index_mut tx idx desc, mem))"

definition sender_new :: "shared_data \<Rightarrow> umem \<Rightarrow> descriptor ring \<Rightarrow> u32 \<Rightarrow> memory \<Rightarrow> sender \<times> memory" where
  "sender_new shared um tx starting_frame mem =
     (let indices = (if starting_frame \<le> starting_frame + ring_size tx
                     then map (\<lambda>i. starting_frame + word_of_nat i) [0..<unat (ring_size tx)] else []);
          (tx, mem) = fold (init_frame shared um) indices (tx, mem);
          source_ip_sum = ipv4_sum (to_be32 (source_ip shared))
      in (\<lparr>tcp_checksum = (if xdp_checksum_offload shared then 6 + 28 + source_ip_sum
                           else 6 + 28 + sum_body (take 28 (drop 34 TCP_PACKET)) + source_ip_sum),
           ipv4_checksum = sum_body (take 20 (drop 14 TCP_PACKET)) + source_ip_sum,
           s_umem = um, s_tx = tx, checksum_offload = xdp_checksum_offload shared\<rparr>, mem))"

section \<open>Waiting for a slot\<close>

text \<open>
  What the program sees of the outside in one round of a waiting loop: the kernel's words of the transmit ring, the
  outcome of the wake-up call, the clock and the producer counter of the completion ring. The loop consumes one
  such observation per round; running out of them is a wait that has not ended yet.
\<close>

record wait_obs =
  wo_flags :: u32
  wo_cons :: u32
  wo_sendto :: bool
  wo_now :: rat
  wo_cr_prod :: u32

datatype send_result = Sent | Wakeup_failed | Blocked | Panicked | Undefined

fun wait_reserve :: "wait_obs list \<Rightarrow> u32 \<Rightarrow> descriptor ring \<Rightarrow> completer
    \<Rightarrow> (send_result + u32) \<times> descriptor ring \<times> completer" where
  "wait_reserve [] n tx cmp = (Inl Blocked, tx, cmp)"
| "wait_reserve (w # ws) n tx cmp =
     (let tx1 = tx\<lparr>rflags := wo_flags w, cons_ctr := wo_cons w\<rparr> in
      if needs_wakeup (rflags tx1) \<and> \<not> wo_sendto w then (Inl Wakeup_failed, tx1, cmp)
      else (case reserve tx1 n of
              (Some i, tx2) \<Rightarrow> (Inr i, tx2, cmp)
            | (None, tx2) \<Rightarrow>
                wait_reserve ws n tx2 (snd (completer_tick (wo_now w) (cmp\<lparr>cr := (cr cmp)\<lparr>prod_ctr := wo_cr_prod w\<rparr>\<rparr>)))))"

text \<open>The end of every send: the wake-up after the submission, with the flags and the outcome seen then.\<close>

definition kick :: "u32 \<Rightarrow> bool \<Rightarrow> send_result" where
  "kick fl sendto_ok = (if needs_wakeup fl \<and> \<not> sendto_ok then Wakeup_failed else Sent)"

section \<open>Writing a packet\<close>

definition put_header :: "memory \<Rightarrow> nat \<Rightarrow> ipv4 \<Rightarrow> u32 \<Rightarrow> u32 \<Rightarrow> u16 \<Rightarrow> u16 \<Rightarrow> u16 \<Rightarrow> u16 \<Rightarrow> u16 \<Rightarrow> u8 \<Rightarrow> memory" where
  "put_header mem base ip ack seq len dest_port source_port ip_sum tcp_sum fl =
     (let mem = write_bytes mem (base + off_dest_addr) (to_be32 ip);
          mem = write_bytes mem (base + off_ack) (to_be32 ack);
          mem = write_bytes mem (base + off_seq) (to_be32 seq);
          mem = write_bytes mem (base + off_len) (to_be16 len);
          mem = write_bytes mem (base + off_dest_port) (to_be16 dest_port);
          mem = write_bytes mem (base + off_source_port) (to_be16 source_port);
          mem = write_bytes mem (base + off_ip_checksum) (to_be16 ip_sum);
          mem = write_bytes mem (base + off_tcp_checksum) (to_be16 tcp_sum)
      in write_bytes mem (base + off_flags) [fl])"

definition syn_checksum :: "sender \<Rightarrow> packet_template \<Rightarrow> u32 \<Rightarrow> u16" where
  "syn_checksum self packet seq =
     (let dest_sum = ipv4_sum (to_be32 (pt_ip packet)) in
      if checksum_offload self then fold16 (tcp_checksum self + dest_sum)
      else NOT (fold16 (tcp_checksum self + dest_sum + ucast (pt_source_port packet)
                  + ucast (pt_destination_port packet) + drop_bit 16 seq + (seq AND 0xFFFF) + 0b00000010)))"

text \<open>The body of the loop of \<^verbatim>\<open>send_syn_batch\<close>, and of \<^verbatim>\<open>send_syn\<close>, for a reserved slot.\<close>

definition write_syn :: "u64 \<Rightarrow> u32 \<Rightarrow> packet_template \<Rightarrow> sender \<times> memory \<Rightarrow> (sender \<times> memory) option" where
  "write_syn seed idx packet = (\<lambda>(self, mem).
     let seq = cookie (pt_ip packet) (pt_destination_port packet) seed;
         desc = ring_index (s_tx self) idx;
         (start, len) = of_desc (s_umem self) desc;
         dest_sum = ipv4_sum (to_be32 (pt_ip packet))
     in if len < eth_tcp_ip_hdr_size then None
        else Some (self\<lparr>s_tx := ring_index_mut (s_tx self) idx (desc\<lparr>d_len := 62\<rparr>)\<rparr>,
          put_header mem start (pt_ip packet) 0 seq 48 (pt_destination_port packet) (pt_source_port packet)
            (NOT (fold16 (ipv4_checksum self + dest_sum))) (syn_checksum self packet seq) Syn))"

fun write_syns :: "u64 \<Rightarrow> u32 \<Rightarrow> packet_template list \<Rightarrow> sender \<times> memory \<Rightarrow> (sender \<times> memory) option" where
  "write_syns seed idx [] st = Some st"
| "write_syns seed idx (packet # packets) st =
     (case write_syn seed idx packet st of
        None \<Rightarrow> None
      | Some st' \<Rightarrow> write_syns seed (idx + 1) packets st')"

definition send_syn_batch :: "wait_obs list \<Rightarrow> u32 \<Rightarrow> bool \<Rightarrow> u64 \<Rightarrow> packet_template list \<Rightarrow> sender \<Rightarrow> memory \<Rightarrow> completer
    \<Rightarrow> send_result \<times> packet_template list \<times> sender \<times> memory \<times> completer" where
  "send_syn_batch ws fl sendto_ok seed packets self mem cmp =
     (let batch_size = word_of_nat (length packets) in
      case wait_reserve ws batch_size (s_tx self) cmp of
        (Inl e, tx, cmp) \<Rightarrow> (e, packets, self\<lparr>s_tx := tx\<rparr>, mem, cmp)
      | (Inr idx, tx, cmp) \<Rightarrow>
          (case write_syns seed idx packets (self\<lparr>s_tx := tx\<rparr>, mem) of
             None \<Rightarrow> (Panicked, [], self\<lparr>s_tx := tx\<rparr>, mem, cmp)
           | Some (self, mem) \<Rightarrow>
               (kick fl sendto_ok, [], self\<lparr>s_tx := snd (submit (s_tx self) batch_size)\<rparr>, mem, cmp)))"

definition send_syn :: "wait_obs list \<Rightarrow> u32 \<Rightarrow> bool \<Rightarrow> u64 \<Rightarrow> packet_template \<Rightarrow> sender \<Rightarrow> memory \<Rightarrow> completer
    \<Rightarrow> send_result \<times> sender \<times> memory \<times> completer" where
  "send_syn ws fl sendto_ok seed packet self mem cmp =
     (case wait_reserve ws 1 (s_tx self) cmp of
        (Inl e, tx, cmp) \<Rightarrow> (e, self\<lparr>s_tx := tx\<rparr>, mem, cmp)
      | (Inr idx, tx, cmp) \<Rightarrow>
          (case write_syn seed idx packet (self\<lparr>s_tx := tx\<rparr>, mem) of
             None \<Rightarrow> (Panicked, self\<lparr>s_tx := tx\<rparr>, mem, cmp)
           | Some (self, mem) \<Rightarrow>
               (kick fl sendto_ok, self\<lparr>s_tx := snd (submit (s_tx self) 1)\<rparr>, mem, cmp)))"

definition send :: "u8 \<Rightarrow> wait_obs list \<Rightarrow> u32 \<Rightarrow> bool \<Rightarrow> ipv4 \<Rightarrow> u16 \<Rightarrow> u16 \<Rightarrow> u32 \<Rightarrow> u32 \<Rightarrow> sender \<Rightarrow> memory \<Rightarrow> completer
    \<Rightarrow> send_result \<times> sender \<times> memory \<times> completer" where
  "send FLAGS ws fl sendto_ok ip source_port port seq ack self mem cmp =
     (case wait_reserve ws 1 (s_tx self) cmp of
        (Inl e, tx, cmp) \<Rightarrow> (e, self\<lparr>s_tx := tx\<rparr>, mem, cmp)
      | (Inr idx, tx, cmp) \<Rightarrow>
          (let desc = ring_index tx idx;
               (start, len) = of_desc (s_umem self) desc;
               dest_sum = ipv4_sum (to_be32 ip);
               tcp_sum = (if checksum_offload self then fold16 (tcp_checksum self + dest_sum)
                          else NOT (fold16 (tcp_checksum self + dest_sum + ucast source_port + ucast port
                                      + drop_bit 16 seq + (seq AND 0xFFFF) + drop_bit 16 ack + (ack AND 0xFFFF)
                                      + ucast FLAGS)))
           in if len < eth_tcp_ip_hdr_size then (Panicked, self\<lparr>s_tx := tx\<rparr>, mem, cmp)
              else (kick fl sendto_ok,
                    self\<lparr>s_tx := snd (submit (ring_index_mut tx idx (desc\<lparr>d_len := 62\<rparr>)) 1)\<rparr>,
                    put_header mem start ip ack seq 48 port source_port
                      (NOT (fold16 (ipv4_checksum self + dest_sum))) tcp_sum FLAGS, cmp)))"

definition send_with_data :: "wait_obs list \<Rightarrow> u32 \<Rightarrow> bool \<Rightarrow> ipv4 \<Rightarrow> u16 \<Rightarrow> u16 \<Rightarrow> u32 \<Rightarrow> u32 \<Rightarrow> bytes \<Rightarrow> sender \<Rightarrow> memory \<Rightarrow> completer
    \<Rightarrow> send_result \<times> sender \<times> memory \<times> completer" where
  "send_with_data ws fl sendto_ok ip source_port port seq ack body self mem cmp =
     (case wait_reserve ws 1 (s_tx self) cmp of
        (Inl e, tx, cmp) \<Rightarrow> (e, self\<lparr>s_tx := tx\<rparr>, mem, cmp)
      | (Inr idx, tx, cmp) \<Rightarrow>
          (let desc = ring_index tx idx;
               (start, len) = of_desc (s_umem self) desc;
               data_len = length body;
               dest_sum = ipv4_sum (to_be32 ip);
               tcp_sum = (if checksum_offload self then fold16 (tcp_checksum self + dest_sum)
                          else NOT (fold16 (tcp_checksum self + dest_sum + ucast source_port + ucast port
                                      + drop_bit 16 seq + (seq AND 0xFFFF) + drop_bit 16 ack + (ack AND 0xFFFF)
                                      + 0b00011000 + word_of_nat data_len + sum_body body)))
           in if len < 62 + data_len then (Undefined, self\<lparr>s_tx := tx\<rparr>, mem, cmp)
              else (kick fl sendto_ok,
                    self\<lparr>s_tx := snd (submit (ring_index_mut tx idx (desc\<lparr>d_len := 62 + word_of_nat data_len\<rparr>)) 1)\<rparr>,
                    put_header (write_bytes mem (start + 62) body) start ip ack seq (48 + word_of_nat data_len)
                      port source_port (NOT (fold16 (ipv4_checksum self + dest_sum + word_of_nat data_len)))
                      tcp_sum (Psh OR Ack), cmp)))"


section \<open>Reference packets\<close>

definition ip_header :: "shared_data \<Rightarrow> u16 \<Rightarrow> u16 \<Rightarrow> ipv4 \<Rightarrow> bytes" where
  "ip_header sh len ck dst = [0x45, 0] @ to_be16 len @ [0, 1, 0x40, 0, 0x40, 6] @ to_be16 ck
     @ to_be32 (source_ip sh) @ to_be32 dst"

definition tcp_options :: bytes where "tcp_options = [2, 4, 5, 0x3C, 1, 1, 4, 2]"

definition tcp_header :: "u16 \<Rightarrow> u16 \<Rightarrow> u32 \<Rightarrow> u32 \<Rightarrow> u8 \<Rightarrow> u16 \<Rightarrow> bytes" where
  "tcp_header sport dport seq ack fl ck = to_be16 sport @ to_be16 dport @ to_be32 seq @ to_be32 ack
     @ [0x70, fl] @ [0x80, 0] @ to_be16 ck @ [0, 0] @ tcp_options"

definition eth_header :: "shared_data \<Rightarrow> bytes" where
  "eth_header sh = gateway sh @ interface sh @ [8, 0]"

definition pseudo_header :: "shared_data \<Rightarrow> ipv4 \<Rightarrow> nat \<Rightarrow> bytes" where
  "pseudo_header sh dst len = to_be32 (source_ip sh) @ to_be32 dst @ [0, 6] @ to_be16 (word_of_nat len)"

section \<open>Memory lemmas\<close>

lemma read_write_other:
  "a + n \<le> b \<or> b + length bs \<le> a \<Longrightarrow> read_bytes (write_bytes mem b bs) a n = read_bytes mem a n"
  by (auto simp: read_bytes_def write_bytes_def)

lemma read_write_at: "length bs = n \<Longrightarrow> read_bytes (write_bytes mem a bs) a n = bs"
  using read_write_bytes by blast

lemma read_bytes_add: "read_bytes m a (k + n) = read_bytes m a k @ read_bytes m (a + k) n"
proof -
  have "[0..<k + n] = [0..<k] @ map (\<lambda>i. i + k) [0..<n]"
    using upt_add_eq_append[of 0 k n] by (simp add: map_add_upt add.commute)
  then show ?thesis by (simp add: read_bytes_def add.assoc add.commute[of k])
qed

lemma read_bytes_cong: "(\<And>i. i < n \<Longrightarrow> m' (a + i) = m (a + i)) \<Longrightarrow> read_bytes m' a n = read_bytes m a n"
  by (simp add: read_bytes_def)

lemma read_bytes_frame:
  "read_bytes m a 62 = read_bytes m a 16 @ read_bytes m (a + 16) 2 @ read_bytes m (a + 18) 6 @ read_bytes m (a + 24) 2
     @ read_bytes m (a + 26) 4 @ read_bytes m (a + 30) 4 @ read_bytes m (a + 34) 2 @ read_bytes m (a + 36) 2
     @ read_bytes m (a + 38) 4 @ read_bytes m (a + 42) 4 @ read_bytes m (a + 46) 1 @ read_bytes m (a + 47) 1
     @ read_bytes m (a + 48) 2 @ read_bytes m (a + 50) 2 @ read_bytes m (a + 52) 10"
  using read_bytes_add[of m a 16 46]
    read_bytes_add[of m "a + 16" 2 44]
    read_bytes_add[of m "a + 18" 6 38]
    read_bytes_add[of m "a + 24" 2 36]
    read_bytes_add[of m "a + 26" 4 32]
    read_bytes_add[of m "a + 30" 4 28]
    read_bytes_add[of m "a + 34" 2 26]
    read_bytes_add[of m "a + 36" 2 24]
    read_bytes_add[of m "a + 38" 4 20]
    read_bytes_add[of m "a + 42" 4 16]
    read_bytes_add[of m "a + 46" 1 15]
    read_bytes_add[of m "a + 47" 1 14]
    read_bytes_add[of m "a + 48" 2 12]
    read_bytes_add[of m "a + 50" 2 10]
  by (simp add: add.commute[of a])

text \<open>The bytes of a frame that no send writes.\<close>

definition frame_ready :: "shared_data \<Rightarrow> memory \<Rightarrow> nat \<Rightarrow> bool" where
  "frame_ready sh mem a \<longleftrightarrow>
     read_bytes mem a 16 = eth_header sh @ [0x45, 0]
   \<and> read_bytes mem (a + 18) 6 = [0, 1, 0x40, 0, 0x40, 6]
   \<and> read_bytes mem (a + 26) 4 = to_be32 (source_ip sh)
   \<and> read_bytes mem (a + 46) 1 = [0x70]
   \<and> read_bytes mem (a + 48) 2 = [0x80, 0]
   \<and> read_bytes mem (a + 52) 10 = [0, 0] @ tcp_options"

lemmas header_offsets = off_dest_addr_def off_ack_def off_seq_def off_len_def off_dest_port_def off_source_port_def
  off_ip_checksum_def off_tcp_checksum_def off_flags_def

lemma put_header_packet:
  assumes "frame_ready sh mem a"
  shows "read_bytes (put_header mem a ip ack seq len dport sport ck tck fl) a 62
     = eth_header sh @ ip_header sh len ck ip @ tcp_header sport dport seq ack fl tck"
  using assms unfolding read_bytes_frame
  by (simp add: put_header_def header_offsets read_write_other read_write_at frame_ready_def ip_header_def tcp_header_def)

lemma put_header_ready:
  "frame_ready sh mem a \<Longrightarrow> frame_ready sh (put_header mem a ip ack seq len dport sport ck tck fl) a"
  by (simp add: put_header_def header_offsets read_write_other frame_ready_def)

lemma put_header_other:
  "b + n \<le> a \<or> a + 52 \<le> b \<Longrightarrow> read_bytes (put_header mem a ip ack seq len dport sport ck tck fl) b n = read_bytes mem b n"
  by (auto simp: put_header_def header_offsets read_write_other)

lemma frame_ready_cong:
  "(\<And>i. i < 62 \<Longrightarrow> mem' (a + i) = mem (a + i)) \<Longrightarrow> frame_ready sh mem' a = frame_ready sh mem a"
proof -
  assume *: "\<And>i. i < 62 \<Longrightarrow> mem' (a + i) = mem (a + i)"
  have "read_bytes mem' (a + k) n = read_bytes mem (a + k) n" if "k + n \<le> 62" for k n
    using that *[of "k + i" for i] by (intro read_bytes_cong) (simp add: add.assoc)
  from this[of 0] this show ?thesis by (simp add: frame_ready_def)
qed


section \<open>Checksums\<close>

definition hw :: "u32 \<Rightarrow> nat" where
  "hw v = unat v div 65536 + unat v mod 65536"

lemma hw_bound: "hw v \<le> 131070"
  using unat_bounds(3)[of v] by (simp add: hw_def)

lemma words16_append: "even (length a) \<Longrightarrow> words16 (a @ b) = words16 a @ words16 b"
  by (induction a rule: words16.induct) auto

lemma words16_to_be16: "words16 (to_be16 w) = [unat w]"
  using unat_from_be16[of "ucast (drop_bit 8 w)" "ucast w"] from_to_be16[of w] by (simp add: to_be16_def)

lemma to_be32_halves: "to_be32 v = to_be16 (ucast (drop_bit 16 v)) @ to_be16 (ucast v)"
  by (auto simp: to_be32_def to_be16_def bit_simps intro!: bit_word_eqI)

lemma words16_to_be32: "words16 (to_be32 v) = [unat v div 65536, unat v mod 65536]"
proof -
  have "unat (ucast (drop_bit 16 v) :: u16) = unat v div 65536"
    using unat_bounds(3)[of v] by (simp add: unat_ucast_mod unat_drop16)
  moreover have "unat (ucast v :: u16) = unat v mod 65536" by (simp add: unat_ucast_mod)
  ultimately show ?thesis by (simp add: to_be32_halves words16_append words16_to_be16)
qed

lemma word_of_unat: "unat (w :: u32) = n \<Longrightarrow> w = word_of_nat n"
  by auto

lemma ipv4_sum_hw: "ipv4_sum (to_be32 v) = word_of_nat (hw v)"
proof -
  obtain a b c d where v: "to_be32 v = [a, b, c, d]" by (simp add: to_be32_def)
  then have "unat (ipv4_sum (to_be32 v)) = sum_list (words16 (to_be32 v))" using unat_ipv4_sum by simp
  also have "\<dots> = hw v" by (simp add: words16_to_be32 hw_def)
  finally show ?thesis by (rule word_of_unat)
qed

lemma halves_hw: "drop_bit 16 v + (v AND 0xFFFF) = (word_of_nat (hw v) :: u32)"
proof -
  have "drop_bit 16 v = word_of_nat (unat v div 65536)" "v AND 0xFFFF = word_of_nat (unat v mod 65536)"
    by (rule word_of_unat, rule unat_drop16, rule word_of_unat, rule unat_and_ffff)
  then show ?thesis by (simp add: hw_def)
qed

lemma sum_body_of_nat: "length bs < 65537 \<Longrightarrow> sum_body bs = word_of_nat (sum_list (words16 bs))"
  by (intro word_of_unat unat_sum_body)

lemma words16_sum_bound: "sum_list (words16 bs) \<le> 65535 * ((length bs + 1) div 2)"
proof (induction bs rule: words16.induct)
  case (1 a b rest)
  have "256 * unat a + unat b \<le> 65535" using unat_bounds(1)[of a] unat_bounds(1)[of b] by simp
  then show ?case using 1 by simp
next
  case (2 a)
  then show ?case using unat_bounds(1)[of a] by simp
qed simp

lemma unat_not16: "unat (NOT (x :: u16)) = 65535 - unat x"
proof -
  have "unat (- 1 :: u16) = 65535" by (simp add: unsigned_minus_1_eq_mask mask_eq_exp_minus_1)
  moreover have "NOT x = - 1 - x" by (simp add: not_eq_complement)
  ultimately show ?thesis using unat_bounds(2)[of x] by (simp add: unat_sub_if' word_n1_ge)
qed

text \<open>A field that holds the complement of the folded rest completes the sum.\<close>

lemma checksum_completes:
  assumes "S = (word_of_nat s :: u32)" "0 < s" "s < 2 ^ 32" "sum_list ws = s + unat (NOT (fold16 S))"
    and "\<forall>w \<in> set ws. w \<le> 65535"
  shows "oc_sum ws = 65535"
proof -
  have "unat S = s" using assms(1,3) by (simp add: unat_of_nat)
  then have "sum_list ws = s + (65535 - oc_norm s)" using assms(4) by (simp add: unat_not16 fold16_norm)
  then show ?thesis using oc_sum_norm[OF assms(5)] oc_complement[OF assms(2)] by simp
qed

lemma ip_header_sum:
  "sum_list (words16 (ip_header sh len ck dst))
     = 0x4500 + unat len + 1 + 0x4000 + 0x4006 + unat ck + hw (source_ip sh) + hw dst"
  by (simp add: ip_header_def words16_append words16_to_be16 words16_to_be32 hw_def)

lemma tcp_header_sum:
  "sum_list (words16 (tcp_header sport dport seq ack fl ck @ body))
     = unat sport + unat dport + hw seq + hw ack + (0x7000 + unat fl) + 0x8000 + unat ck
       + (0x0204 + 0x053C + 0x0101 + 0x0402) + sum_list (words16 body)"
  by (simp add: tcp_header_def tcp_options_def words16_append words16_to_be16 words16_to_be32 hw_def)

lemma pseudo_header_sum:
  "len < 65536 \<Longrightarrow> sum_list (words16 (pseudo_header sh dst len)) = hw (source_ip sh) + hw dst + 6 + len"
  by (simp add: pseudo_header_def words16_append words16_to_be16 words16_to_be32 hw_def unat_of_nat)

lemma template_sums:
  "sum_body (take 20 (drop 14 TCP_PACKET)) = word_of_nat (0x4500 + 48 + 1 + 0x4000 + 0x4006)"
  "sum_body (take 28 (drop 34 TCP_PACKET)) = word_of_nat (0x7000 + 0x8000 + (0x0204 + 0x053C + 0x0101 + 0x0402))"
  by (subst sum_body_of_nat; simp add: TCP_PACKET_def)+


section \<open>Valid packets\<close>

definition valid_packet :: "shared_data \<Rightarrow> ipv4 \<Rightarrow> u16 \<Rightarrow> u16 \<Rightarrow> u32 \<Rightarrow> u32 \<Rightarrow> u8 \<Rightarrow> bytes \<Rightarrow> bytes \<Rightarrow> bool" where
  "valid_packet sh dst sport dport seq ack fl body bs \<longleftrightarrow> (\<exists>len ck tck. unat len = 48 + length body
   \<and> bs = eth_header sh @ ip_header sh len ck dst @ tcp_header sport dport seq ack fl tck @ body
   \<and> oc_sum (words16 (ip_header sh len ck dst)) = 65535
   \<and> oc_sum (words16 (pseudo_header sh dst (28 + length body) @ tcp_header sport dport seq ack fl tck @ body)) = 65535)"

definition sender_sums :: "shared_data \<Rightarrow> sender \<Rightarrow> bool" where
  "sender_sums sh s \<longleftrightarrow>
     ipv4_checksum s = word_of_nat (0x4500 + 48 + 1 + 0x4000 + 0x4006 + hw (source_ip sh))
   \<and> tcp_checksum s = (if checksum_offload s then word_of_nat (34 + hw (source_ip sh))
       else word_of_nat (34 + (0x7000 + 0x8000 + (0x0204 + 0x053C + 0x0101 + 0x0402)) + hw (source_ip sh)))"

lemma ip_checksum_valid:
  assumes "sender_sums sh s" "unat len = 48 + n"
  shows "oc_sum (words16 (ip_header sh len
     (NOT (fold16 (ipv4_checksum s + ipv4_sum (to_be32 dst) + word_of_nat n))) dst)) = 65535"
proof -
  let ?s = "0x4500 + 48 + 1 + 0x4000 + 0x4006 + hw (source_ip sh) + hw dst + n"
  have "ipv4_checksum s + ipv4_sum (to_be32 dst) + word_of_nat n = word_of_nat ?s"
    using assms(1) by (simp add: sender_sums_def ipv4_sum_hw)
  moreover have "?s < 2 ^ 32"
    using hw_bound[of "source_ip sh"] hw_bound[of dst] assms(2) unat_bounds(2)[of len] by simp
  ultimately show ?thesis
    using words16_bound assms(2) by (intro checksum_completes[of _ ?s]) (auto simp: ip_header_sum)
qed

lemma tcp_checksum_valid:
  assumes "sender_sums sh s" "\<not> checksum_offload s" "length body \<le> 65487"
  shows "oc_sum (words16 (pseudo_header sh dst (28 + length body) @ tcp_header sport dport seq ack fl
     (NOT (fold16 (tcp_checksum s + ipv4_sum (to_be32 dst) + ucast sport + ucast dport + drop_bit 16 seq + (seq AND 0xFFFF)
        + drop_bit 16 ack + (ack AND 0xFFFF) + ucast fl + word_of_nat (length body) + sum_body body))) @ body)) = 65535"
proof -
  let ?opts = "0x7000 + 0x8000 + (0x0204 + 0x053C + 0x0101 + 0x0402) :: nat"
  let ?s = "34 + ?opts + hw (source_ip sh) + hw dst + unat sport + unat dport + hw seq + hw ack + unat fl
      + length body + sum_list (words16 body)"
  have "tcp_checksum s + ipv4_sum (to_be32 dst) + ucast sport + ucast dport + drop_bit 16 seq + (seq AND 0xFFFF)
        + drop_bit 16 ack + (ack AND 0xFFFF) + ucast fl + word_of_nat (length body) + sum_body body
      = tcp_checksum s + ipv4_sum (to_be32 dst) + word_of_nat (unat sport) + word_of_nat (unat dport)
        + (drop_bit 16 seq + (seq AND 0xFFFF)) + (drop_bit 16 ack + (ack AND 0xFFFF)) + word_of_nat (unat fl)
        + word_of_nat (length body) + sum_body body"
    by (simp add: of_nat_unat add.assoc)
  also have "\<dots> = word_of_nat ?s"
    using assms unfolding halves_hw ipv4_sum_hw sum_body_of_nat[OF le_less_trans[OF assms(3), of 65537, simplified]]
    by (simp only: sender_sums_def if_False of_nat_add)
  finally have S: "tcp_checksum s + ipv4_sum (to_be32 dst) + ucast sport + ucast dport + drop_bit 16 seq + (seq AND 0xFFFF)
        + drop_bit 16 ack + (ack AND 0xFFFF) + ucast fl + word_of_nat (length body) + sum_body body = word_of_nat ?s" .
  have "sum_list (words16 body) \<le> 65535 * 32744"
    using words16_sum_bound[of body] assms(3) order_trans mult_le_mono2[of "(length body + 1) div 2" 32744 65535] by simp
  then have "?s < 2 ^ 32"
    using hw_bound[of "source_ip sh"] hw_bound[of dst] hw_bound[of seq] hw_bound[of ack] assms(3)
      unat_bounds(2)[of sport] unat_bounds(2)[of dport] unat_bounds(1)[of fl] by simp
  moreover have "even (length (pseudo_header sh dst (28 + length body)))" by (simp add: pseudo_header_def)
  ultimately show ?thesis
    using words16_bound assms(3)
    by (intro checksum_completes[OF S]) (auto simp: words16_append pseudo_header_sum tcp_header_sum)
qed


section \<open>The invariant of a sender\<close>

text \<open>
  Slot \<open>k\<close> of the transmit ring describes frame \<open>start + k\<close> behind its metadata, and each frame keeps the bytes of
  the template that no send writes.
\<close>

definition frame_at :: "nat \<Rightarrow> nat \<Rightarrow> nat \<Rightarrow> nat" where
  "frame_at start fs k = (start + k) * fs + TX_METADATA_LEN"

definition sender_inv :: "shared_data \<Rightarrow> nat \<Rightarrow> sender \<Rightarrow> memory \<Rightarrow> bool" where
  "sender_inv sh start s mem \<longleftrightarrow> ring_wf (s_tx s) \<and> sender_sums sh s \<and> 62 \<le> unat (um_frame_size (s_umem s))
   \<and> (\<forall>k < unat (ring_size (s_tx s)).
        unat (d_addr (slots (s_tx s) ! k)) = frame_at start (unat (um_frame_size (s_umem s))) k
      \<and> frame_ready sh mem (frame_at start (unat (um_frame_size (s_umem s))) k))"

lemma frames_apart:
  assumes "j \<noteq> k" "n \<le> fs"
  shows "frame_at start fs j + n \<le> frame_at start fs k \<or> frame_at start fs k + n \<le> frame_at start fs j"
proof -
  have "frame_at start fs a + n \<le> frame_at start fs b" if "a < b" for a b
  proof -
    have "(start + a + 1) * fs \<le> (start + b) * fs" using that by (intro mult_le_mono1) simp
    then show ?thesis using assms(2) by (simp add: frame_at_def algebra_simps)
  qed
  then show ?thesis using assms(1) by (meson nat_neq_iff)
qed

definition put_packet :: "memory \<Rightarrow> nat \<Rightarrow> ipv4 \<Rightarrow> u32 \<Rightarrow> u32 \<Rightarrow> u16 \<Rightarrow> u16 \<Rightarrow> u16 \<Rightarrow> u16 \<Rightarrow> u16 \<Rightarrow> u8 \<Rightarrow> bytes \<Rightarrow> memory" where
  "put_packet mem a ip ack seq len dport sport ck tck fl body =
     put_header (write_bytes mem (a + 62) body) a ip ack seq len dport sport ck tck fl"

lemma put_packet_nil: "put_packet mem a ip ack seq len dport sport ck tck fl []
    = put_header mem a ip ack seq len dport sport ck tck fl"
proof -
  have "write_bytes mem (a + 62) [] = mem" by (rule ext) (auto simp: write_bytes_def)
  then show ?thesis by (simp add: put_packet_def)
qed

lemma put_packet_read:
  assumes "frame_ready sh mem a"
  shows "read_bytes (put_packet mem a ip ack seq len dport sport ck tck fl body) a (62 + length body)
     = eth_header sh @ ip_header sh len ck ip @ tcp_header sport dport seq ack fl tck @ body"
proof -
  have "frame_ready sh (write_bytes mem (a + 62) body) a"
    using assms by (subst frame_ready_cong[of _ _ mem]) (auto simp: write_bytes_def)
  then show ?thesis
    unfolding put_packet_def by (simp add: read_bytes_add put_header_packet put_header_other read_write_at)
qed

lemma put_packet_other:
  assumes "b + n \<le> a \<or> a + (62 + length body) \<le> b"
  shows "read_bytes (put_packet mem a ip ack seq len dport sport ck tck fl body) b n = read_bytes mem b n"
  using assms unfolding put_packet_def by (subst put_header_other) (auto simp: read_write_other)

lemma read_bytes_nth: "i < n \<Longrightarrow> read_bytes m a n ! i = m (a + i)"
  by (simp add: read_bytes_def)

lemma put_packet_frames:
  assumes "\<forall>k < n. frame_ready sh mem (frame_at start fs k)" "k < n" "62 + length body \<le> fs"
  shows "\<forall>j < n. frame_ready sh (put_packet mem (frame_at start fs k) ip ack seq len dport sport ck tck fl body) (frame_at start fs j)"
proof (intro allI impI)
  fix j assume j: "j < n"
  let ?m = "put_packet mem (frame_at start fs k) ip ack seq len dport sport ck tck fl body"
  show "frame_ready sh ?m (frame_at start fs j)"
  proof (cases "j = k")
    case True
    have "frame_ready sh (write_bytes mem (frame_at start fs k + 62) body) (frame_at start fs k)"
      using assms(1,2) by (subst frame_ready_cong[of _ _ mem]) (auto simp: write_bytes_def)
    then show ?thesis using True by (simp add: put_packet_def put_header_ready)
  next
    case False
    have "read_bytes ?m (frame_at start fs j) 62 = read_bytes mem (frame_at start fs j) 62"
      using frames_apart[OF False order.refl, of start fs] assms(3) by (intro put_packet_other) auto
    then have "?m (frame_at start fs j + i) = mem (frame_at start fs j + i)" if "i < 62" for i
      using read_bytes_nth[OF that] by metis
    then show ?thesis using assms(1) j frame_ready_cong[of ?m "frame_at start fs j" mem sh] by simp
  qed
qed

lemma reserve_frame: "reserve r n = (x, r') \<Longrightarrow> slots r' = slots r \<and> ring_size r' = ring_size r"
  by (auto simp: reserve_def free_def Let_def split: if_splits)

lemma wait_reserve_frame:
  assumes "wait_reserve ws n tx cmp = (r, tx', cmp')"
  shows "slots tx' = slots tx \<and> ring_size tx' = ring_size tx"
  using assms
proof (induction ws n tx cmp rule: wait_reserve.induct)
  case (2 w ws n tx cmp)
  define tx1 where "tx1 = tx\<lparr>rflags := wo_flags w, cons_ctr := wo_cons w\<rparr>"
  have tx1: "slots tx1 = slots tx" "ring_size tx1 = ring_size tx" by (simp_all add: tx1_def)
  obtain x tx2 where r: "reserve tx1 n = (x, tx2)" by (cases "reserve tx1 n")
  note rf = reserve_frame[OF r]
  show ?case
  proof (cases "needs_wakeup (rflags tx1) \<and> \<not> wo_sendto w")
    case True
    then show ?thesis using 2(2) tx1 by (auto simp: tx1_def[symmetric])
  next
    case False
    then show ?thesis using 2(2) rf tx1 r 2(1)[OF tx1_def False r[symmetric]]
      by (cases x) (auto simp: tx1_def[symmetric])
  qed
qed simp

lemma send_slot:
  fixes idx :: u32
  assumes inv: "sender_inv sh start s mem" and tx: "slots tx = slots (s_tx s)" "ring_size tx = ring_size (s_tx s)"
    and len: "62 + length body \<le> unat (um_frame_size (s_umem s))"
  defines "k \<equiv> slot_of tx idx"
  defines "a \<equiv> frame_at start (unat (um_frame_size (s_umem s))) k"
  shows "of_desc (s_umem s) (ring_index tx idx) = (a, unat (um_frame_size (s_umem s)))"
    and "frame_ready sh mem a"
    and "unat (d_addr (ring_index tx idx)) = a"
    and "sender_inv sh start (s\<lparr>s_tx := snd (submit (ring_index_mut tx idx ((ring_index tx idx)\<lparr>d_len := l\<rparr>)) m)\<rparr>)
           (put_packet mem a ip ack seq len' dport sport ck tck fl body)"
proof -
  have wf: "ring_wf (s_tx s)" using inv by (simp add: sender_inv_def)
  then have k: "k < unat (ring_size (s_tx s))"
    using tx by (simp add: k_def slot_of_def ring_wf_def unat_mod)
  show d: "unat (d_addr (ring_index tx idx)) = a" "frame_ready sh mem a"
    using inv k tx by (simp_all add: sender_inv_def ring_index_def k_def[symmetric] a_def)
  then show "of_desc (s_umem s) (ring_index tx idx) = (a, unat (um_frame_size (s_umem s)))"
    by (simp add: of_desc_def)
  have "\<forall>j < unat (ring_size (s_tx s)). frame_ready sh (put_packet mem a ip ack seq len' dport sport ck tck fl body)
      (frame_at start (unat (um_frame_size (s_umem s))) j)"
    using put_packet_frames[OF _ k len] inv unfolding sender_inv_def a_def by blast
  then show "sender_inv sh start (s\<lparr>s_tx := snd (submit (ring_index_mut tx idx ((ring_index tx idx)\<lparr>d_len := l\<rparr>)) m)\<rparr>)
           (put_packet mem a ip ack seq len' dport sport ck tck fl body)"
    using inv tx k by (auto simp: sender_inv_def sender_sums_def submit_def ring_index_mut_def ring_wf_def ring_index_def
        k_def[symmetric] nth_list_update)
qed


lemma unat_len16: "n \<le> 65487 \<Longrightarrow> unat (48 + word_of_nat n :: u16) = 48 + n"
proof -
  assume "n \<le> 65487"
  then have "unat (word_of_nat (48 + n) :: u16) = 48 + n" by (subst unat_of_nat) simp
  then show ?thesis by simp
qed

lemma packet_valid:
  assumes "frame_ready sh mem a" "sender_sums sh s" "\<not> checksum_offload s" "length body \<le> 65487"
    and "ck = NOT (fold16 (ipv4_checksum s + ipv4_sum (to_be32 ip) + word_of_nat (length body)))"
    and "tck = NOT (fold16 (tcp_checksum s + ipv4_sum (to_be32 ip) + ucast sport + ucast dport + drop_bit 16 seq
        + (seq AND 0xFFFF) + drop_bit 16 ack + (ack AND 0xFFFF) + ucast fl + word_of_nat (length body) + sum_body body))"
  shows "valid_packet sh ip sport dport seq ack fl body
     (read_bytes (put_packet mem a ip ack seq (48 + word_of_nat (length body)) dport sport ck tck fl body) a (62 + length body))"
  unfolding valid_packet_def put_packet_read[OF assms(1)]
  using unat_len16[OF assms(4)] ip_checksum_valid[OF assms(2) unat_len16[OF assms(4)]]
    tcp_checksum_valid[OF assms(2-4)] assms(5,6) by blast

text \<open>
  C17. Data segments are valid: in software-checksum mode a data send that got a slot leaves in the submitted slot a
  descriptor of the right length whose bytes are the Ethernet, IP and TCP headers with the given fields and the
  body, with IP and TCP checksums that verify, and keeps the frames of all other slots intact.
\<close>
theorem send_with_data_valid:
  assumes inv: "sender_inv sh start s mem" and soft: "\<not> checksum_offload s"
    and w: "wait_reserve ws 1 (s_tx s) cmp = (Inr idx, tx, cmp1)"
    and len: "62 + length body \<le> unat (um_frame_size (s_umem s))" "length body \<le> 65487"
    and e: "send_with_data ws fl sendto_ok ip sport port seq ack body s mem cmp = (r, s', mem', cmp')"
  shows "r = kick fl sendto_ok \<and> sender_inv sh start s' mem'
     \<and> prod_ctr (s_tx s') = prod_ctr tx + 1
     \<and> d_len (ring_index (s_tx s') idx) = 62 + word_of_nat (length body)
     \<and> valid_packet sh ip sport port seq ack (Psh OR Ack) body
         (read_bytes mem' (unat (d_addr (ring_index (s_tx s') idx))) (62 + length body))"
proof -
  note wf = wait_reserve_frame[OF w]
  let ?a = "frame_at start (unat (um_frame_size (s_umem s))) (slot_of tx idx)"
  note sl = send_slot[OF inv _ _ len(1), of tx idx] 
  have sums: "sender_sums sh s" and slot: "slot_of tx idx < length (slots tx)"
    using inv wf by (auto simp: sender_inv_def ring_wf_def slot_of_def unat_mod)
  have flag: "(0b00011000 :: u32) = ucast (Psh OR Ack)" by (simp add: Psh_def Ack_def)
  have r: "r = kick fl sendto_ok"
    and s': "s' = s\<lparr>s_tx := snd (submit (ring_index_mut tx idx ((ring_index tx idx)\<lparr>d_len := 62 + word_of_nat (length body)\<rparr>)) 1)\<rparr>"
    and mem': "\<exists>ck tck. mem' = put_packet mem ?a ip ack seq (48 + word_of_nat (length body)) port sport ck tck (Psh OR Ack) body
      \<and> ck = NOT (fold16 (ipv4_checksum s + ipv4_sum (to_be32 ip) + word_of_nat (length body)))
      \<and> tck = NOT (fold16 (tcp_checksum s + ipv4_sum (to_be32 ip) + ucast sport + ucast port + drop_bit 16 seq
        + (seq AND 0xFFFF) + drop_bit 16 ack + (ack AND 0xFFFF) + ucast (Psh OR Ack) + word_of_nat (length body) + sum_body body))"
    using e w soft sl(1) wf len(1) unfolding send_with_data_def flag
    by (auto simp: Let_def put_packet_def)
  from mem' obtain ck tck where m: "mem' = put_packet mem ?a ip ack seq (48 + word_of_nat (length body)) port sport ck tck (Psh OR Ack) body"
    and c: "ck = NOT (fold16 (ipv4_checksum s + ipv4_sum (to_be32 ip) + word_of_nat (length body)))"
      "tck = NOT (fold16 (tcp_checksum s + ipv4_sum (to_be32 ip) + ucast sport + ucast port + drop_bit 16 seq
        + (seq AND 0xFFFF) + drop_bit 16 ack + (ack AND 0xFFFF) + ucast (Psh OR Ack) + word_of_nat (length body) + sum_body body))"
    by blast
  have "ring_index (s_tx s') idx = (ring_index tx idx)\<lparr>d_len := 62 + word_of_nat (length body)\<rparr>"
    using slot by (simp add: s' submit_def ring_index_mut_def ring_index_def slot_of_def)
  then show ?thesis
    using r sl(3,4) wf m packet_valid[OF sl(2) sums soft len(2) c]
    by (simp add: s' submit_def ring_index_mut_def)
qed


text \<open>
  Control segments are valid: the same for sends without data, with any flags.
\<close>
theorem send_valid:
  assumes inv: "sender_inv sh start s mem" and soft: "\<not> checksum_offload s"
    and w: "wait_reserve ws 1 (s_tx s) cmp = (Inr idx, tx, cmp1)"
    and e: "send FLAGS ws fl sendto_ok ip sport port seq ack s mem cmp = (r, s', mem', cmp')"
  shows "r = kick fl sendto_ok \<and> sender_inv sh start s' mem'
     \<and> prod_ctr (s_tx s') = prod_ctr tx + 1
     \<and> d_len (ring_index (s_tx s') idx) = 62
     \<and> valid_packet sh ip sport port seq ack FLAGS [] (read_bytes mem' (unat (d_addr (ring_index (s_tx s') idx))) 62)"
proof -
  note wf = wait_reserve_frame[OF w]
  let ?a = "frame_at start (unat (um_frame_size (s_umem s))) (slot_of tx idx)"
  have fs: "62 + length ([] :: bytes) \<le> unat (um_frame_size (s_umem s))" using inv by (simp add: sender_inv_def)
  note sl = send_slot[OF inv _ _ fs, of tx idx]
  have sums: "sender_sums sh s" and slot: "slot_of tx idx < length (slots tx)"
    using inv wf by (auto simp: sender_inv_def ring_wf_def slot_of_def unat_mod)
  define ck where "ck = NOT (fold16 (ipv4_checksum s + ipv4_sum (to_be32 ip) + word_of_nat (length ([] :: bytes))))"
  define tck where "tck = NOT (fold16 (tcp_checksum s + ipv4_sum (to_be32 ip) + ucast sport + ucast port + drop_bit 16 seq
        + (seq AND 0xFFFF) + drop_bit 16 ack + (ack AND 0xFFFF) + ucast FLAGS + word_of_nat (length ([] :: bytes)) + sum_body []))"
  have r: "r = kick fl sendto_ok"
    and s': "s' = s\<lparr>s_tx := snd (submit (ring_index_mut tx idx ((ring_index tx idx)\<lparr>d_len := 62\<rparr>)) 1)\<rparr>"
    and m: "mem' = put_packet mem ?a ip ack seq 48 port sport ck tck FLAGS []"
    using e w soft sl(1) wf fs unfolding send_def
    by (auto simp: Let_def put_packet_nil ck_def tck_def sum_body_def eth_tcp_ip_hdr_size_def)
  have "ring_index (s_tx s') idx = (ring_index tx idx)\<lparr>d_len := 62\<rparr>"
    using slot by (simp add: s' submit_def ring_index_mut_def ring_index_def slot_of_def)
  then show ?thesis
    using r sl(3,4) wf m packet_valid[OF sl(2) sums soft _ ck_def tck_def]
    by (simp add: s' submit_def ring_index_mut_def)
qed

section \<open>Batches of SYN segments\<close>

definition valid_syn :: "shared_data \<Rightarrow> u64 \<Rightarrow> packet_template \<Rightarrow> bytes \<Rightarrow> bool" where
  "valid_syn sh seed packet bs \<longleftrightarrow> valid_packet sh (pt_ip packet) (pt_source_port packet) (pt_destination_port packet)
     (cookie (pt_ip packet) (pt_destination_port packet) seed) 0 Syn [] bs"

lemma write_syn_spec:
  fixes idx :: u32
  assumes inv: "sender_inv sh start s mem"
  defines "k \<equiv> slot_of (s_tx s) idx" and "fa \<equiv> frame_at start (unat (um_frame_size (s_umem s)))"
  shows "\<exists>mem'. write_syn seed idx packet (s, mem) =
       Some (s\<lparr>s_tx := (s_tx s)\<lparr>slots := (slots (s_tx s))[k := (slots (s_tx s) ! k)\<lparr>d_len := 62\<rparr>]\<rparr>\<rparr>, mem')
     \<and> sender_inv sh start (s\<lparr>s_tx := (s_tx s)\<lparr>slots := (slots (s_tx s))[k := (slots (s_tx s) ! k)\<lparr>d_len := 62\<rparr>]\<rparr>\<rparr>) mem'
     \<and> (\<not> checksum_offload s \<longrightarrow> valid_syn sh seed packet (read_bytes mem' (fa k) 62))
     \<and> (\<forall>j. j \<noteq> k \<longrightarrow> read_bytes mem' (fa j) 62 = read_bytes mem (fa j) 62)"
proof -
  let ?ip = "pt_ip packet" and ?seq = "cookie (pt_ip packet) (pt_destination_port packet) seed"
  have fs: "62 + length ([] :: bytes) \<le> unat (um_frame_size (s_umem s))" using inv by (simp add: sender_inv_def)
  note sl = send_slot[OF inv refl refl fs, of idx, folded k_def fa_def]
  have sums: "sender_sums sh s" using inv by (simp add: sender_inv_def)
  define ck where "ck = NOT (fold16 (ipv4_checksum s + ipv4_sum (to_be32 ?ip) + word_of_nat (length ([] :: bytes))))"
  define tck where "tck = syn_checksum s packet ?seq"
  define mem' where "mem' = put_packet mem (fa k) ?ip 0 ?seq 48 (pt_destination_port packet) (pt_source_port packet) ck tck Syn []"
  have t: "tck = NOT (fold16 (tcp_checksum s + ipv4_sum (to_be32 ?ip) + ucast (pt_source_port packet)
        + ucast (pt_destination_port packet) + drop_bit 16 ?seq + (?seq AND 0xFFFF) + drop_bit 16 0 + (0 AND 0xFFFF)
        + ucast Syn + word_of_nat (length ([] :: bytes)) + sum_body []))" if "\<not> checksum_offload s"
    using that by (simp add: tck_def syn_checksum_def sum_body_def Syn_def)
  have "valid_syn sh seed packet (read_bytes mem' (fa k) 62)" if soft: "\<not> checksum_offload s"
    using packet_valid[OF sl(2) sums soft _ ck_def t[OF soft]] by (simp add: valid_syn_def mem'_def)
  moreover have "write_syn seed idx packet (s, mem) =
     Some (s\<lparr>s_tx := (s_tx s)\<lparr>slots := (slots (s_tx s))[k := (slots (s_tx s) ! k)\<lparr>d_len := 62\<rparr>]\<rparr>\<rparr>, mem')"
    using fs sl(1) by (simp add: write_syn_def Let_def put_packet_nil ck_def tck_def eth_tcp_ip_hdr_size_def
        ring_index_mut_def ring_index_def k_def mem'_def)
  moreover have "read_bytes mem' (fa j) 62 = read_bytes mem (fa j) 62" if "j \<noteq> k" for j
    unfolding mem'_def fa_def using frames_apart[OF that, of 62] fs by (intro put_packet_other) auto
  moreover have "sender_inv sh start (s\<lparr>s_tx := (s_tx s)\<lparr>slots := (slots (s_tx s))[k := (slots (s_tx s) ! k)\<lparr>d_len := 62\<rparr>]\<rparr>\<rparr>) mem'"
    using sl(4)[of 62 0 ?ip 0 ?seq 48 "pt_destination_port packet" "pt_source_port packet" ck tck Syn]
    by (simp add: mem'_def submit_def ring_index_mut_def ring_index_def k_def)
  ultimately show ?thesis by blast
qed

text \<open>The slots a batch of \<open>n\<close> packets takes from index \<open>idx\<close> on.\<close>

definition batch_slots :: "descriptor ring \<Rightarrow> u32 \<Rightarrow> nat \<Rightarrow> nat set" where
  "batch_slots tx idx n = (\<lambda>j. slot_of tx (idx + word_of_nat j)) ` {..<n}"

lemma slot_of_cong: "ring_size tx = ring_size tx' \<Longrightarrow> slot_of tx i = slot_of tx' i"
  by (simp add: slot_of_def)

lemma batch_slots_Suc: "batch_slots tx idx (Suc n) = insert (slot_of tx idx) (batch_slots tx (idx + 1) n)"
proof -
  have "{..<Suc n} = insert 0 (Suc ` {..<n})" by (auto simp: less_Suc_eq_0_disj)
  then show ?thesis by (simp add: batch_slots_def image_image add.assoc)
qed

lemma head_slot_free:
  assumes "ring_wf tx" "n < unat (ring_size tx)"
  shows "slot_of tx idx \<notin> batch_slots tx (idx + 1) n"
proof -
  have s: "slot_of tx (word_of_nat i) = i mod unat (ring_size tx)" for i using slot_of_nat[OF assms(1)] .
  have i0: "slot_of tx idx = unat idx mod unat (ring_size tx)" using s[of "unat idx"] by simp
  have i: "idx + 1 + word_of_nat j = word_of_nat (unat idx + 1 + j)" for j by simp
  have "slot_of tx (idx + 1 + word_of_nat j) \<noteq> slot_of tx idx" if "j < n" for j
    using i0 that assms(2) mod_neq_window[of "unat idx" "unat idx + 1 + j" "unat (ring_size tx)"]
    unfolding i s by simp
  then show ?thesis unfolding batch_slots_def by (metis (no_types, lifting) imageE lessThan_iff)
qed

lemma write_syns_spec:
  assumes "sender_inv sh start s mem" "length packets \<le> unat (ring_size (s_tx s))"
  shows "\<exists>s' mem'. write_syns seed idx packets (s, mem) = Some (s', mem')
     \<and> sender_inv sh start s' mem' \<and> s_umem s' = s_umem s \<and> checksum_offload s' = checksum_offload s
     \<and> (\<exists>sl. s_tx s' = (s_tx s)\<lparr>slots := sl\<rparr>)
     \<and> (\<forall>j. j \<notin> batch_slots (s_tx s) idx (length packets) \<longrightarrow> slots (s_tx s') ! j = slots (s_tx s) ! j
          \<and> read_bytes mem' (frame_at start (unat (um_frame_size (s_umem s))) j) 62
            = read_bytes mem (frame_at start (unat (um_frame_size (s_umem s))) j) 62)
     \<and> (\<not> checksum_offload s \<longrightarrow> (\<forall>j < length packets. d_len (ring_index (s_tx s') (idx + word_of_nat j)) = 62
          \<and> valid_syn sh seed (packets ! j)
              (read_bytes mem' (unat (d_addr (ring_index (s_tx s') (idx + word_of_nat j)))) 62)))"
  using assms
proof (induction packets arbitrary: idx s mem)
  case Nil
  then show ?case by (auto intro: exI[of _ "slots (s_tx s)"])
next
  case (Cons packet packets)
  let ?k = "slot_of (s_tx s) idx" and ?fa = "frame_at start (unat (um_frame_size (s_umem s)))"
  define s1 where "s1 = s\<lparr>s_tx := (s_tx s)\<lparr>slots := (slots (s_tx s))[?k := (slots (s_tx s) ! ?k)\<lparr>d_len := 62\<rparr>]\<rparr>\<rparr>"
  obtain mem1 where w: "write_syn seed idx packet (s, mem) = Some (s1, mem1)" and inv1: "sender_inv sh start s1 mem1"
    and v: "\<not> checksum_offload s \<longrightarrow> valid_syn sh seed packet (read_bytes mem1 (?fa ?k) 62)"
    and o: "\<forall>j. j \<noteq> ?k \<longrightarrow> read_bytes mem1 (?fa j) 62 = read_bytes mem (?fa j) 62"
    using write_syn_spec[OF Cons(2), of seed idx packet] unfolding s1_def by blast
  have f: "s_umem s1 = s_umem s" "checksum_offload s1 = checksum_offload s" "ring_size (s_tx s1) = ring_size (s_tx s)"
    "slots (s_tx s1) = (slots (s_tx s))[?k := (slots (s_tx s) ! ?k)\<lparr>d_len := 62\<rparr>]"
    by (simp_all add: s1_def)
  have wf: "ring_wf (s_tx s)" and addr: "unat (d_addr (slots (s_tx s) ! ?k)) = ?fa ?k" "?k < length (slots (s_tx s))"
    using Cons(2) by (auto simp: sender_inv_def slot_of_def ring_wf_def unat_mod)
  have len: "length packets \<le> unat (ring_size (s_tx s1))" "length packets < unat (ring_size (s_tx s))"
    using Cons(3) f(3) by auto
  have bs: "batch_slots (s_tx s1) = batch_slots (s_tx s)" by (intro ext) (simp add: batch_slots_def slot_of_cong[OF f(3)])
  obtain s' mem' sl where r: "write_syns seed (idx + 1) packets (s1, mem1) = Some (s', mem')"
    and inv': "sender_inv sh start s' mem'" and f': "s_umem s' = s_umem s" "checksum_offload s' = checksum_offload s"
      "s_tx s' = (s_tx s1)\<lparr>slots := sl\<rparr>"
    and o': "\<And>j. j \<notin> batch_slots (s_tx s) (idx + 1) (length packets) \<Longrightarrow> slots (s_tx s') ! j = slots (s_tx s1) ! j
          \<and> read_bytes mem' (?fa j) 62 = read_bytes mem1 (?fa j) 62"
    and v': "\<And>j. \<not> checksum_offload s \<Longrightarrow> j < length packets \<Longrightarrow> d_len (ring_index (s_tx s') (idx + 1 + word_of_nat j)) = 62
          \<and> valid_syn sh seed (packets ! j) (read_bytes mem' (unat (d_addr (ring_index (s_tx s') (idx + 1 + word_of_nat j)))) 62)"
    using Cons(1)[OF inv1 len(1), of "idx + 1"] unfolding f(1,2) bs by blast
  note hd = o'[OF head_slot_free[OF wf len(2)]]
  have ki: "ring_index (s_tx s') idx = (slots (s_tx s) ! ?k)\<lparr>d_len := 62\<rparr>"
    using hd f(3,4) f'(3) addr(2) slot_of_cong[of "s_tx s'" "s_tx s" idx] by (simp add: ring_index_def)
  have "d_len (ring_index (s_tx s') (idx + word_of_nat j)) = 62
      \<and> valid_syn sh seed ((packet # packets) ! j) (read_bytes mem' (unat (d_addr (ring_index (s_tx s') (idx + word_of_nat j)))) 62)"
    if "\<not> checksum_offload s" "j < Suc (length packets)" for j
    using that v v'[of "j - 1"] ki hd addr(1) by (cases j) (auto simp: add.assoc)
  moreover have "slots (s_tx s') ! j = slots (s_tx s) ! j \<and> read_bytes mem' (?fa j) 62 = read_bytes mem (?fa j) 62"
    if "j \<notin> batch_slots (s_tx s) idx (length (packet # packets))" for j
    using that o' o f(4) by (auto simp: batch_slots_Suc)
  moreover have "s_tx s' = (s_tx s)\<lparr>slots := sl\<rparr>" using f'(3) by (simp add: s1_def)
  ultimately show ?case using w r inv' f'(1,2) by auto
qed


text \<open>
  A batch of probes is valid: in software-checksum mode a batch that got its slots leaves, in the slots from the
  reserved index on, one SYN segment per target in order, each with the cookie of its target as sequence number
  and with IP and TCP checksums that verify; the batch is submitted as a whole and the list of targets drained.
\<close>
lemma send_syn_batch_valid:
  assumes inv: "sender_inv sh start s mem" and soft: "\<not> checksum_offload s"
    and fits: "length packets \<le> unat (ring_size (s_tx s))"
    and w: "wait_reserve ws (word_of_nat (length packets)) (s_tx s) cmp = (Inr idx, tx, cmp1)"
    and e: "send_syn_batch ws fl sendto_ok seed packets s mem cmp = (r, rest, s', mem', cmp')"
  shows "r = kick fl sendto_ok \<and> rest = [] \<and> sender_inv sh start s' mem'
     \<and> prod_ctr (s_tx s') = prod_ctr tx + word_of_nat (length packets)
     \<and> (\<forall>j < length packets. d_len (ring_index (s_tx s') (idx + word_of_nat j)) = 62
          \<and> valid_syn sh seed (packets ! j)
              (read_bytes mem' (unat (d_addr (ring_index (s_tx s') (idx + word_of_nat j)))) 62))"
proof -
  let ?s = "s\<lparr>s_tx := tx\<rparr>"
  note wf = wait_reserve_frame[OF w]
  have inv1: "sender_inv sh start ?s mem" using inv wf by (simp add: sender_inv_def sender_sums_def ring_wf_def)
  have fits1: "length packets \<le> unat (ring_size (s_tx ?s))" using fits wf by simp
  obtain s1 m1 sl where ws: "write_syns seed idx packets (?s, mem) = Some (s1, m1)" and i1: "sender_inv sh start s1 m1"
    and t: "s_tx s1 = tx\<lparr>slots := sl\<rparr>"
    and v: "\<forall>j < length packets. d_len (ring_index (s_tx s1) (idx + word_of_nat j)) = 62
          \<and> valid_syn sh seed (packets ! j) (read_bytes m1 (unat (d_addr (ring_index (s_tx s1) (idx + word_of_nat j)))) 62)"
    using write_syns_spec[OF inv1 fits1, of seed idx] soft by auto
  have s': "r = kick fl sendto_ok" "rest = []" "mem' = m1"
      "s' = s1\<lparr>s_tx := snd (submit (s_tx s1) (word_of_nat (length packets)))\<rparr>"
    using e w ws by (auto simp: send_syn_batch_def Let_def)
  have "ring_index (s_tx s') i = ring_index (s_tx s1) i" for i
    by (simp add: s' submit_def ring_index_def slot_of_def)
  moreover have "sender_inv sh start s' mem'"
    using i1 by (simp add: s' sender_inv_def sender_sums_def submit_def ring_wf_def)
  ultimately show ?thesis using v by (simp add: s'(1-3)) (simp add: s' t submit_def)
qed


section \<open>Sends never fault\<close>

lemma wait_reserve_errors:
  "wait_reserve ws n tx cmp = (Inl e, tx', cmp') \<Longrightarrow> e = Blocked \<or> e = Wakeup_failed"
  by (induction ws n tx cmp rule: wait_reserve.induct) (auto simp: Let_def split: if_splits prod.splits option.splits)

lemma sender_inv_tx:
  assumes "sender_inv sh start s mem" "slots tx = slots (s_tx s)" "ring_size tx = ring_size (s_tx s)"
  shows "sender_inv sh start (s\<lparr>s_tx := tx\<rparr>) mem"
  using assms by (simp add: sender_inv_def sender_sums_def ring_wf_def)

definition send_ok :: "send_result \<Rightarrow> bool" where
  "send_ok r \<longleftrightarrow> r = Sent \<or> r = Wakeup_failed \<or> r = Blocked"

lemma kick_ok [simp]: "send_ok (kick fl b)"
  by (simp add: send_ok_def kick_def)

text \<open>A send keeps the invariant, faults never, and writes only into the frames of the sender.\<close>

definition sends_within :: "shared_data \<Rightarrow> nat \<Rightarrow> sender \<Rightarrow> memory \<Rightarrow> send_result \<Rightarrow> sender \<Rightarrow> memory \<Rightarrow> bool" where
  "sends_within sh start s mem r s' mem' \<longleftrightarrow> send_ok r \<and> sender_inv sh start s' mem' \<and> s_umem s' = s_umem s
     \<and> checksum_offload s' = checksum_offload s \<and> ring_size (s_tx s') = ring_size (s_tx s)
     \<and> (\<forall>b n. (\<forall>k < unat (ring_size (s_tx s)). b + n \<le> frame_at start (unat (um_frame_size (s_umem s))) k
          \<or> frame_at start (unat (um_frame_size (s_umem s))) k + unat (um_frame_size (s_umem s)) \<le> b)
          \<longrightarrow> read_bytes mem' b n = read_bytes mem b n)"

lemma sends_within_wait:
  assumes "sender_inv sh start s mem" "wait_reserve ws n (s_tx s) cmp = (Inl e, tx, cmp')"
  shows "sends_within sh start s mem e (s\<lparr>s_tx := tx\<rparr>) mem"
  using wait_reserve_errors[OF assms(2)] wait_reserve_frame[OF assms(2)] sender_inv_tx[OF assms(1), of tx]
  by (auto simp: sends_within_def send_ok_def)

lemma sends_within_packet:
  fixes idx :: u32
  assumes inv: "sender_inv sh start s mem" and tx: "slots tx = slots (s_tx s)" "ring_size tx = ring_size (s_tx s)"
    and len: "62 + length body \<le> unat (um_frame_size (s_umem s))" and r: "send_ok r"
  shows "sends_within sh start s mem r (s\<lparr>s_tx := snd (submit (ring_index_mut tx idx ((ring_index tx idx)\<lparr>d_len := l\<rparr>)) m)\<rparr>)
     (put_packet mem (frame_at start (unat (um_frame_size (s_umem s))) (slot_of tx idx)) ip ack seq len' dport sport ck tck fl body)"
proof -
  have "slot_of tx idx < unat (ring_size (s_tx s))"
    using inv tx by (simp add: sender_inv_def ring_wf_def slot_of_def unat_mod)
  then show ?thesis
    using send_slot(4)[OF inv tx len] r tx len put_packet_other
    unfolding sends_within_def by (fastforce simp: submit_def ring_index_mut_def)
qed

lemma send_within:
  assumes inv: "sender_inv sh start s mem"
    and e: "send FLAGS ws fl ok ip sport port seq ack s mem cmp = (r, s', mem', cmp')"
  shows "sends_within sh start s mem r s' mem'"
proof (cases "wait_reserve ws 1 (s_tx s) cmp")
  case (fields w tx cmp1)
  have fs: "62 + length ([] :: bytes) \<le> unat (um_frame_size (s_umem s))" using inv by (simp add: sender_inv_def)
  show ?thesis
  proof (cases w)
    case (Inl x)
    then show ?thesis using e fields sends_within_wait[OF inv] by (auto simp: send_def)
  next
    case (Inr idx)
    note wf = wait_reserve_frame[OF fields[unfolded Inr]]
    have "of_desc (s_umem s) (ring_index tx idx) = (frame_at start (unat (um_frame_size (s_umem s))) (slot_of tx idx), unat (um_frame_size (s_umem s)))"
      using send_slot(1)[OF inv _ _ fs] wf by simp
    then show ?thesis
      using e fields Inr fs sends_within_packet[where tx = tx and idx = idx, OF inv _ _ fs kick_ok] wf
      by (auto simp: send_def Let_def eth_tcp_ip_hdr_size_def put_packet_nil)
  qed
qed

lemma send_with_data_within:
  assumes inv: "sender_inv sh start s mem" and len: "62 + length body \<le> unat (um_frame_size (s_umem s))"
    and e: "send_with_data ws fl ok ip sport port seq ack body s mem cmp = (r, s', mem', cmp')"
  shows "sends_within sh start s mem r s' mem'"
proof (cases "wait_reserve ws 1 (s_tx s) cmp")
  case (fields w tx cmp1)
  show ?thesis
  proof (cases w)
    case (Inl x)
    then show ?thesis using e fields sends_within_wait[OF inv] by (auto simp: send_with_data_def)
  next
    case (Inr idx)
    note wf = wait_reserve_frame[OF fields[unfolded Inr]]
    have "of_desc (s_umem s) (ring_index tx idx) = (frame_at start (unat (um_frame_size (s_umem s))) (slot_of tx idx), unat (um_frame_size (s_umem s)))"
      using send_slot(1)[OF inv _ _ len] wf by simp
    then show ?thesis
      using e fields Inr len sends_within_packet[where tx = tx and idx = idx, OF inv _ _ len kick_ok] wf
      by (auto simp: send_with_data_def Let_def put_packet_def)
  qed
qed

lemma send_syn_within:
  assumes inv: "sender_inv sh start s mem"
    and e: "send_syn ws fl ok seed packet s mem cmp = (r, s', mem', cmp')"
  shows "sends_within sh start s mem r s' mem'"
proof (cases "wait_reserve ws 1 (s_tx s) cmp")
  case (fields w tx cmp1)
  have fs: "62 + length ([] :: bytes) \<le> unat (um_frame_size (s_umem s))" using inv by (simp add: sender_inv_def)
  show ?thesis
  proof (cases w)
    case (Inl x)
    then show ?thesis using e fields sends_within_wait[OF inv] by (auto simp: send_syn_def)
  next
    case (Inr idx)
    note wf = wait_reserve_frame[OF fields[unfolded Inr]]
    have "of_desc (s_umem s) (ring_index tx idx) = (frame_at start (unat (um_frame_size (s_umem s))) (slot_of tx idx), unat (um_frame_size (s_umem s)))"
      using send_slot(1)[OF inv _ _ fs] wf by simp
    then show ?thesis
      using e fields Inr fs sends_within_packet[where tx = tx and idx = idx, OF inv _ _ fs kick_ok] wf
      by (auto simp: send_syn_def write_syn_def Let_def eth_tcp_ip_hdr_size_def put_packet_nil)
  qed
qed

section \<open>A new sender\<close>

lemma read_write_sub:
  assumes "a \<le> b" "b + n \<le> a + length bs"
  shows "read_bytes (write_bytes mem a bs) b n = take n (drop (b - a) bs)"
  using assms by (intro nth_equalityI) (auto simp: read_bytes_def write_bytes_def)

lemma write_tx_metadata_other:
  "b + n \<le> a \<or> a + 24 \<le> b \<Longrightarrow> read_bytes (write_tx_metadata mem a md) b n = read_bytes mem b n"
  by (auto simp: write_tx_metadata_def Let_def read_write_other to_le64_def to_le16_def)

definition macs_ok :: "shared_data \<Rightarrow> bool" where
  "macs_ok sh \<longleftrightarrow> length (gateway sh) = 6 \<and> length (interface sh) = 6"

definition init_mem :: "shared_data \<Rightarrow> nat \<Rightarrow> memory \<Rightarrow> memory" where
  "init_mem sh meta mem =
     (let addr = meta + TX_METADATA_LEN;
          mem = (if xdp_checksum_offload sh
                 then write_tx_metadata mem meta (tx_metadata_req XDP_TXMD_FLAGS_CHECKSUM 34 16 0) else mem);
          mem = write_bytes mem addr TCP_PACKET;
          mem = write_bytes mem addr (gateway sh);
          mem = write_bytes mem (addr + 6) (interface sh)
      in write_bytes mem (addr + 26) (to_be32 (source_ip sh)))"

lemma init_frame_eq:
  "\<exists>opts. init_frame sh um idx (tx, mem) =
     (ring_index_mut tx idx ((ring_index tx idx)\<lparr>d_addr := word_of_nat (unat idx * unat (um_frame_size um) + TX_METADATA_LEN),
        d_options := opts\<rparr>), init_mem sh (unat idx * unat (um_frame_size um)) mem)"
proof (cases "xdp_checksum_offload sh")
  case True
  then show ?thesis
    by (intro exI[of _ XDP_TX_METADATA]) (simp add: init_frame_def init_mem_def Let_def)
next
  case False
  then show ?thesis
    by (intro exI[of _ "d_options (ring_index tx idx)"]) (simp add: init_frame_def init_mem_def Let_def)
qed

lemma init_mem_ready:
  assumes "macs_ok sh"
  shows "frame_ready sh (init_mem sh meta mem) (meta + TX_METADATA_LEN)"
proof -
  have "read_bytes m a 16 = read_bytes m a 6 @ read_bytes m (a + 6) 6 @ read_bytes m (a + 12) 4" for m :: memory and a
    using read_bytes_add[of m a 6 10] read_bytes_add[of m "a + 6" 6 4] by (simp add: add.commute[of a])
  then show ?thesis
    using assms by (simp add: frame_ready_def init_mem_def Let_def macs_ok_def read_write_other read_write_at read_write_sub
        TCP_PACKET_def eth_header_def tcp_options_def)
qed

lemma init_mem_other:
  assumes "macs_ok sh" "b + n \<le> meta \<or> meta + 86 \<le> b"
  shows "read_bytes (init_mem sh meta mem) b n = read_bytes mem b n"
  using assms by (auto simp: init_mem_def Let_def macs_ok_def read_write_other write_tx_metadata_other TX_METADATA_LEN_def
      TCP_PACKET_def)

lemma frame_ready_read:
  assumes "read_bytes mem' a 62 = read_bytes mem a 62"
  shows "frame_ready sh mem' a = frame_ready sh mem a"
  using read_bytes_nth[of _ 62] assms by (intro frame_ready_cong) metis


definition frames_ready :: "shared_data \<Rightarrow> nat \<Rightarrow> nat \<Rightarrow> nat \<Rightarrow> descriptor ring \<Rightarrow> memory \<Rightarrow> bool" where
  "frames_ready sh start fs n tx mem \<longleftrightarrow>
     (\<forall>k < n. unat (d_addr (slots tx ! k)) = frame_at start fs k \<and> frame_ready sh mem (frame_at start fs k))"

lemma frame_addr_fits:
  assumes "i < 2 ^ 32" "fs < 2 ^ 32"
  shows "unat (word_of_nat (i * fs + TX_METADATA_LEN) :: u64) = i * fs + TX_METADATA_LEN"
proof -
  have "i * fs \<le> (2 ^ 32 - 1) * (2 ^ 32 - 1)" using assms by (intro mult_le_mono) auto
  then show ?thesis by (subst unat_of_nat) (simp add: TX_METADATA_LEN_def)
qed

lemma init_frame_step:
  fixes idx :: u32
  assumes ready: "frames_ready sh start fs n tx mem" and wf: "ring_wf tx" and n: "n < unat (ring_size tx)"
    and sh: "macs_ok sh" and um: "fs = unat (um_frame_size um)" "86 \<le> fs"
    and idx: "unat idx = start + n" and dv: "unat (ring_size tx) dvd start"
    and step: "init_frame sh um idx (tx, mem) = (tx', mem')"
  shows "frames_ready sh start fs (Suc n) tx' mem' \<and> ring_wf tx' \<and> ring_size tx' = ring_size tx"
proof -
  let ?meta = "unat idx * fs"
  obtain opts where e: "tx' = ring_index_mut tx idx ((ring_index tx idx)\<lparr>d_addr := word_of_nat (?meta + TX_METADATA_LEN),
        d_options := opts\<rparr>)" and m: "mem' = init_mem sh ?meta mem"
    using init_frame_eq[of sh um idx tx mem] step um(1) by auto
  have slot: "slot_of tx idx = n"
    using slot_of_nat[OF wf, of "start + n"] idx dv n by (metis dvd_imp_mod_0 mod_add_left_eq mod_less plus_nat.add_0 word_of_unat)
  have sl: "slots tx' ! k = (if k = n then (slots tx ! n)\<lparr>d_addr := word_of_nat (?meta + TX_METADATA_LEN), d_options := opts\<rparr>
      else slots tx ! k)" if "k \<le> n" for k
    using that n wf by (simp add: e ring_index_mut_def ring_index_def slot ring_wf_def)
  have "frame_ready sh mem' (frame_at start fs k)" if "k < n" for k
  proof -
    have "(start + k + 1) * fs \<le> (start + n) * fs" using that by (intro mult_le_mono1) simp
    then have "frame_at start fs k + 62 \<le> ?meta"
      using um(2) by (simp add: frame_at_def idx algebra_simps TX_METADATA_LEN_def)
    then have "read_bytes mem' (frame_at start fs k) 62 = read_bytes mem (frame_at start fs k) 62"
      unfolding m using sh by (intro init_mem_other) auto
    then have "frame_ready sh mem' (frame_at start fs k) = frame_ready sh mem (frame_at start fs k)" by (rule frame_ready_read)
    then show ?thesis using ready that by (simp add: frames_ready_def)
  qed
  moreover have "frame_ready sh mem' (frame_at start fs n)"
    using init_mem_ready[OF sh, of ?meta mem] by (simp add: m frame_at_def idx)
  moreover have "unat (word_of_nat (?meta + TX_METADATA_LEN) :: u64) = frame_at start fs n"
    using frame_addr_fits[of "unat idx" fs] unat_bounds(3)[of idx] unat_bounds(3)[of "um_frame_size um"] um(1)
    by (simp add: frame_at_def idx)
  ultimately show ?thesis
    using ready sl wf by (auto simp: frames_ready_def less_Suc_eq e ring_index_mut_def ring_wf_def)
qed

lemma init_frames:
  assumes wf: "ring_wf tx" and n: "n \<le> unat (ring_size tx)" and sh: "macs_ok sh" and fs: "86 \<le> unat (um_frame_size um)"
    and dv: "unat (ring_size tx) dvd unat start" and fit: "unat start + unat (ring_size tx) < 2 ^ 32"
    and r: "fold (init_frame sh um) (map (\<lambda>i. start + word_of_nat i) [0..<n]) (tx, mem) = (tx', mem')"
  shows "frames_ready sh (unat start) (unat (um_frame_size um)) n tx' mem' \<and> ring_wf tx' \<and> ring_size tx' = ring_size tx"
  using n r
proof (induction n arbitrary: tx' mem')
  case 0
  then show ?case using wf by (simp add: frames_ready_def)
next
  case (Suc n)
  obtain tx1 mem1 where f: "fold (init_frame sh um) (map (\<lambda>i. start + word_of_nat i) [0..<n]) (tx, mem) = (tx1, mem1)"
    by fastforce
  have "unat (word_of_nat n :: u32) = n" using Suc(2) fit by (subst unat_of_nat) simp
  then have i: "unat (start + word_of_nat n) = unat start + n"
    using Suc(2) fit by (simp only: unat_word_ariths(1)) simp
  have IH: "frames_ready sh (unat start) (unat (um_frame_size um)) n tx1 mem1" "ring_wf tx1" "ring_size tx1 = ring_size tx"
    using Suc(1)[OF _ f] Suc(2) by auto
  have "init_frame sh um (start + word_of_nat n) (tx1, mem1) = (tx', mem')"
    using Suc(3) by (simp only: upt_Suc_append[OF le0] map_append fold_append list.map fold_simps o_apply f id_apply)
  then show ?case
    using init_frame_step[OF IH(1,2) _ sh refl fs i, of tx' mem'] IH(3) dv Suc(2) by (metis Suc_le_eq)
qed

lemma sender_new_inv:
  assumes "ring_wf tx" "macs_ok sh" "86 \<le> unat (um_frame_size um)"
    "unat (ring_size tx) dvd unat start" "unat start + unat (ring_size tx) < 2 ^ 32"
    and e: "sender_new sh um tx start mem = (s, mem')"
  shows "sender_inv sh (unat start) s mem'" "checksum_offload s = xdp_checksum_offload sh" "s_umem s = um"
    "ring_size (s_tx s) = ring_size tx"
proof -
  have le: "start \<le> start + ring_size tx"
    using assms(5) by (simp add: no_olen_add_nat)
  obtain tx' where f: "fold (init_frame sh um) (map (\<lambda>i. start + word_of_nat i) [0..<unat (ring_size tx)]) (tx, mem) = (tx', mem')"
    and s0: "s = \<lparr>tcp_checksum = (if xdp_checksum_offload sh then 6 + 28 + ipv4_sum (to_be32 (source_ip sh))
         else 6 + 28 + sum_body (take 28 (drop 34 TCP_PACKET)) + ipv4_sum (to_be32 (source_ip sh))),
       ipv4_checksum = sum_body (take 20 (drop 14 TCP_PACKET)) + ipv4_sum (to_be32 (source_ip sh)),
       s_umem = um, s_tx = tx', checksum_offload = xdp_checksum_offload sh\<rparr>"
    using e le unfolding sender_new_def Let_def by (auto split: prod.splits)
  have s: "s_tx s = tx'" "s_umem s = um" "checksum_offload s = xdp_checksum_offload sh" "sender_sums sh s"
    unfolding s0 sender_sums_def ipv4_sum_hw template_sums by simp_all
  show "sender_inv sh (unat start) s mem'" "checksum_offload s = xdp_checksum_offload sh" "s_umem s = um"
    "ring_size (s_tx s) = ring_size tx"
    using init_frames[OF assms(1) order.refl assms(2-5) f] assms(3) s unfolding sender_inv_def frames_ready_def by auto
qed


section \<open>Checksum offload\<close>

text \<open>
  What a driver does with a frame whose metadata asks for \<^verbatim>\<open>XDP_TXMD_FLAGS_CHECKSUM\<close> with start 34 and offset 16: the
  checksum field gets the complement of the sum of the segment, whose field holds the sum of the pseudo header.
\<close>

definition nic_completed :: "bytes \<Rightarrow> bytes" where
  "nic_completed bs = take 50 bs @ to_be16 (word_of_nat (65535 - oc_sum (words16 (drop 34 bs)))) @ drop 52 bs"

lemma ip_header_length: "length (ip_header sh len ck dst) = 20"
  by (simp add: ip_header_def)

lemma nic_completed_header:
  assumes "length (eth_header sh) = 14"
  shows "nic_completed (eth_header sh @ ip_header sh len ck dst @ tcp_header sport dport seq ack fl tck @ body)
     = eth_header sh @ ip_header sh len ck dst @ tcp_header sport dport seq ack fl
         (word_of_nat (65535 - oc_sum (words16 (tcp_header sport dport seq ack fl tck @ body)))) @ body"
proof -
  have "take 16 (tcp_header sport dport seq ack fl tck @ body) @ to_be16 c @ drop 18 (tcp_header sport dport seq ack fl tck @ body)
      = tcp_header sport dport seq ack fl c @ body" for c
    by (simp add: tcp_header_def to_be32_def to_be16_def)
  then show ?thesis using assms by (simp add: nic_completed_def ip_header_length)
qed

lemma oc_complement_extra:
  assumes "0 < s" shows "oc_norm (s + n + (65535 - oc_norm s)) = oc_norm (65535 + n)"
  using oc_norm_add[of "s + (65535 - oc_norm s)" n] oc_complement[OF assms] by (simp add: ac_simps)

text \<open>The segment as completed by the driver sums to the complement of zero exactly when the pseudo header was right.\<close>

lemma offload_sum:
  assumes len: "length body \<le> 65487" and p: "p = hw (source_ip sh) + hw dst + 34"
    and tck: "unat tck = oc_norm p"
  shows "oc_sum (words16 (pseudo_header sh dst (28 + length body) @ tcp_header sport dport seq ack fl
     (word_of_nat (65535 - oc_sum (words16 (tcp_header sport dport seq ack fl tck @ body)))) @ body)) = oc_norm (65535 + length body)"
proof -
  define r where "r = unat sport + unat dport + hw seq + hw ack + (0x7000 + unat fl) + 0x8000
       + (0x0204 + 0x053C + 0x0101 + 0x0402) + sum_list (words16 body)"
  have seg: "sum_list (words16 (tcp_header sport dport seq ack fl c @ body)) = r + unat c" for c
    by (simp add: tcp_header_sum r_def)
  define c :: u16 where "c = word_of_nat (65535 - oc_sum (words16 (tcp_header sport dport seq ack fl tck @ body)))"
  have "oc_sum (words16 (tcp_header sport dport seq ack fl tck @ body)) = oc_norm (p + r)"
    unfolding oc_sum_words16 seg tck using oc_norm_add[of p r] by (simp only: add.commute)
  then have "unat c = 65535 - oc_norm (p + r)" unfolding c_def by (simp del: of_nat_diff) (subst unat_of_nat, simp)
  moreover have "sum_list (words16 (pseudo_header sh dst (28 + length body) @ tcp_header sport dport seq ack fl c @ body))
      = p + length body + (r + unat c)"
  proof -
    have "even (length (pseudo_header sh dst (28 + length body)))" by (simp add: pseudo_header_def)
    then show ?thesis using len by (simp add: words16_append seg pseudo_header_sum p)
  qed
  ultimately show ?thesis
    using oc_complement_extra[of "p + r" "length body"] p unfolding c_def[symmetric]
    by (subst oc_sum_words16) (simp add: ac_simps)
qed


text \<open>
  Offloaded data segments: in checksum-offload mode the sender puts into the checksum field a pseudo-header sum
  for an empty segment whatever the data is, so the frame as completed by the driver verifies only if there is no data.
\<close>
theorem offload_needs_empty_body:
  assumes inv: "sender_inv sh start s mem" and off: "checksum_offload s"
    and w: "wait_reserve ws 1 (s_tx s) cmp = (Inr idx, tx, cmp1)"
    and len: "62 + length body \<le> unat (um_frame_size (s_umem s))" "length body \<le> 65487"
    and e: "send_with_data ws fl sendto_ok ip sport port seq ack body s mem cmp = (r, s', mem', cmp')"
  shows "oc_sum (words16 (pseudo_header sh ip (28 + length body) @ drop 34 (nic_completed
       (read_bytes mem' (unat (d_addr (ring_index (s_tx s') idx))) (62 + length body))))) = 65535 \<longleftrightarrow> body = []"
proof -
  note wf = wait_reserve_frame[OF w]
  let ?a = "frame_at start (unat (um_frame_size (s_umem s))) (slot_of tx idx)"
  let ?p = "hw (source_ip sh) + hw ip + 34"
  note sl = send_slot[OF inv _ _ len(1), of tx idx]
  have slot: "slot_of tx idx < length (slots tx)"
    using inv wf by (auto simp: sender_inv_def ring_wf_def slot_of_def unat_mod)
  define tck where "tck = fold16 (tcp_checksum s + ipv4_sum (to_be32 ip))"
  have s': "s' = s\<lparr>s_tx := snd (submit (ring_index_mut tx idx ((ring_index tx idx)\<lparr>d_len := 62 + word_of_nat (length body)\<rparr>)) 1)\<rparr>"
    and "\<exists>ck. mem' = put_packet mem ?a ip ack seq (48 + word_of_nat (length body)) port sport ck tck (Psh OR Ack) body"
    using e w off sl(1) wf len(1) unfolding send_with_data_def tck_def by (auto simp: Let_def put_packet_def)
  then obtain ck where m: "mem' = put_packet mem ?a ip ack seq (48 + word_of_nat (length body)) port sport ck tck (Psh OR Ack) body"
    by blast
  have "tcp_checksum s + ipv4_sum (to_be32 ip) = word_of_nat ?p"
    using inv off by (simp add: sender_inv_def sender_sums_def ipv4_sum_hw)
  moreover have "?p < 2 ^ 32" using hw_bound[of "source_ip sh"] hw_bound[of ip] by simp
  ultimately have t: "unat tck = oc_norm ?p" unfolding tck_def fold16_norm by (subst arg_cong[where f = unat]) (assumption, simp add: unat_of_nat del: of_nat_add)
  have ready: "frame_ready sh mem ?a" using sl(2) wf by simp
  then have "length (eth_header sh @ [0x45, 0]) = length (read_bytes mem ?a 16)" unfolding frame_ready_def by metis
  then have eth: "length (eth_header sh) = 14" by (simp add: read_bytes_def)
  have "unat (d_addr (ring_index (s_tx s') idx)) = ?a"
    using slot sl(3) wf by (simp add: s' submit_def ring_index_mut_def ring_index_def slot_of_def)
  then have "oc_sum (words16 (pseudo_header sh ip (28 + length body) @ drop 34 (nic_completed
       (read_bytes mem' (unat (d_addr (ring_index (s_tx s') idx))) (62 + length body))))) = oc_norm (65535 + length body)"
    using offload_sum[OF len(2) refl t] by (simp add: m put_packet_read[OF ready] nic_completed_header[OF eth] eth ip_header_length)
  moreover have "oc_norm (65535 + length body) = length body" if "body \<noteq> []"
    using that len(2) oc_norm_carry[of "65535 + length body"] by (simp add: oc_norm_small)
  ultimately show ?thesis using len(2) by (cases "body = []") (simp_all add: oc_norm_small)
qed


section \<open>Waiting ends\<close>

lemma reserve_fails:
  "reserve r n = (None, r') \<Longrightarrow> \<not> n \<le> cons_ctr r + ring_size r - cached_prod r \<and> cached_prod r' = cached_prod r \<and> ring_size r' = ring_size r"
  by (auto simp: reserve_def free_def Let_def split: if_splits)

lemma reserve_some: "reserve r n = (Some i, r') \<Longrightarrow> i = cached_prod r"
  by (auto simp: reserve_def free_def Let_def split: if_splits)

text \<open>
  C18. Waiting for transmit slots ends: if no wake-up call fails and in some round the kernel's consumer counter leaves
  enough room, the loop at the head of every send returns the next index of the ring.
\<close>
theorem wait_reserve_live:
  assumes "\<forall>v \<in> set ws. wo_sendto v" and "w \<in> set ws" and "n \<le> wo_cons w + ring_size tx - cached_prod tx"
  shows "\<exists>tx' cmp'. wait_reserve ws n tx cmp = (Inr (cached_prod tx), tx', cmp')"
  using assms
proof (induction ws n tx cmp rule: wait_reserve.induct)
  case (2 v ws n tx cmp)
  define tx1 where "tx1 = tx\<lparr>rflags := wo_flags v, cons_ctr := wo_cons v\<rparr>"
  have tx1: "cached_prod tx1 = cached_prod tx" "ring_size tx1 = ring_size tx" "cons_ctr tx1 = wo_cons v"
    by (simp_all add: tx1_def)
  have ok: "\<not> (needs_wakeup (rflags tx1) \<and> \<not> wo_sendto v)" using 2(2) by simp
  obtain x tx2 where r: "reserve tx1 n = (x, tx2)" by (cases "reserve tx1 n")
  show ?case
  proof (cases x)
    case None
    note rf = reserve_fails[OF r[unfolded None]]
    then have "w \<in> set ws" using 2(3,4) tx1 by auto
    then show ?thesis
      using 2(1)[OF tx1_def ok r[symmetric] None] 2(2,4) rf tx1 ok r None by (simp add: tx1_def[symmetric])
  next
    case (Some i)
    then show ?thesis using r ok reserve_some[of tx1 n i tx2] tx1 by (simp add: tx1_def[symmetric])
  qed
qed simp

theorem wait_reserve_live_witness:
  "\<exists>tx' cmp'. wait_reserve
     [\<lparr>wo_flags = 1, wo_cons = 0, wo_sendto = True, wo_now = 0, wo_cr_prod = 0\<rparr>,
      \<lparr>wo_flags = 0, wo_cons = 2, wo_sendto = True, wo_now = 1, wo_cr_prod = 2\<rparr>] 2
     \<lparr>cached_prod = 4, cached_cons = 4, ring_size = 4, slots = [], prod_ctr = 4, cons_ctr = 0, rflags = 0\<rparr>
     (completer_new 0 4 (ring_new Complete 4 [0, 0, 0, 0] 0 0 0) 1 0) = (Inr 4, tx', cmp')"
  using wait_reserve_live[of
     "[\<lparr>wo_flags = 1, wo_cons = 0, wo_sendto = True, wo_now = 0, wo_cr_prod = 0\<rparr>,
      \<lparr>wo_flags = 0, wo_cons = 2, wo_sendto = True, wo_now = 1, wo_cr_prod = 2\<rparr>]"
     "\<lparr>wo_flags = 0, wo_cons = 2, wo_sendto = True, wo_now = 1, wo_cr_prod = 2\<rparr>" 2
     "\<lparr>cached_prod = 4, cached_cons = 4, ring_size = 4, slots = [], prod_ctr = 4, cons_ctr = 0, rflags = 0\<rparr>"
     "completer_new 0 4 (ring_new Complete 4 [0, 0, 0, 0] 0 0 0) 1 0"]
  by simp

section \<open>A concrete sender\<close>

definition demo_shared :: "bool \<Rightarrow> shared_data" where
  "demo_shared off = \<lparr>source_ip = 0x0A000002, gateway = [2, 0, 0, 0, 0, 1], interface = [2, 0, 0, 0, 0, 2],
     xdp_checksum_offload = off\<rparr>"

definition demo_umem :: umem where "demo_umem = \<lparr>um_area = 0, um_size = 8192, um_frame_size = 2048\<rparr>"

definition demo_tx :: "descriptor ring" where
  "demo_tx = ring_new Tx 2 (replicate 2 \<lparr>d_addr = 0, d_len = 0, d_options = 0\<rparr>) 0 0 0"

definition demo_sender :: "bool \<Rightarrow> sender \<times> memory" where
  "demo_sender off = sender_new (demo_shared off) demo_umem demo_tx 0 (\<lambda>_. 0)"

definition demo_completer :: completer where
  "demo_completer = completer_new 0 2 (ring_new Complete 2 [0, 0] 0 0 0) 1 0"

definition demo_obs :: wait_obs where
  "demo_obs = \<lparr>wo_flags = 1, wo_cons = 0, wo_sendto = True, wo_now = 0, wo_cr_prod = 0\<rparr>"

lemma demo_inv:
  "sender_inv (demo_shared off) 0 (fst (demo_sender off)) (snd (demo_sender off))"
  "checksum_offload (fst (demo_sender off)) = off" "s_umem (fst (demo_sender off)) = demo_umem"
  "ring_size (s_tx (fst (demo_sender off))) = 2"
proof -
  have "ring_wf demo_tx" "macs_ok (demo_shared off)" "ring_size demo_tx = 2"
    by (simp_all add: demo_tx_def ring_new_def ring_wf_def macs_ok_def demo_shared_def)
  then show "sender_inv (demo_shared off) 0 (fst (demo_sender off)) (snd (demo_sender off))"
    "checksum_offload (fst (demo_sender off)) = off" "s_umem (fst (demo_sender off)) = demo_umem"
    "ring_size (s_tx (fst (demo_sender off))) = 2"
    using sender_new_inv[of demo_tx "demo_shared off" demo_umem 0 "\<lambda>_. 0" "fst (demo_sender off)" "snd (demo_sender off)"]
    by (simp_all add: demo_umem_def demo_sender_def demo_shared_def)
qed


lemma init_frames_ring: "\<exists>sl. fst (fold (init_frame sh um) is (tx, mem)) = tx\<lparr>slots := sl\<rparr>"
proof (induction "is" arbitrary: tx mem)
  case Nil
  show ?case by (intro exI[of _ "slots tx"]) simp
next
  case (Cons i "is")
  obtain tx1 mem1 where f: "init_frame sh um i (tx, mem) = (tx1, mem1)" by fastforce
  then have "\<exists>sl. tx1 = tx\<lparr>slots := sl\<rparr>"
    using init_frame_eq[of sh um i tx mem] by (auto simp: ring_index_mut_def)
  then show ?case using Cons[of tx1 mem1] f by auto
qed

lemma sender_new_ring: "\<exists>sl. s_tx (fst (sender_new sh um tx start mem)) = tx\<lparr>slots := sl\<rparr>"
proof -
  define ii where "ii = (if start \<le> start + ring_size tx
      then map (\<lambda>i. start + word_of_nat i) [0..<unat (ring_size tx)] else [])"
  obtain tx' mem' where f: "fold (init_frame sh um) ii (tx, mem) = (tx', mem')" by fastforce
  then have "s_tx (fst (sender_new sh um tx start mem)) = tx'"
    by (simp add: sender_new_def ii_def[symmetric] Let_def[of "ipv4_sum _"])
  then show ?thesis using init_frames_ring[of sh um ii tx mem] f by simp
qed

lemma demo_wait:
  assumes "n \<le> 2"
  shows "\<exists>tx. wait_reserve [demo_obs] n (s_tx (fst (demo_sender off))) demo_completer = (Inr 0, tx, demo_completer)
     \<and> prod_ctr tx = 0"
proof -
  have "\<exists>sl. s_tx (fst (demo_sender off)) = demo_tx\<lparr>slots := sl\<rparr>"
    unfolding demo_sender_def by (rule sender_new_ring)
  then show ?thesis
    using assms by (auto simp: demo_tx_def ring_new_def demo_obs_def reserve_def free_def Let_def linorder_not_less[symmetric])
qed

theorem send_with_data_valid_witness:
  "\<exists>s' mem' cmp'. send_with_data [demo_obs] 0 True 0x01020304 61000 25565 7 9 [1, 2, 3] (fst (demo_sender False))
      (snd (demo_sender False)) demo_completer = (Sent, s', mem', cmp')
     \<and> prod_ctr (s_tx s') = 1 \<and> d_len (ring_index (s_tx s') 0) = 65
     \<and> valid_packet (demo_shared False) 0x01020304 61000 25565 7 9 (Psh OR Ack) [1, 2, 3]
         (read_bytes mem' (unat (d_addr (ring_index (s_tx s') 0))) 65)"
proof -
  let ?S = "demo_sender False"
  obtain tx where w: "wait_reserve [demo_obs] 1 (s_tx (fst ?S)) demo_completer = (Inr 0, tx, demo_completer)" "prod_ctr tx = 0"
    using demo_wait[of 1] by auto
  obtain r s' mem' cmp' where e: "send_with_data [demo_obs] 0 True 0x01020304 61000 25565 7 9 [1, 2, 3] (fst ?S) (snd ?S)
      demo_completer = (r, s', mem', cmp')" by (metis prod_cases4)
  have "62 + length [1, 2, 3 :: u8] \<le> unat (um_frame_size (s_umem (fst ?S)))" "length [1, 2, 3 :: u8] \<le> 65487"
    by (simp_all add: demo_inv demo_umem_def)
  then show ?thesis
    using send_with_data_valid[OF demo_inv(1) _ w(1) _ _ e] demo_inv(2) w(2) e by (simp add: kick_def needs_wakeup_def)
qed

theorem send_valid_witness:
  "\<exists>s' mem' cmp'. send Ack [demo_obs] 0 True 0x01020304 61000 25565 7 9 (fst (demo_sender False))
      (snd (demo_sender False)) demo_completer = (Sent, s', mem', cmp')
     \<and> prod_ctr (s_tx s') = 1 \<and> d_len (ring_index (s_tx s') 0) = 62
     \<and> valid_packet (demo_shared False) 0x01020304 61000 25565 7 9 Ack []
         (read_bytes mem' (unat (d_addr (ring_index (s_tx s') 0))) 62)"
proof -
  let ?S = "demo_sender False"
  obtain tx where w: "wait_reserve [demo_obs] 1 (s_tx (fst ?S)) demo_completer = (Inr 0, tx, demo_completer)" "prod_ctr tx = 0"
    using demo_wait[of 1] by auto
  obtain r s' mem' cmp' where e: "send Ack [demo_obs] 0 True 0x01020304 61000 25565 7 9 (fst ?S) (snd ?S)
      demo_completer = (r, s', mem', cmp')" by (metis prod_cases4)
  then show ?thesis
    using send_valid[OF demo_inv(1) _ w(1) e] demo_inv(2) w(2) e by (simp add: kick_def needs_wakeup_def)
qed

theorem offload_needs_empty_body_witness:
  "\<exists>r s' mem' cmp'. send_with_data [demo_obs] 0 True 0x01020304 61000 25565 7 9 [1, 2, 3] (fst (demo_sender True))
      (snd (demo_sender True)) demo_completer = (r, s', mem', cmp')
     \<and> oc_sum (words16 (pseudo_header (demo_shared True) 0x01020304 31 @ drop 34 (nic_completed
         (read_bytes mem' (unat (d_addr (ring_index (s_tx s') 0))) 65)))) \<noteq> 65535"
proof -
  let ?S = "demo_sender True"
  obtain tx where w: "wait_reserve [demo_obs] 1 (s_tx (fst ?S)) demo_completer = (Inr 0, tx, demo_completer)"
    using demo_wait[of 1] by auto
  obtain r s' mem' cmp' where e: "send_with_data [demo_obs] 0 True 0x01020304 61000 25565 7 9 [1, 2, 3] (fst ?S) (snd ?S)
      demo_completer = (r, s', mem', cmp')" by (metis prod_cases4)
  have "62 + length [1, 2, 3 :: u8] \<le> unat (um_frame_size (s_umem (fst ?S)))" "length [1, 2, 3 :: u8] \<le> 65487"
    by (simp_all add: demo_inv demo_umem_def)
  then show ?thesis using offload_needs_empty_body[OF demo_inv(1) _ w _ _ e] demo_inv(2) e by simp
qed

end
