(* ===== verification/Deque.thy ===== *)
theory Deque
  imports Farsight_Prelude "HOL-Library.Monad_Syntax"
begin

text \<open>
  The work-stealing queue between the feeder and the scanners (\<^verbatim>\<open>controller/deque\<close>): one worker pushes batches into a ring
  of cells that it grows, any number of stealers take batches from the other end and confirm them with a
  compare-and-swap. The counters are natural numbers: they start at zero, only grow, and stay below the range of
  \<^verbatim>\<open>isize\<close>. A cell that was never written is \<open>None\<close>; a copy that leaves its buffer is \<open>None\<close> as a whole.

  The operations are first given as the code runs them alone, in the parts between which other threads may run; the
  step relation \<open>dq_step\<close> interleaves these parts. \<open>deque_fifo\<close> shows that nothing is lost, duplicated or reordered as long
  as batches fit into the buffer, which the code does not check: \<open>push_overruns\<close> shows what happens otherwise. A stealer
  that was overtaken may read beyond the buffer (\<open>overtaken_steal_overreads\<close>). Buffers are identified by their
  position in the list of all buffers ever allocated: the epochs of crossbeam keep a buffer alive, and its address
  unused, while a stealer that has loaded it is pinned.
\<close>

section \<open>Buffers\<close>

record 'a buffer =
  b_cap :: nat
  cells :: "'a option list"

definition MIN_CAP :: nat where "MIN_CAP = 64"

definition buffer_alloc :: "nat \<Rightarrow> 'a buffer" where
  "buffer_alloc c = \<lparr>b_cap = c, cells = replicate c None\<rparr>"

type_synonym seg = "nat \<times> nat"

definition split_range :: "'a buffer \<Rightarrow> nat \<Rightarrow> nat \<Rightarrow> seg option \<times> seg option" where
  "split_range b start end =
     (if end \<le> start then (None, None)
      else let len = end - start; i = start AND (b_cap b - 1) in
        if i + len \<le> b_cap b then (Some (i, len), None)
        else let l1 = b_cap b - i; l2 = len - l1 in (Some (i, l1), Some (0, l2)))"

definition buf_at :: "'a buffer \<Rightarrow> nat \<Rightarrow> nat" where
  "buf_at b index = index AND (b_cap b - 1)"

definition buf_read :: "'a buffer \<Rightarrow> nat \<Rightarrow> 'a option" where
  "buf_read b index = cells b ! buf_at b index"

text \<open>\<^verbatim>\<open>copy_nonoverlapping\<close> of \<open>n\<close> elements.\<close>

definition copy_seg :: "'b list \<Rightarrow> nat \<Rightarrow> nat \<Rightarrow> nat \<Rightarrow> 'b list \<Rightarrow> 'b list option" where
  "copy_seg src src_start dest_start n dst =
     (if src_start + n \<le> length src \<and> dest_start + n \<le> length dst
      then Some (take dest_start dst @ take n (drop src_start src) @ drop (dest_start + n) dst) else None)"

section \<open>The queue\<close>

record 'a deque =
  consumed :: nat
  produced :: nat
  buffers :: "'a buffer list"
  current_buffer :: nat
  dq_cached_cons :: nat

definition worker_new :: "'a deque" where
  "worker_new = \<lparr>consumed = 0, produced = 0, buffers = [buffer_alloc MIN_CAP], current_buffer = 0, dq_cached_cons = 0\<rparr>"

definition cur_buf :: "'a deque \<Rightarrow> 'a buffer" where
  "cur_buf d = buffers d ! current_buffer d"

definition set_cells :: "'a option list \<Rightarrow> 'a deque \<Rightarrow> 'a deque" where
  "set_cells cs d = d\<lparr>buffers := (buffers d)[current_buffer d := (cur_buf d)\<lparr>cells := cs\<rparr>]\<rparr>"

definition resize_copy :: "'a buffer \<Rightarrow> 'a buffer \<Rightarrow> nat \<Rightarrow> nat \<Rightarrow> 'a option list option" where
  "resize_copy old new c p =
     (case (split_range old c p, split_range new c p) of
        ((Some (s1, l1), Some (s2, l2)), (Some (s3, l3), Some (s4, l4))) \<Rightarrow>
          if l1 \<le> l3 then do {
            cs \<leftarrow> copy_seg (cells old) s1 s3 l1 (cells new);
            let rem = l3 - l1;
            cs \<leftarrow> copy_seg (cells old) s2 (s3 + l1) rem cs;
            copy_seg (cells old) (s2 + rem) s4 (l2 - rem) cs }
          else do {
            cs \<leftarrow> copy_seg (cells old) s1 s3 l3 (cells new);
            let rem = l1 - l3;
            cs \<leftarrow> copy_seg (cells old) (s1 + l3) s4 rem cs;
            copy_seg (cells old) s2 (s4 + rem) l2 cs }
      | ((Some (s1, l1), Some (s2, l2)), (Some (s3, l3), None)) \<Rightarrow> do {
          cs \<leftarrow> copy_seg (cells old) s1 s3 l1 (cells new);
          copy_seg (cells old) s2 (s3 + l1) l2 cs }
      | ((Some (s1, l1), None), (Some (s3, l3), Some (s4, l4))) \<Rightarrow> do {
          cs \<leftarrow> copy_seg (cells old) s1 s3 l3 (cells new);
          copy_seg (cells old) (s1 + l3) s4 l4 cs }
      | ((Some (s1, l1), None), (Some (s3, l3), None)) \<Rightarrow> copy_seg (cells old) s1 s3 l1 (cells new)
      | _ \<Rightarrow> Some (cells new))"

text \<open>\<^verbatim>\<open>resize\<close> after it has read \<open>consumed\<close> into \<open>c\<close>: the live part goes into a new buffer, which becomes the current one.\<close>

definition resize_from :: "nat \<Rightarrow> nat \<Rightarrow> 'a deque \<Rightarrow> 'a deque option" where
  "resize_from c new_cap d = do {
     let new = buffer_alloc new_cap;
     cs \<leftarrow> resize_copy (cur_buf d) new c (produced d);
     Some (d\<lparr>buffers := buffers d @ [new\<lparr>cells := cs\<rparr>], current_buffer := length (buffers d)\<rparr>) }"

definition resize :: "nat \<Rightarrow> 'a deque \<Rightarrow> 'a deque option" where
  "resize new_cap d = resize_from (consumed d) new_cap d"

text \<open>The first part of \<^verbatim>\<open>push\<close> finds out whether the buffer must grow, the second copies the batch, the third publishes it.\<close>

definition push_check :: "'a deque \<Rightarrow> bool \<times> 'a deque" where
  "push_check d =
     (if produced d - dq_cached_cons d \<ge> b_cap (cur_buf d)
      then let d = d\<lparr>dq_cached_cons := consumed d\<rparr> in (produced d - dq_cached_cons d \<ge> b_cap (cur_buf d), d)
      else (False, d))"

definition push_copy :: "'a list \<Rightarrow> 'a deque \<Rightarrow> 'a deque option" where
  "push_copy task d = do {
     let p = produced d;
     cs \<leftarrow> (case split_range (cur_buf d) p (p + length task) of
        (Some (s1, l1), Some (s2, l2)) \<Rightarrow> do {
          cs \<leftarrow> copy_seg (map Some task) 0 s1 l1 (cells (cur_buf d));
          copy_seg (map Some task) l1 s2 l2 cs }
      | (Some (s1, l1), None) \<Rightarrow> copy_seg (map Some task) 0 s1 l1 (cells (cur_buf d))
      | _ \<Rightarrow> Some (cells (cur_buf d)));
     Some (set_cells cs d) }"

definition push_publish :: "nat \<Rightarrow> 'a deque \<Rightarrow> 'a deque" where
  "push_publish task_len d = d\<lparr>produced := produced d + task_len\<rparr>"

definition push_room :: "'a deque \<Rightarrow> 'a deque option" where
  "push_room d = (case push_check d of (True, d) \<Rightarrow> resize (2 * b_cap (cur_buf d)) d | (False, d) \<Rightarrow> Some d)"

definition push :: "'a list \<Rightarrow> 'a deque \<Rightarrow> 'a deque option" where
  "push task d = do {
     d \<leftarrow> push_room d;
     d \<leftarrow> push_copy task d;
     Some (push_publish (length task) d) }"

section \<open>Stealing\<close>

datatype 'r steal_result = Empty | Retry | Success 'r

definition steal_size :: "nat \<Rightarrow> nat \<Rightarrow> nat \<Rightarrow> nat" where
  "steal_size capacity f b = min ((b - f + 1) div 2) capacity"

definition steal_copy :: "nat \<Rightarrow> nat \<Rightarrow> 'a buffer \<Rightarrow> 'a option list option" where
  "steal_copy f batch_size b =
     (let i = f AND (b_cap b - 1); dest = replicate batch_size None in
      if i + batch_size > b_cap b
      then let l1 = b_cap b - i; l2 = batch_size - l1 in do {
             dest \<leftarrow> copy_seg (cells b) i 0 l1 dest;
             copy_seg (cells b) 0 l1 l2 dest }
      else copy_seg (cells b) i 0 batch_size dest)"

text \<open>The compare-and-swap of the counter, and before it the check that the buffer is still the current one.\<close>

definition steal_cas :: "nat \<Rightarrow> nat \<Rightarrow> 'a deque \<Rightarrow> bool \<times> 'a deque" where
  "steal_cas f n d = (if consumed d = f then (True, d\<lparr>consumed := f + n\<rparr>) else (False, d))"

definition steal_commit :: "nat \<Rightarrow> nat \<Rightarrow> nat \<Rightarrow> 'a deque \<Rightarrow> bool \<times> 'a deque" where
  "steal_commit f n buf d = (if current_buffer d \<noteq> buf then (False, d) else steal_cas f n d)"

definition steal :: "'a deque \<Rightarrow> 'a option steal_result \<times> 'a deque" where
  "steal d =
     (let f = consumed d; b = produced d in
      if b - f = 0 then (Empty, d)
      else let buf = current_buffer d; task = buf_read (buffers d ! buf) f in
        case steal_commit f 1 buf d of (False, d') \<Rightarrow> (Retry, d') | (True, d') \<Rightarrow> (Success task, d'))"

definition steal_batch :: "nat \<Rightarrow> 'a deque \<Rightarrow> ('a option list steal_result \<times> 'a deque) option" where
  "steal_batch capacity d =
     (let f = consumed d; b = produced d; batch_size = steal_size capacity f b in
      if batch_size = 0 then Some (Empty, d)
      else let buf = current_buffer d in
        map_option (\<lambda>dest. case steal_commit f batch_size buf d of
            (False, d') \<Rightarrow> (Retry, d') | (True, d') \<Rightarrow> (Success dest, d'))
          (steal_copy f batch_size (buffers d ! buf)))"

text \<open>Dropping the queue drops the elements between the counters in place.\<close>

definition dq_drop :: "'a deque \<Rightarrow> 'a option list" where
  "dq_drop d = map (buf_read (cur_buf d)) [consumed d..<produced d]"

section \<open>Rings of cells\<close>

definition put_at :: "nat \<Rightarrow> 'b list \<Rightarrow> 'b list \<Rightarrow> 'b list" where
  "put_at d ys cs = take d cs @ ys @ drop (d + length ys) cs"

lemma length_put_at [simp]: "d + length ys \<le> length cs \<Longrightarrow> length (put_at d ys cs) = length cs"
  by (simp add: put_at_def)

lemma nth_put_at:
  "d + length ys \<le> length cs \<Longrightarrow> i < length cs \<Longrightarrow> put_at d ys cs ! i = (if d \<le> i \<and> i < d + length ys then ys ! (i - d) else cs ! i)"
  by (auto simp: put_at_def nth_append)

lemma put_at_put_at:
  assumes "d + length ys + length zs \<le> length cs"
  shows "put_at (d + length ys) zs (put_at d ys cs) = put_at d (ys @ zs) cs"
  using assms by (intro nth_equalityI) (auto simp: nth_put_at nth_append)

lemma copy_seg_Some: "s + n \<le> length src \<Longrightarrow> d + n \<le> length dst \<Longrightarrow> copy_seg src s d n dst = Some (put_at d (take n (drop s src)) dst)"
  by (simp add: copy_seg_def put_at_def)

definition ring_read :: "'b list \<Rightarrow> nat \<Rightarrow> nat \<Rightarrow> 'b list" where
  "ring_read cs p n = map (\<lambda>j. cs ! ((p + j) mod length cs)) [0..<n]"

definition ring_write :: "'b list \<Rightarrow> nat \<Rightarrow> 'b list \<Rightarrow> 'b list" where
  "ring_write cs p xs = (let s = p mod length cs in
     if s + length xs \<le> length cs then put_at s xs cs
     else put_at 0 (drop (length cs - s) xs) (put_at s (take (length cs - s) xs) cs))"

lemma mod_shift:
  fixes p j c :: nat
  assumes "p mod c + j < 2 * c"
  shows "(p + j) mod c = (if p mod c + j < c then p mod c + j else p mod c + j - c)"
proof -
  have "(p + j) mod c = (p mod c + j) mod c" by (simp add: mod_add_left_eq)
  also have "\<dots> = (if p mod c + j < c then p mod c + j else p mod c + j - c)"
    using assms by (auto simp: le_mod_geq)
  finally show ?thesis .
qed

lemma ring_read_split:
  assumes "0 < length cs" "n \<le> 2 * length cs - p mod length cs"
  shows "ring_read cs p n = (let s = p mod length cs in
     if s + n \<le> length cs then take n (drop s cs) else take (length cs - s) (drop s cs) @ take (n - (length cs - s)) cs)"
proof -
  define s where "s = p mod length cs"
  have s: "s < length cs" "n \<le> 2 * length cs - s" using assms by (auto simp: s_def)
  have m: "(p + j) mod length cs = (if s + j < length cs then s + j else s + j - length cs)" if "j < n" for j
    using that s mod_shift[of p "length cs" j] by (simp add: s_def)
  show ?thesis
  proof (cases "s + n \<le> length cs")
    case True
    then show ?thesis using m unfolding s_def[symmetric] Let_def by (intro nth_equalityI) (auto simp: ring_read_def)
  next
    case False
    then show ?thesis using m s unfolding s_def[symmetric] Let_def by (intro nth_equalityI) (auto simp: ring_read_def nth_append ac_simps)
  qed
qed

lemma ring_write_spec:
  assumes "0 < length cs" "length xs \<le> length cs"
  shows "length (ring_write cs p xs) = length cs"
    and "j < length xs \<Longrightarrow> ring_write cs p xs ! ((p + j) mod length cs) = xs ! j"
    and "i < length cs \<Longrightarrow> (\<And>j. j < length xs \<Longrightarrow> i \<noteq> (p + j) mod length cs) \<Longrightarrow> ring_write cs p xs ! i = cs ! i"
proof -
  define s where "s = p mod length cs"
  have s: "s < length cs" using assms by (auto simp: s_def)
  have m: "(p + j) mod length cs = (if s + j < length cs then s + j else s + j - length cs)" if "j < length xs" for j
  proof -
    have "p mod length cs + j < 2 * length cs" using that s assms(2) unfolding s_def by linarith
    from mod_shift[OF this] show ?thesis by (simp add: s_def)
  qed
  have w: "ring_write cs p xs = (if s + length xs \<le> length cs then put_at s xs cs
     else put_at 0 (drop (length cs - s) xs) (put_at s (take (length cs - s) xs) cs))"
    by (simp add: ring_write_def s_def Let_def)
  show "length (ring_write cs p xs) = length cs" using assms(2) s by (auto simp: w)
  show "ring_write cs p xs ! ((p + j) mod length cs) = xs ! j" if "j < length xs"
    using that m[OF that] assms(2) s by (cases "s + length xs \<le> length cs") (auto simp: w nth_put_at)
  show "ring_write cs p xs ! i = cs ! i" if i: "i < length cs" "\<And>j. j < length xs \<Longrightarrow> i \<noteq> (p + j) mod length cs"
  proof -
    have "\<not> (s \<le> i \<and> i < s + length xs)"
    proof
      assume a: "s \<le> i \<and> i < s + length xs"
      then have "i - s < length xs" by linarith
      from i(2)[OF this] m[OF this] show False using a i(1) by simp
    qed
    moreover have "\<not> i + length cs < s + length xs"
    proof
      assume a: "i + length cs < s + length xs"
      then have "i + length cs - s < length xs" using s by linarith
      from i(2)[OF this] m[OF this] show False using a s by simp
    qed
    ultimately show ?thesis using i(1) assms(2) s by (cases "s + length xs \<le> length cs") (auto simp: w nth_put_at)
  qed
qed


section \<open>What the operations do\<close>

definition buf_wf :: "'a buffer \<Rightarrow> bool" where
  "buf_wf b \<longleftrightarrow> (\<exists>k. b_cap b = 2 ^ k) \<and> length (cells b) = b_cap b"

lemma buf_wf_alloc: "buf_wf (buffer_alloc (2 ^ k))"
  by (auto simp: buf_wf_def buffer_alloc_def)

lemma buf_index: "buf_wf b \<Longrightarrow> i AND (b_cap b - Suc 0) = i mod b_cap b"
  unfolding buf_wf_def by (metis One_nat_def mask_eq_exp_minus_1 take_bit_eq_mask take_bit_eq_mod)

lemma buf_pos: "buf_wf b \<Longrightarrow> 0 < b_cap b"
  by (auto simp: buf_wf_def)

lemma put_at_nil [simp]: "d \<le> length cs \<Longrightarrow> put_at d [] cs = cs"
  by (simp add: put_at_def)

lemma push_copy_spec:
  assumes wf: "buf_wf (cur_buf d)" and len: "length task \<le> b_cap (cur_buf d)"
  shows "push_copy task d = Some (set_cells (ring_write (cells (cur_buf d)) (produced d) (map Some task)) d)"
proof (cases "task = []")
  case True
  have "produced d mod length (cells (cur_buf d)) < length (cells (cur_buf d))" using wf buf_pos[OF wf] by (simp add: buf_wf_def)
  then show ?thesis using True by (simp add: push_copy_def split_range_def ring_write_def Let_def)
next
  case False
  define s where "s = produced d mod b_cap (cur_buf d)"
  have s: "s < b_cap (cur_buf d)" using buf_pos[OF wf] by (simp add: s_def)
  have l: "length (cells (cur_buf d)) = b_cap (cur_buf d)" using wf by (simp add: buf_wf_def)
  have n: "\<not> produced d + length task \<le> produced d" using False by simp
  show ?thesis
  proof (cases "s + length task \<le> b_cap (cur_buf d)")
    case True
    then show ?thesis
      using n l by (simp add: push_copy_def split_range_def buf_index[OF wf] s_def[symmetric] copy_seg_Some ring_write_def Let_def)
  next
    case False
    then show ?thesis
      using n l s len
      by (simp add: push_copy_def split_range_def buf_index[OF wf] s_def[symmetric] copy_seg_Some ring_write_def Let_def drop_map take_map)
  qed
qed

lemma copy_two_two:
  assumes c: "i + l = length old" "k + r = length new" "l < m" "r < m" "m \<le> length old" "length old \<le> length new"
  defines "xs \<equiv> take l (drop i old) @ take (m - l) old"
  shows "(if l \<le> r then do {
            cs \<leftarrow> copy_seg old i k l new;
            cs \<leftarrow> copy_seg old 0 (k + l) (r - l) cs;
            copy_seg old (r - l) 0 (m - l - (r - l)) cs }
          else do {
            cs \<leftarrow> copy_seg old i k r new;
            cs \<leftarrow> copy_seg old (i + r) 0 (l - r) cs;
            copy_seg old 0 (l - r) (m - l) cs }) = Some (put_at 0 (drop r xs) (put_at k (take r xs) new))"
proof -
  have len: "length (take l (drop i old)) = l" "length (take (m - l) old) = m - l" "length xs = m" using c by (auto simp: xs_def)
  show ?thesis
  proof (cases "l \<le> r")
    case True
    have t: "take r xs = take l (drop i old) @ take (r - l) old" using len c True by (simp add: xs_def min_def)
    have e: "put_at (k + l) (take (r - l) old) (put_at k (take l (drop i old)) new) = put_at k (take r xs) new"
    proof -
      have "k + length (take l (drop i old)) + length (take (r - l) old) \<le> length new" using len(1) c True by simp
      from put_at_put_at[OF this] show ?thesis unfolding t len(1) .
    qed
    have "drop r xs = take (m - r) (drop (r - l) old)" using len(1) c True by (simp add: xs_def drop_take)
    moreover have "length (put_at k (take r xs) new) = length new" using len c by simp
    ultimately show ?thesis using True e c len by (simp add: copy_seg_Some)
  next
    case False
    define new' where "new' = put_at k (take r xs) new"
    have t: "take r xs = take r (drop i old)" using len c False by (simp add: xs_def min_def)
    have d: "drop r xs = take (l - r) (drop (i + r) old) @ take (m - l) old" using len c False by (simp add: xs_def drop_take add.commute)
    have ln: "length new' = length new" using len c by (simp add: new'_def)
    have ll: "length (take (l - r) (drop (i + r) old)) = l - r" using c False by simp
    have e: "put_at (l - r) (take (m - l) old) (put_at 0 (take (l - r) (drop (i + r) old)) new') = put_at 0 (drop r xs) new'"
      using put_at_put_at[of 0 "take (l - r) (drop (i + r) old)" "take (m - l) old" new'] ll len(2) ln c False unfolding d by simp
    have "copy_seg old i k r new = Some new'" using c False by (simp add: copy_seg_Some t new'_def)
    moreover have "copy_seg old (i + r) 0 (l - r) new' = Some (put_at 0 (take (l - r) (drop (i + r) old)) new')"
      using c False ln by (intro copy_seg_Some) auto
    moreover have "copy_seg old 0 (l - r) (m - l) (put_at 0 (take (l - r) (drop (i + r) old)) new') = Some (put_at 0 (drop r xs) new')"
      using c False ln ll unfolding e[symmetric]
      by (subst copy_seg_Some) auto
    ultimately show ?thesis using False by (simp add: new'_def)
  qed
qed

lemma resize_copy_spec:
  assumes wf: "buf_wf old" "buf_wf new" and n: "p - c \<le> b_cap old" "b_cap old \<le> b_cap new"
  shows "resize_copy old new c p = Some (ring_write (cells new) c (ring_read (cells old) c (p - c)))"
proof (cases "p \<le> c")
  case True
  have "c mod b_cap new < b_cap new" using buf_pos[OF wf(2)] by simp
  then show ?thesis using True wf by (simp add: resize_copy_def split_range_def ring_read_def ring_write_def buf_wf_def Let_def)
next
  case False
  define i k m xs where "i = c mod b_cap old" and "k = c mod b_cap new" and "m = p - c" and "xs = ring_read (cells old) c m"
  have lo: "length (cells old) = b_cap old" "length (cells new) = b_cap new" using wf by (simp_all add: buf_wf_def)
  have ik: "i < b_cap old" "k < b_cap new" using buf_pos[OF wf(1)] buf_pos[OF wf(2)] by (simp_all add: i_def k_def)
  have m: "0 < m" "m \<le> b_cap old" using False n by (simp_all add: m_def)
  have lx: "length xs = m" by (simp add: xs_def ring_read_def)
  have xs: "xs = (if i + m \<le> b_cap old then take m (drop i (cells old))
      else take (b_cap old - i) (drop i (cells old)) @ take (m - (b_cap old - i)) (cells old))"
  proof -
    have "0 < length (cells old)" "m \<le> 2 * length (cells old) - c mod length (cells old)"
      using ik m unfolding lo i_def by linarith+
    from ring_read_split[OF this] show ?thesis by (simp only: lo i_def xs_def Let_def)
  qed
  have so: "split_range old c p = (if i + m \<le> b_cap old then (Some (i, m), None)
      else (Some (i, b_cap old - i), Some (0, m - (b_cap old - i))))"
    using False by (simp add: split_range_def buf_index[OF wf(1)] i_def m_def Let_def)
  have sn: "split_range new c p = (if k + m \<le> b_cap new then (Some (k, m), None)
      else (Some (k, b_cap new - k), Some (0, m - (b_cap new - k))))"
    using False by (simp add: split_range_def buf_index[OF wf(2)] k_def m_def Let_def)
  have w: "ring_write (cells new) c xs = (if k + m \<le> b_cap new then put_at k xs (cells new)
      else put_at 0 (drop (b_cap new - k) xs) (put_at k (take (b_cap new - k) xs) (cells new)))"
    using lo lx by (simp add: ring_write_def k_def Let_def)
  show ?thesis
  proof (cases "i + m \<le> b_cap old")
    case one: True
    then have x: "xs = take m (drop i (cells old))" using xs by simp
    show ?thesis
    proof (cases "k + m \<le> b_cap new")
      case True
      then show ?thesis using one x lo w by (simp add: resize_copy_def so sn copy_seg_Some xs_def m_def)
    next
      case False
      define r where "r = b_cap new - k"
      have r: "r < m" "r \<le> b_cap new" "k + r = b_cap new" "i + r \<le> b_cap old" "m \<le> b_cap new"
        using False ik one m n(2) by (auto simp: r_def)
      have "drop r xs = take (m - r) (drop (i + r) (cells old))" "take r xs = take r (drop i (cells old))"
        using r(1) by (simp_all add: x drop_take min_def add.commute)
      then show ?thesis using one False lo w r
        by (simp add: resize_copy_def so sn copy_seg_Some xs_def[symmetric] m_def[symmetric] r_def[symmetric])
    qed
  next
    case two: False
    define l where "l = b_cap old - i"
    have x: "xs = take l (drop i (cells old)) @ take (m - l) (cells old)" using xs two by (simp add: l_def)
    have len: "length (take l (drop i (cells old))) = l" "length (take (m - l) (cells old)) = m - l" "l < m" "l \<le> b_cap old"
      "i + l = b_cap old" "b_cap old - i = l"
      using lo m ik two by (auto simp: l_def)
    show ?thesis
    proof (cases "k + m \<le> b_cap new")
      case True
      then have "put_at (k + l) (take (m - l) (cells old)) (put_at k (take l (drop i (cells old))) (cells new)) = put_at k xs (cells new)"
        using put_at_put_at[of k "take l (drop i (cells old))" "take (m - l) (cells old)" "cells new"] len lo by (simp add: x)
      then show ?thesis using two True lo w len m
        by (simp add: resize_copy_def so sn copy_seg_Some xs_def[symmetric] m_def[symmetric] l_def[symmetric])
    next
      case False
      define r where "r = b_cap new - k"
      have r: "r < m" "k + r = b_cap new" using False ik by (auto simp: r_def)
      show ?thesis using two False w copy_two_two[of i l "cells old" k r "cells new" m, folded x] len(3,5) r m lo n(2)
        by (cases "l \<le> r") (simp_all add: resize_copy_def so sn xs_def[symmetric] m_def[symmetric] l_def[symmetric] r_def[symmetric] Let_def)
    qed
  qed
qed

section \<open>Interleavings\<close>

text \<open>
  The worker and the stealers are between two accesses to the shared counters, the shared buffer pointer or the cells.
  The log \<open>pushed\<close> grows when a batch is published, \<open>taken\<close> when a compare-and-swap succeeds. Copying a batch is one step.
\<close>

datatype 'a worker_pc =
    WIdle
  | WGrow "'a list"
  | WCopy "'a list" nat
  | WRoom "'a list"
  | WWritten "'a list"

datatype 'a stealer_pc =
    SIdle
  | SFront nat
  | SSize nat nat
  | SBuf nat nat nat
  | SCopied nat nat nat "'a option list"
  | SChecked nat nat "'a option list"

record 'a dq_sys =
  dq :: "'a deque"
  wpc :: "'a worker_pc"
  spc :: "nat \<Rightarrow> 'a stealer_pc"
  pushed :: "'a list"
  taken :: "'a option list"

definition dq_init :: "'a dq_sys" where
  "dq_init = \<lparr>dq = worker_new, wpc = WIdle, spc = (\<lambda>_. SIdle), pushed = [], taken = []\<rparr>"

inductive dq_step :: "'a dq_sys \<Rightarrow> 'a dq_sys \<Rightarrow> bool" where
  w_check: "wpc s = WIdle \<Longrightarrow> push_check (dq s) = (grow, d) \<Longrightarrow>
     dq_step s (s\<lparr>dq := d, wpc := (if grow then WGrow task else WRoom task)\<rparr>)"
| w_load: "wpc s = WGrow task \<Longrightarrow> dq_step s (s\<lparr>wpc := WCopy task (consumed (dq s))\<rparr>)"
| w_swap: "wpc s = WCopy task c \<Longrightarrow> resize_from c (2 * b_cap (cur_buf (dq s))) (dq s) = Some d \<Longrightarrow>
     dq_step s (s\<lparr>dq := d, wpc := WRoom task\<rparr>)"
| w_write: "wpc s = WRoom task \<Longrightarrow> push_copy task (dq s) = Some d \<Longrightarrow> dq_step s (s\<lparr>dq := d, wpc := WWritten task\<rparr>)"
| w_publish: "wpc s = WWritten task \<Longrightarrow>
     dq_step s (s\<lparr>dq := push_publish (length task) (dq s), wpc := WIdle, pushed := pushed s @ task\<rparr>)"
| s_front: "spc s t = SIdle \<Longrightarrow> dq_step s (s\<lparr>spc := (spc s)(t := SFront (consumed (dq s)))\<rparr>)"
| s_size: "spc s t = SFront f \<Longrightarrow> n = steal_size capacity f (produced (dq s)) \<Longrightarrow>
     dq_step s (s\<lparr>spc := (spc s)(t := if n = 0 then SIdle else SSize f n)\<rparr>)"
| s_buf: "spc s t = SSize f n \<Longrightarrow> dq_step s (s\<lparr>spc := (spc s)(t := SBuf f n (current_buffer (dq s)))\<rparr>)"
| s_copy: "spc s t = SBuf f n buf \<Longrightarrow> steal_copy f n (buffers (dq s) ! buf) = Some dest \<Longrightarrow>
     dq_step s (s\<lparr>spc := (spc s)(t := SCopied f n buf dest)\<rparr>)"
| s_check: "spc s t = SCopied f n buf dest \<Longrightarrow>
     dq_step s (s\<lparr>spc := (spc s)(t := if current_buffer (dq s) \<noteq> buf then SIdle else SChecked f n dest)\<rparr>)"
| s_cas: "spc s t = SChecked f n dest \<Longrightarrow> steal_cas f n (dq s) = (ok, d) \<Longrightarrow>
     dq_step s (s\<lparr>dq := d, spc := (spc s)(t := SIdle), taken := (if ok then taken s @ dest else taken s)\<rparr>)"

text \<open>Runs in which every batch fits beside what is not consumed yet when it is about to be written.\<close>

definition batch_fits :: "'a dq_sys \<Rightarrow> bool" where
  "batch_fits s = (case wpc s of WRoom task \<Rightarrow> produced (dq s) + length task \<le> consumed (dq s) + b_cap (cur_buf (dq s)) | _ \<Rightarrow> True)"

inductive dq_run :: "'a dq_sys \<Rightarrow> bool" where
  start: "dq_run dq_init"
| step: "dq_run s \<Longrightarrow> dq_step s s' \<Longrightarrow> batch_fits s' \<Longrightarrow> dq_run s'"

definition dq_contents :: "'a deque \<Rightarrow> 'a option list" where
  "dq_contents d = ring_read (cells (cur_buf d)) (consumed d) (produced d - consumed d)"

section \<open>The invariant\<close>

definition cells_hold :: "'a buffer \<Rightarrow> nat \<Rightarrow> nat \<Rightarrow> 'a list \<Rightarrow> bool" where
  "cells_hold b lo hi xs \<longleftrightarrow> (\<forall>j. lo \<le> j \<and> j < hi \<longrightarrow> cells b ! (j mod b_cap b) = Some (xs ! j))"

definition dq_ok :: "'a deque \<Rightarrow> 'a list \<Rightarrow> bool" where
  "dq_ok d xs \<longleftrightarrow> (\<forall>b \<in> set (buffers d). buf_wf b) \<and> current_buffer d < length (buffers d)
     \<and> dq_cached_cons d \<le> consumed d \<and> consumed d \<le> produced d \<and> produced d \<le> consumed d + b_cap (cur_buf d)
     \<and> length xs = produced d \<and> cells_hold (cur_buf d) (consumed d) (produced d) xs"

lemma dq_ok_cur: "dq_ok d xs \<Longrightarrow> buf_wf (cur_buf d)"
  by (auto simp: dq_ok_def cur_buf_def)

lemma cells_hold_mono: "cells_hold b lo hi xs \<Longrightarrow> lo \<le> lo' \<Longrightarrow> hi' \<le> hi \<Longrightarrow> cells_hold b lo' hi' xs"
  by (auto simp: cells_hold_def)

lemma cells_hold_append: "cells_hold b lo hi xs \<Longrightarrow> hi \<le> length xs \<Longrightarrow> cells_hold b lo hi (xs @ ys)"
  by (auto simp: cells_hold_def nth_append)

lemma ring_read_hold:
  assumes "buf_wf b" "cells_hold b f (f + n) xs" "f + n \<le> length xs"
  shows "ring_read (cells b) f n = map Some (take n (drop f xs))"
  using assms by (intro nth_equalityI) (auto simp: ring_read_def cells_hold_def buf_wf_def)

lemma steal_copy_spec:
  assumes wf: "buf_wf b" and n: "n \<le> b_cap b"
  shows "steal_copy f n b = Some (ring_read (cells b) f n)"
proof -
  define i where "i = f mod b_cap b"
  have l: "length (cells b) = b_cap b" "0 < length (cells b)" "i < b_cap b" using wf buf_pos[OF wf] by (auto simp: buf_wf_def i_def)
  have "n \<le> 2 * length (cells b) - f mod length (cells b)" using n l by (simp add: i_def)
  note r = ring_read_split[OF l(2) this, unfolded l(1), folded i_def]
  show ?thesis
  proof (cases "i + n \<le> b_cap b")
    case True
    then show ?thesis using l r by (simp add: steal_copy_def buf_index[OF wf] i_def[symmetric] copy_seg_Some put_at_def)
  next
    case False
    then show ?thesis
      using l r n by (simp add: steal_copy_def buf_index[OF wf] i_def[symmetric] copy_seg_Some put_at_def min_def)
  qed
qed

text \<open>What the steps of the worker and of other stealers leave of the cells a stealer may still take.\<close>

definition dq_grows :: "'a deque \<Rightarrow> 'a list \<Rightarrow> 'a deque \<Rightarrow> 'a list \<Rightarrow> bool" where
  "dq_grows d xs d' xs' \<longleftrightarrow> consumed d \<le> consumed d' \<and> produced d \<le> produced d' \<and> length (buffers d) \<le> length (buffers d')
     \<and> (\<forall>i < length (buffers d). b_cap (buffers d' ! i) = b_cap (buffers d ! i)
          \<and> (\<forall>j. consumed d' \<le> j \<and> j < produced d \<longrightarrow>
               cells (buffers d' ! i) ! (j mod b_cap (buffers d ! i)) = cells (buffers d ! i) ! (j mod b_cap (buffers d ! i))))
     \<and> (\<exists>ys. xs' = xs @ ys)"

fun stealer_ok :: "'a deque \<Rightarrow> 'a list \<Rightarrow> 'a stealer_pc \<Rightarrow> bool" where
  "stealer_ok d xs SIdle = True"
| "stealer_ok d xs (SFront f) = (f \<le> consumed d)"
| "stealer_ok d xs (SSize f n) = (f \<le> consumed d \<and> (consumed d = f \<longrightarrow> f + n \<le> produced d))"
| "stealer_ok d xs (SBuf f n buf) = (f \<le> consumed d \<and> buf < length (buffers d)
     \<and> (consumed d = f \<longrightarrow> f + n \<le> produced d \<and> n \<le> b_cap (buffers d ! buf) \<and> cells_hold (buffers d ! buf) f (f + n) xs))"
| "stealer_ok d xs (SCopied f n buf dest) = (f \<le> consumed d
     \<and> (consumed d = f \<longrightarrow> f + n \<le> produced d \<and> dest = map Some (take n (drop f xs))))"
| "stealer_ok d xs (SChecked f n dest) = (f \<le> consumed d
     \<and> (consumed d = f \<longrightarrow> f + n \<le> produced d \<and> dest = map Some (take n (drop f xs))))"

fun worker_ok :: "'a deque \<Rightarrow> 'a list \<Rightarrow> 'a worker_pc \<Rightarrow> bool" where
  "worker_ok d xs (WCopy task c) = (c \<le> consumed d \<and> produced d \<le> c + b_cap (cur_buf d) \<and> cells_hold (cur_buf d) c (produced d) xs)"
| "worker_ok d xs (WRoom task) = (produced d + length task \<le> consumed d + b_cap (cur_buf d))"
| "worker_ok d xs (WWritten task) = (produced d + length task \<le> consumed d + b_cap (cur_buf d)
     \<and> cells_hold (cur_buf d) (consumed d) (produced d + length task) (xs @ task))"
| "worker_ok d xs _ = True"

lemma stealer_ok_grows:
  assumes "stealer_ok d xs pc" and g: "dq_grows d xs d' xs'" and l: "length xs = produced d"
  shows "stealer_ok d' xs' pc"
proof -
  obtain ys where ys: "xs' = xs @ ys" and c: "consumed d \<le> consumed d'" "produced d \<le> produced d'" "length (buffers d) \<le> length (buffers d')"
    using g by (auto simp: dq_grows_def)
  have f: "consumed d = f" if "f \<le> consumed d" "consumed d' = f" for f using c that by simp
  have h: "cells_hold (buffers d' ! buf) f (f + n) xs'"
    if "cells_hold (buffers d ! buf) f (f + n) xs" "buf < length (buffers d)" "consumed d' = f" "f + n \<le> produced d" for buf f n
    using that g l by (auto simp: dq_grows_def cells_hold_def ys nth_append)
  show ?thesis using assms(1) c l g f h
    by (cases pc) (auto simp: ys dq_grows_def dest: f)
qed

lemma dq_grows_refl: "consumed d \<le> consumed d' \<Longrightarrow> produced d = produced d' \<Longrightarrow> buffers d' = buffers d \<Longrightarrow> dq_grows d xs d' xs"
  by (auto simp: dq_grows_def)

lemma ring_write_hold:
  fixes b :: "'a buffer" and xs task :: "'a list"
  assumes wf: "buf_wf b" and h: "cells_hold b c p xs" and l: "length xs = p" "p + length task \<le> c + b_cap b" "c \<le> p"
  defines "b' \<equiv> b\<lparr>cells := ring_write (cells b) p (map Some task)\<rparr>"
  shows "buf_wf b'" "cells_hold b' c (p + length task) (xs @ task)"
    "\<forall>j. c \<le> j \<and> j < p \<longrightarrow> cells b' ! (j mod b_cap b) = cells b ! (j mod b_cap b)"
proof -
  have lc: "length (cells b) = b_cap b" "0 < length (cells b)" using wf buf_pos[OF wf] by (auto simp: buf_wf_def)
  have lt: "length (map Some task) \<le> length (cells b)" using l lc by simp
  note w = ring_write_spec[OF lc(2) lt, where p = p, unfolded lc(1)]
  show "buf_wf b'" using wf w(1) by (auto simp: buf_wf_def b'_def)
  show old: "\<forall>j. c \<le> j \<and> j < p \<longrightarrow> cells b' ! (j mod b_cap b) = cells b ! (j mod b_cap b)"
  proof (intro allI impI)
    fix j assume j: "c \<le> j \<and> j < p"
    have "j mod b_cap b \<noteq> (p + k) mod b_cap b" if "k < length (map Some task)" for k
      using j l that by (intro mod_neq_window) auto
    then show "cells b' ! (j mod b_cap b) = cells b ! (j mod b_cap b)" using w(3)[where i = "j mod b_cap b"] lc by (simp add: b'_def)
  qed
  show "cells_hold b' c (p + length task) (xs @ task)"
    unfolding cells_hold_def
  proof (intro allI impI)
    fix j assume j: "c \<le> j \<and> j < p + length task"
    show "cells b' ! (j mod b_cap b') = Some ((xs @ task) ! j)"
    proof (cases "j < p")
      case True
      then show ?thesis using old h j l by (auto simp: cells_hold_def b'_def nth_append)
    next
      case False
      then show ?thesis using w(2)[where j = "j - p"] j l by (simp add: b'_def nth_append)
    qed
  qed
qed

lemma push_copy_ok:
  assumes ok: "dq_ok d xs" and fits: "produced d + length task \<le> consumed d + b_cap (cur_buf d)" and e: "push_copy task d = Some d'"
  shows "dq_ok d' xs" "worker_ok d' xs (WWritten task)" "dq_grows d xs d' xs"
    "consumed d' = consumed d" "produced d' = produced d"
proof -
  let ?b' = "(cur_buf d)\<lparr>cells := ring_write (cells (cur_buf d)) (produced d) (map Some task)\<rparr>"
  have o: "consumed d \<le> produced d" "length xs = produced d" "cells_hold (cur_buf d) (consumed d) (produced d) xs"
    "current_buffer d < length (buffers d)" using ok by (auto simp: dq_ok_def)
  have "length task \<le> b_cap (cur_buf d)" using fits o by simp
  then have d': "d' = d\<lparr>buffers := (buffers d)[current_buffer d := ?b']\<rparr>"
    using e push_copy_spec[OF dq_ok_cur[OF ok]] by (simp add: set_cells_def)
  then have cur: "cur_buf d' = ?b'" using o by (simp add: cur_buf_def)
  note w = ring_write_hold[OF dq_ok_cur[OF ok] o(3,2) fits o(1)]
  show "consumed d' = consumed d" "produced d' = produced d" by (simp_all add: d')
  have "cells_hold (cur_buf d') (consumed d) (produced d) xs"
    using w(2) o unfolding cur by (auto simp: cells_hold_def nth_append)
  then show "dq_ok d' xs" using ok w(1) unfolding dq_ok_def cur
    by (auto simp: d' dest: set_update_subset_insert[THEN subsetD])
  show "worker_ok d' xs (WWritten task)" using w(2) fits unfolding worker_ok.simps cur by (simp add: d')
  show "dq_grows d xs d' xs" using w(3) o(4) by (auto simp: dq_grows_def d' nth_list_update cur_buf_def)
qed

lemma resize_from_ok:
  assumes ok: "dq_ok d xs" and w: "worker_ok d xs (WCopy task c)" and e: "resize_from c (2 * b_cap (cur_buf d)) d = Some d'"
  shows "dq_ok d' xs" "dq_grows d xs d' xs"
proof -
  let ?old = "cur_buf d"
  define new :: "'a buffer" where "new = buffer_alloc (2 * b_cap ?old)"
  have o: "consumed d \<le> produced d" "length xs = produced d" "produced d \<le> consumed d + b_cap ?old" using ok by (auto simp: dq_ok_def)
  have c: "c \<le> consumed d" "produced d - c \<le> b_cap ?old" "cells_hold ?old c (produced d) xs" using w by auto
  obtain k where k: "b_cap ?old = 2 ^ k" using dq_ok_cur[OF ok] by (auto simp: buf_wf_def)
  have wn: "buf_wf new" "b_cap new = 2 * b_cap ?old" using buf_wf_alloc[of "Suc k"] by (simp_all add: new_def k buffer_alloc_def)
  define cs where "cs = ring_write (cells new) c (ring_read (cells ?old) c (produced d - c))"
  have d': "d' = d\<lparr>buffers := buffers d @ [new\<lparr>cells := cs\<rparr>], current_buffer := length (buffers d)\<rparr>"
    using e resize_copy_spec[OF dq_ok_cur[OF ok] wn(1) c(2)] wn(2) by (simp add: resize_from_def new_def[symmetric] cs_def)
  have rd: "ring_read (cells ?old) c (produced d - c) = map Some (drop c xs)"
    using ring_read_hold[OF dq_ok_cur[OF ok], of c "produced d - c" xs] c o by simp
  have hold: "buf_wf (new\<lparr>cells := cs\<rparr>)" "cells_hold (new\<lparr>cells := cs\<rparr>) c (produced d) xs"
  proof -
    have h0: "cells_hold new c c (take c xs)" by (auto simp: cells_hold_def)
    have "length (take c xs) = c" "c + length (drop c xs) \<le> c + b_cap new" using o c wn(2) by auto
    note rw = ring_write_hold[OF wn(1) h0 this order_refl]
    show "buf_wf (new\<lparr>cells := cs\<rparr>)" "cells_hold (new\<lparr>cells := cs\<rparr>) c (produced d) xs" using rw(1,2) o c by (simp_all add: cs_def rd)
  qed
  have "cur_buf d' = new\<lparr>cells := cs\<rparr>" by (simp add: d' cur_buf_def)
  moreover have "cells_hold (new\<lparr>cells := cs\<rparr>) (consumed d) (produced d) xs" using hold(2) c by (auto intro: cells_hold_mono)
  ultimately show "dq_ok d' xs" using ok hold(1) o wn(2) by (simp add: dq_ok_def d')
  show "dq_grows d xs d' xs" by (simp add: dq_grows_def d' nth_append)
qed

definition sys_ok :: "'a dq_sys \<Rightarrow> bool" where
  "sys_ok s \<longleftrightarrow> dq_ok (dq s) (pushed s) \<and> worker_ok (dq s) (pushed s) (wpc s) \<and> (\<forall>t. stealer_ok (dq s) (pushed s) (spc s t))
     \<and> taken s = map Some (take (consumed (dq s)) (pushed s))"

lemma stealers_grow:
  assumes "sys_ok s" "dq_grows (dq s) (pushed s) d' xs'"
  shows "stealer_ok d' xs' (spc s t)"
  using assms by (auto simp: sys_ok_def dq_ok_def intro: stealer_ok_grows)

text \<open>The steps of the worker.\<close>

lemma push_check_ok:
  assumes ok: "dq_ok d xs" and e: "push_check d = (grow, d')"
  shows "dq_ok d' xs" "dq_grows d xs d' xs" "consumed d' = consumed d"
proof -
  have "d' = d \<or> d' = d\<lparr>dq_cached_cons := consumed d\<rparr>" using e by (auto simp: push_check_def Let_def split: if_splits)
  then show "dq_ok d' xs" "dq_grows d xs d' xs" "consumed d' = consumed d" using ok by (auto simp: dq_ok_def cur_buf_def dq_grows_def)
qed

lemma resize_from_counters: "resize_from c n d = Some d' \<Longrightarrow> consumed d' = consumed d \<and> produced d' = produced d"
  by (auto simp: resize_from_def Let_def split: Option.bind_splits)

lemma worker_step_ok:
  assumes s: "sys_ok s" and d: "dq_ok d' (pushed s)" "dq_grows (dq s) (pushed s) d' (pushed s)" "consumed d' = consumed (dq s)"
    and w: "worker_ok d' (pushed s) pc"
  shows "sys_ok (s\<lparr>dq := d', wpc := pc\<rparr>)"
  using s d w stealers_grow[OF s d(2)] by (simp add: sys_ok_def)

lemma publish_ok:
  assumes s: "sys_ok s" and w: "wpc s = WWritten task"
  shows "sys_ok (s\<lparr>dq := push_publish (length task) (dq s), wpc := WIdle, pushed := pushed s @ task\<rparr>)"
proof -
  let ?d = "push_publish (length task) (dq s)"
  have g: "dq_grows (dq s) (pushed s) ?d (pushed s @ task)" by (auto simp: dq_grows_def push_publish_def)
  have "cur_buf ?d = cur_buf (dq s)" by (simp add: cur_buf_def push_publish_def)
  moreover have "consumed (dq s) \<le> length (pushed s)" using s by (simp add: sys_ok_def dq_ok_def)
  ultimately show ?thesis using s w stealers_grow[OF s g] by (simp add: sys_ok_def dq_ok_def push_publish_def)
qed

text \<open>The steps of a stealer.\<close>

lemma stealer_step_ok:
  "sys_ok s \<Longrightarrow> stealer_ok (dq s) (pushed s) pc \<Longrightarrow> sys_ok (s\<lparr>spc := (spc s)(t := pc)\<rparr>)"
  by (simp add: sys_ok_def)

lemma stealer_copy_ok:
  assumes s: "sys_ok s" and t: "spc s t = SBuf f n buf" and e: "steal_copy f n (buffers (dq s) ! buf) = Some dest"
  shows "stealer_ok (dq s) (pushed s) (SCopied f n buf dest)"
proof -
  have o: "stealer_ok (dq s) (pushed s) (SBuf f n buf)" using s t unfolding sys_ok_def by metis
  then have wf: "buf_wf (buffers (dq s) ! buf)" using s by (auto simp: sys_ok_def dq_ok_def)
  show ?thesis
  proof (cases "consumed (dq s) = f")
    case True
    then have h: "f + n \<le> produced (dq s)" "n \<le> b_cap (buffers (dq s) ! buf)" "cells_hold (buffers (dq s) ! buf) f (f + n) (pushed s)"
      using o by auto
    then have "dest = ring_read (cells (buffers (dq s) ! buf)) f n" using e steal_copy_spec[OF wf h(2)] by simp
    also have "\<dots> = map Some (take n (drop f (pushed s)))" using s h by (intro ring_read_hold[OF wf]) (auto simp: sys_ok_def dq_ok_def)
    finally show ?thesis using o h by simp
  qed (use o in simp)
qed

lemma cas_ok:
  assumes s: "sys_ok s" and t: "spc s t = SChecked f n dest" and e: "steal_cas f n (dq s) = (ok, d)"
  shows "sys_ok (s\<lparr>dq := d, spc := (spc s)(t := SIdle), taken := (if ok then taken s @ dest else taken s)\<rparr>)"
proof (cases "consumed (dq s) = f")
  case True
  have o: "stealer_ok (dq s) (pushed s) (SChecked f n dest)" using s t unfolding sys_ok_def by metis
  have d: "ok" "d = (dq s)\<lparr>consumed := f + n\<rparr>" using e True by (auto simp: steal_cas_def)
  have g: "dq_grows (dq s) (pushed s) d (pushed s)" using True by (intro dq_grows_refl) (auto simp: d)
  have "cur_buf d = cur_buf (dq s)" by (simp add: cur_buf_def d)
  moreover have "worker_ok d (pushed s) (wpc s)"
    using s True by (cases "wpc s") (auto simp: sys_ok_def d cur_buf_def intro: cells_hold_mono)
  moreover have "cells_hold (cur_buf (dq s)) (f + n) (produced (dq s)) (pushed s)"
    using s True by (auto simp: sys_ok_def dq_ok_def intro: cells_hold_mono)
  moreover have "map Some (take (f + n) (pushed s)) = taken s @ dest" using s True o by (simp add: sys_ok_def take_add)
  ultimately show ?thesis using s True o d(1) stealers_grow[OF s g] by (simp add: sys_ok_def dq_ok_def d)
next
  case False
  then have "(ok, d) = (False, dq s)" using e by (simp add: steal_cas_def)
  then show ?thesis using s by (simp add: sys_ok_def)
qed

lemma dq_step_ok:
  assumes "dq_step s s'" and s: "sys_ok s" and fits: "batch_fits s'"
  shows "sys_ok s'"
  using assms(1)
proof cases
  case (w_check grow d task)
  have "dq_ok (dq s) (pushed s)" using s by (simp add: sys_ok_def)
  note p = push_check_ok[OF this w_check(3)]
  then show ?thesis using w_check(1) fits worker_step_ok[OF s p] by (cases grow) (simp_all add: batch_fits_def)
next
  case (w_load task)
  then show ?thesis using s by (auto simp: sys_ok_def dq_ok_def)
next
  case (w_swap task c d)
  then have "worker_ok (dq s) (pushed s) (WCopy task c)" "dq_ok (dq s) (pushed s)" using s by (auto simp: sys_ok_def)
  note r = resize_from_ok[OF this(2,1) w_swap(3)]
  then show ?thesis using w_swap s fits resize_from_counters[OF w_swap(3)] by (auto intro!: worker_step_ok simp: batch_fits_def)
next
  case (w_write task d)
  then have "produced (dq s) + length task \<le> consumed (dq s) + b_cap (cur_buf (dq s))" "dq_ok (dq s) (pushed s)"
    using s by (auto simp: sys_ok_def)
  note r = push_copy_ok[OF this(2,1) w_write(3)]
  then show ?thesis using w_write s by (auto intro!: worker_step_ok)
next
  case (w_publish task)
  then show ?thesis using publish_ok[OF s] by simp
next
  case (s_front t)
  then show ?thesis using s by (auto intro!: stealer_step_ok)
next
  case (s_size t f n capacity)
  then have "stealer_ok (dq s) (pushed s) (SFront f)" using s unfolding sys_ok_def by metis
  then show ?thesis using s s_size by (auto intro!: stealer_step_ok simp: steal_size_def sys_ok_def dq_ok_def)
next
  case (s_buf t f n)
  then have "stealer_ok (dq s) (pushed s) (SSize f n)" using s unfolding sys_ok_def by metis
  then have "stealer_ok (dq s) (pushed s) (SBuf f n (current_buffer (dq s)))"
    using s by (auto simp: sys_ok_def dq_ok_def cur_buf_def elim!: cells_hold_mono)
  then show ?thesis using s s_buf by (auto intro!: stealer_step_ok)
next
  case (s_copy t f n buf dest)
  then show ?thesis using s stealer_copy_ok[OF s s_copy(2,3)] by (auto intro!: stealer_step_ok)
next
  case (s_check t f n buf dest)
  then have "stealer_ok (dq s) (pushed s) (SCopied f n buf dest)" using s unfolding sys_ok_def by metis
  then show ?thesis using s s_check by (auto intro!: stealer_step_ok)
next
  case (s_cas t f n dest ok d)
  then show ?thesis using cas_ok[OF s s_cas(2,3)] by simp
qed

lemma worker_new_ok: "dq_ok worker_new []"
  using buf_wf_alloc[of 6] by (simp add: worker_new_def dq_ok_def cells_hold_def cur_buf_def MIN_CAP_def)

lemma dq_run_ok: "dq_run s \<Longrightarrow> sys_ok s"
proof (induction rule: dq_run.induct)
  case start
  show ?case using worker_new_ok by (simp add: dq_init_def sys_ok_def worker_new_def)
next
  case (step s s')
  then show ?case by (auto intro: dq_step_ok)
qed

lemma dq_contents_ok: "dq_ok d xs \<Longrightarrow> dq_contents d = map Some (drop (consumed d) xs)"
  using ring_read_hold[OF dq_ok_cur, of d xs "consumed d" "produced d - consumed d" xs] by (simp add: dq_ok_def dq_contents_def)

lemma dq_drop_contents:
  assumes "dq_ok d xs"
  shows "dq_drop d = dq_contents d"
proof -
  note wf = dq_ok_cur[OF assms]
  then have "length (cells (cur_buf d)) = b_cap (cur_buf d)" by (simp add: buf_wf_def)
  then show ?thesis
    using assms buf_index[OF wf] unfolding dq_drop_def dq_contents_def ring_read_def buf_read_def buf_at_def
    by (intro nth_equalityI) (auto simp: dq_ok_def)
qed

text \<open>
  C21. Nothing is lost, duplicated or reordered: in every interleaving of a worker and any number of stealers in which batches
  fit, what the stealers have taken, in the order of their commits, followed by what is left in the queue, is what
  the worker has published; no element was read before it was written. What is left is what dropping the queue drops.
\<close>
theorem deque_fifo:
  assumes "dq_run s"
  shows "taken s @ dq_contents (dq s) = map Some (pushed s) \<and> dq_drop (dq s) = dq_contents (dq s)"
proof -
  have o: "dq_ok (dq s) (pushed s)" "taken s = map Some (take (consumed (dq s)) (pushed s))" using dq_run_ok[OF assms] by (auto simp: sys_ok_def)
  then have "dq_contents (dq s) = map Some (drop (consumed (dq s)) (pushed s))"
    using dq_contents_ok by blast
  then show ?thesis using o(2) dq_drop_contents[OF o(1)] by (simp flip: map_append)
qed

text \<open>
  An operation that runs without interruption: a push whose batch fits appends it to the contents.
\<close>

definition dq_fits :: "nat \<Rightarrow> 'a deque \<Rightarrow> bool" where
  "dq_fits n d \<longleftrightarrow> (\<exists>d1. push_room d = Some d1 \<and> produced d1 + n \<le> consumed d1 + b_cap (cur_buf d1))"

lemma push_room_ok:
  assumes ok: "dq_ok d xs" and r: "push_room d = Some d1"
  shows "dq_ok d1 xs" "consumed d1 = consumed d"
proof -
  obtain grow d0 where c: "push_check d = (grow, d0)" by fastforce
  note p = push_check_ok[OF ok c]
  have w: "worker_ok d0 xs (WCopy [] (consumed d0))" using p(1) by (auto simp: dq_ok_def)
  show "dq_ok d1 xs" "consumed d1 = consumed d"
    using r c p resize_from_ok(1)[OF p(1) w] resize_from_counters by (cases grow; force simp: push_room_def resize_def)+
qed

lemma push_ok:
  assumes ok: "dq_ok d xs" and f: "dq_fits (length task) d"
  shows "\<exists>d'. push task d = Some d' \<and> dq_ok d' (xs @ task) \<and> consumed d' = consumed d"
proof -
  obtain d1 where r: "push_room d = Some d1" and f1: "produced d1 + length task \<le> consumed d1 + b_cap (cur_buf d1)"
    using f by (auto simp: dq_fits_def)
  note r1 = push_room_ok[OF ok r]
  have "length task \<le> b_cap (cur_buf d1)" using f1 r1(1) by (simp add: dq_ok_def)
  then obtain d2 where c: "push_copy task d1 = Some d2" using push_copy_spec[OF dq_ok_cur[OF r1(1)]] by blast
  note c2 = push_copy_ok[OF r1(1) f1 c]
  have "cur_buf (push_publish (length task) d2) = cur_buf d2" by (simp add: cur_buf_def push_publish_def)
  then have "dq_ok (push_publish (length task) d2) (xs @ task)" using c2 f1 by (simp add: dq_ok_def push_publish_def)
  then show ?thesis using r c c2(4) r1(2) by (simp add: push_def) (simp add: push_publish_def)
qed

lemma push_contents:
  assumes ok: "dq_ok d xs" and f: "dq_fits (length task) d"
  shows "\<exists>d'. push task d = Some d' \<and> dq_ok d' (xs @ task) \<and> dq_contents d' = dq_contents d @ map Some task"
proof -
  obtain d' where d': "push task d = Some d'" "dq_ok d' (xs @ task)" "consumed d' = consumed d" using push_ok[OF assms] by blast
  have "consumed d \<le> length xs" using ok by (simp add: dq_ok_def)
  then show ?thesis using d' dq_contents_ok[OF ok] dq_contents_ok[OF d'(2)] by simp
qed

lemma steal_batch_contents:
  fixes d :: "'a deque" and capacity :: nat
  assumes ok: "dq_ok d xs"
  defines "n \<equiv> steal_size capacity (consumed d) (produced d)"
  shows "if n = 0 then steal_batch capacity d = Some (Empty, d)
     else \<exists>d'. steal_batch capacity d = Some (Success (take n (dq_contents d)), d') \<and> dq_ok d' xs
       \<and> dq_contents d' = drop n (dq_contents d)"
proof (cases "n = 0")
  case True
  then show ?thesis by (simp add: steal_batch_def n_def Let_def)
next
  case False
  define d' where "d' = d\<lparr>consumed := consumed d + n\<rparr>"
  have n: "consumed d + n \<le> produced d" using False by (auto simp: n_def steal_size_def min_def)
  then have "n \<le> b_cap (cur_buf d)" using ok by (simp add: dq_ok_def)
  then have "steal_copy (consumed d) n (cur_buf d) = Some (take n (dq_contents d))"
    using steal_copy_spec[OF dq_ok_cur[OF ok]] n by (simp add: dq_contents_def ring_read_def take_map take_upt min_def)
  then have "steal_batch capacity d = Some (Success (take n (dq_contents d)), d')"
    using False by (simp add: steal_batch_def n_def[symmetric] Let_def steal_commit_def steal_cas_def cur_buf_def d'_def)
  moreover have ok': "dq_ok d' xs"
    using ok n by (auto simp: dq_ok_def d'_def cur_buf_def elim!: cells_hold_mono)
  moreover have "dq_contents d' = drop n (dq_contents d)"
    using dq_contents_ok[OF ok] dq_contents_ok[OF ok'] by (simp add: d'_def drop_map add.commute)
  ultimately show ?thesis using False by simp
qed

text \<open>It is also a run of the steps above.\<close>

lemma push_room_run:
  assumes s: "dq_run s" "wpc s = WIdle" and r: "push_room (dq s) = Some d"
    and fits: "produced d + length task \<le> consumed d + b_cap (cur_buf d)"
  shows "dq_run (s\<lparr>dq := d, wpc := WRoom task\<rparr>)"
proof (cases "push_check (dq s)")
  case (Pair grow d1)
  note c = dq_step.w_check[OF s(2) Pair, of task]
  show ?thesis
  proof (cases grow)
    case False
    then show ?thesis using c r fits dq_run.step[OF s(1) c] Pair by (simp add: push_room_def batch_fits_def)
  next
    case True
    let ?s1 = "s\<lparr>dq := d1, wpc := WGrow task\<rparr>"
    let ?s2 = "?s1\<lparr>wpc := WCopy task (consumed d1)\<rparr>"
    have 1: "dq_run ?s1" using dq_run.step[OF s(1) c] True by (simp add: batch_fits_def)
    have "dq_step ?s1 ?s2" using dq_step.w_load[of ?s1 task] by simp
    then have 2: "dq_run ?s2" by (rule dq_run.step[OF 1]) (simp add: batch_fits_def)
    have "resize_from (consumed d1) (2 * b_cap (cur_buf d1)) d1 = Some d" using r True Pair by (simp add: push_room_def resize_def)
    then have "dq_step ?s2 (?s2\<lparr>dq := d, wpc := WRoom task\<rparr>)" by (intro dq_step.w_swap[of _ task "consumed d1"]) simp_all
    from dq_run.step[OF 2 this] show ?thesis using fits by (simp add: batch_fits_def)
  qed
qed

lemma dq_run_idle: "dq_run s \<Longrightarrow> dq_step s s' \<Longrightarrow> wpc s' = WIdle \<Longrightarrow> dq_run s'"
  by (auto intro: dq_run.step simp: batch_fits_def)

lemma push_run:
  assumes s: "dq_run s" "wpc s = WIdle" and p: "push task (dq s) = Some d"
    and fits: "push_room (dq s) = Some d1" "produced d1 + length task \<le> consumed d1 + b_cap (cur_buf d1)"
  shows "dq_run (s\<lparr>dq := d, pushed := pushed s @ task\<rparr>)"
proof -
  let ?s1 = "s\<lparr>dq := d1, wpc := WRoom task\<rparr>"
  obtain d2 where d2: "push_copy task d1 = Some d2" "d = push_publish (length task) d2"
    using p fits(1) by (auto simp: push_def split: Option.bind_splits)
  let ?s2 = "?s1\<lparr>dq := d2, wpc := WWritten task\<rparr>"
  have "dq_step ?s1 ?s2" using d2(1) by (intro dq_step.w_write) simp_all
  then have 2: "dq_run ?s2" by (rule dq_run.step[OF push_room_run[OF s fits]]) (simp add: batch_fits_def)
  have "dq_step ?s2 (?s2\<lparr>dq := d, wpc := WIdle, pushed := pushed s @ task\<rparr>)" using dq_step.w_publish[of ?s2 task] d2(2) by simp
  moreover have "s\<lparr>dq := d, wpc := WIdle, pushed := pushed s @ task\<rparr> = s\<lparr>dq := d, pushed := pushed s @ task\<rparr>" using s(2) by (cases s) simp
  ultimately show ?thesis using dq_run_idle[OF 2] s(2) by simp
qed

lemma steal_batch_run:
  assumes s: "dq_run s" "wpc s = WIdle" "spc s t = SIdle" and b: "steal_batch capacity (dq s) = Some (Success dest, d)"
  shows "dq_run (s\<lparr>dq := d, taken := taken s @ dest\<rparr>)"
proof -
  let ?f = "consumed (dq s)" and ?buf = "current_buffer (dq s)"
  define n where "n = steal_size capacity ?f (produced (dq s))"
  have n: "n \<noteq> 0" "steal_copy ?f n (buffers (dq s) ! ?buf) = Some dest" "d = (dq s)\<lparr>consumed := ?f + n\<rparr>"
    using b by (auto simp: steal_batch_def n_def[symmetric] Let_def steal_commit_def steal_cas_def split: if_splits)
  let ?at = "\<lambda>pc. s\<lparr>spc := (spc s)(t := pc)\<rparr>"
  have w: "wpc (?at pc) = WIdle" for pc using s(2) by simp
  have 1: "dq_run (?at (SFront ?f))" by (rule dq_run_idle[OF s(1) dq_step.s_front[of s t, OF s(3)] w])
  have "dq_step (?at (SFront ?f)) (?at (SSize ?f n))"
    using dq_step.s_size[of "?at (SFront ?f)" t ?f n capacity] n(1) n_def by simp
  note 2 = dq_run_idle[OF 1 this w]
  have "dq_step (?at (SSize ?f n)) (?at (SBuf ?f n ?buf))" using dq_step.s_buf[of "?at (SSize ?f n)" t ?f n] by simp
  note 3 = dq_run_idle[OF 2 this w]
  have "dq_step (?at (SBuf ?f n ?buf)) (?at (SCopied ?f n ?buf dest))"
    using dq_step.s_copy[of "?at (SBuf ?f n ?buf)" t ?f n ?buf dest] n(2) by simp
  note 4 = dq_run_idle[OF 3 this w]
  have "dq_step (?at (SCopied ?f n ?buf dest)) (?at (SChecked ?f n dest))"
    using dq_step.s_check[of "?at (SCopied ?f n ?buf dest)" t ?f n ?buf dest] by simp
  note 5 = dq_run_idle[OF 4 this w]
  have "dq_step (?at (SChecked ?f n dest)) (s\<lparr>dq := d, taken := taken s @ dest\<rparr>)"
    using dq_step.s_cas[of "?at (SChecked ?f n dest)" t ?f n dest True d] s(3) n(3) by (simp add: steal_cas_def fun_upd_idem)
  from dq_run_idle[OF 5 this] s(2) show ?thesis by simp
qed

lemma dq_init_idle: "dq_run dq_init" "wpc dq_init = WIdle" "spc dq_init t = SIdle" "dq dq_init = worker_new" "pushed dq_init = []" "taken dq_init = []"
  by (rule dq_run.start, simp_all add: dq_init_def)

definition demo_queue :: "nat \<Rightarrow> nat deque" where
  "demo_queue c = \<lparr>consumed = c, produced = 3, buffers = [\<lparr>b_cap = 64, cells = map Some [10, 20, 30] @ replicate 61 None\<rparr>],
     current_buffer = 0, dq_cached_cons = 0\<rparr>"

theorem deque_fifo_witness:
  "\<exists>s :: nat dq_sys. dq_run s \<and> taken s = map Some [10, 20] \<and> dq_contents (dq s) = [Some 30] \<and> pushed s = [10, 20, 30]"
proof -
  have p: "push_room (dq dq_init) = Some (worker_new :: nat deque)" "push [10, 20, 30] (dq dq_init) = Some (demo_queue 0)" by code_simp+
  have "produced (worker_new :: nat deque) + length [10, 20, 30 :: nat] \<le> consumed (worker_new :: nat deque) + b_cap (cur_buf (worker_new :: nat deque))"
    by code_simp
  note r1 = push_run[OF dq_init_idle(1,2) p(2,1) this]
  have "steal_batch 8 (demo_queue 0) = Some (Success (map Some [10, 20]), demo_queue 2)" by code_simp
  note r2 = steal_batch_run[OF r1, of 0 8 "map Some [10, 20]" "demo_queue 2"]
  let ?s = "dq_init\<lparr>pushed := [10, 20, 30], dq := demo_queue 2, taken := map Some [10, 20]\<rparr> :: nat dq_sys"
  have "dq_run ?s" using r2 \<open>steal_batch 8 _ = _\<close> by (simp add: dq_init_idle)
  moreover from deque_fifo[OF this] have "dq_contents (dq ?s) = [Some 30]" by (simp add: dq_init_idle)
  ultimately show ?thesis by (intro exI[of _ ?s]) simp
qed

section \<open>Batches that do not fit\<close>

lemma push_fresh_split:
  assumes "64 < length task"
  shows "push task worker_new = map_option (\<lambda>cs. push_publish (length task) (set_cells cs worker_new))
     (copy_seg (map Some task) 64 0 (length task - 64) (map Some (take 64 task)))"
proof -
  have "push_room worker_new = Some (worker_new :: 'a deque)"
    by (simp add: push_room_def push_check_def worker_new_def cur_buf_def buffer_alloc_def MIN_CAP_def)
  moreover have "split_range (cur_buf (worker_new :: 'a deque)) 0 (length task) = (Some (0, 64), Some (0, length task - 64))"
    using assms by (auto simp: split_range_def worker_new_def cur_buf_def buffer_alloc_def MIN_CAP_def Let_def)
  moreover have "copy_seg (map Some task) 0 0 64 (replicate 64 None) = Some (map Some (take 64 task))"
    using assms by (simp add: copy_seg_def take_map)
  ultimately show ?thesis
    by (simp add: push_def push_copy_def worker_new_def cur_buf_def buffer_alloc_def MIN_CAP_def map_conv_bind_option comp_def)
qed

text \<open>
  A batch that is larger than the first buffer is not stored: pushing more than 128 targets into a new queue writes
  beyond the buffer, and of a batch of more than 64 the first targets are overwritten by its last ones, so that the
  first one taken is the 65th.
\<close>
theorem push_overruns:
  "(128 < length task \<longrightarrow> push task worker_new = None)
   \<and> (64 < length task \<and> length task \<le> 128 \<longrightarrow> (\<exists>d. push task worker_new = Some d \<and> fst (steal d) = Success (Some (task ! 64))))"
proof (intro conjI impI)
  show "push task worker_new = None" if "128 < length task" using that by (simp add: push_fresh_split copy_seg_def)
  show "\<exists>d. push task worker_new = Some d \<and> fst (steal d) = Success (Some (task ! 64))" if t: "64 < length task \<and> length task \<le> 128"
  proof -
    define cs where "cs = map Some (drop 64 task) @ drop (length task - 64) (map Some (take 64 task))"
    have "push task worker_new = Some (push_publish (length task) (set_cells cs worker_new))"
      using t by (auto simp: push_fresh_split copy_seg_def cs_def drop_map)
    moreover have "cs ! 0 = Some (task ! 64)" using t by (simp add: cs_def nth_append)
    ultimately show ?thesis using t
      by (auto simp: set_cells_def push_publish_def worker_new_def cur_buf_def steal_def steal_commit_def steal_cas_def buf_read_def buf_at_def)
  qed
qed

theorem push_overruns_witness:
  "push [0..<129] worker_new = None \<and> (\<exists>d. push [0..<65] worker_new = Some d \<and> fst (steal d) = Success (Some 64))"
  using push_overruns[of "[0..<129]"] push_overruns[of "[0..<65]"] by (simp del: upt_rec_numeral)

section \<open>Stealers that were overtaken\<close>

text \<open>Pushing and taking one element at a time moves both counters while another stealer still holds an old front.\<close>

lemma overtaken:
  "\<exists>s :: nat dq_sys. dq_run s \<and> wpc s = WIdle \<and> spc s = (\<lambda>_. SIdle)(1 := SFront 0) \<and> consumed (dq s) = k \<and> produced (dq s) = k
     \<and> b_cap (cur_buf (dq s)) = 64"
proof (induction k)
  case 0
  let ?s = "dq_init\<lparr>spc := (spc dq_init)(1 := SFront 0)\<rparr> :: nat dq_sys"
  have "dq_step dq_init ?s" using dq_step.s_front[of "dq_init :: nat dq_sys" 1] by (simp add: dq_init_idle worker_new_def)
  then have "dq_run ?s" by (rule dq_run_idle[OF dq_init_idle(1)]) (simp add: dq_init_idle)
  then show ?case by (intro exI[of _ ?s]) (auto simp: dq_init_def worker_new_def cur_buf_def buffer_alloc_def MIN_CAP_def)
next
  case (Suc k)
  then obtain s :: "nat dq_sys" where s: "dq_run s" "wpc s = WIdle" "spc s = (\<lambda>_. SIdle)(1 := SFront 0)"
    and c: "consumed (dq s) = k" "produced (dq s) = k" "b_cap (cur_buf (dq s)) = 64" by blast
  define d1 where "d1 = snd (push_check (dq s))"
  have r: "push_room (dq s) = Some d1" "consumed d1 = k" "produced d1 = k" "cur_buf d1 = cur_buf (dq s)"
    using c by (auto simp: push_room_def push_check_def d1_def Let_def cur_buf_def)
  have wf: "buf_wf (cur_buf d1)" using dq_run_ok[OF s(1)] r(4) dq_ok_cur by (auto simp: sys_ok_def)
  have cur: "current_buffer d1 < length (buffers d1)"
    using dq_run_ok[OF s(1)] by (auto simp: sys_ok_def dq_ok_def d1_def push_check_def Let_def)
  define d2 where "d2 = push_publish 1 (set_cells (ring_write (cells (cur_buf d1)) k [Some 0]) d1)"
  have "push_copy [0] d1 = Some (set_cells (ring_write (cells (cur_buf d1)) k [Some 0]) d1)"
    using push_copy_spec[OF wf, of "[0]"] c(3) r by simp
  then have p: "push [0] (dq s) = Some d2" using r(1) by (simp add: push_def d2_def)
  have d2: "consumed d2 = k" "produced d2 = Suc k" "b_cap (cur_buf d2) = 64"
    using r c cur by (simp_all add: d2_def push_publish_def set_cells_def cur_buf_def)
  have "produced d1 + length [0 :: nat] \<le> consumed d1 + b_cap (cur_buf d1)" using r c by simp
  note 1 = push_run[OF s(1,2) p r(1) this]
  then have "buf_wf (cur_buf d2)" using dq_run_ok[OF 1] dq_ok_cur by (auto simp: sys_ok_def)
  then obtain dest where "steal_copy k 1 (cur_buf d2) = Some dest" using steal_copy_spec[of "cur_buf d2" 1 k] d2 by simp
  then have "steal_batch 1 d2 = Some (Success dest, d2\<lparr>consumed := Suc k\<rparr>)"
    using d2 by (simp add: steal_batch_def steal_size_def steal_commit_def steal_cas_def cur_buf_def)
  then have "dq_run (s\<lparr>pushed := pushed s @ [0], dq := d2\<lparr>consumed := Suc k\<rparr>, taken := taken s @ dest\<rparr>)"
    using steal_batch_run[OF 1, of 0 1 dest] s by simp
  moreover have "cur_buf (d2\<lparr>consumed := Suc k\<rparr>) = cur_buf d2" by (simp add: cur_buf_def)
  ultimately show ?case using s d2 by (intro exI[of _ "s\<lparr>pushed := pushed s @ [0], dq := d2\<lparr>consumed := Suc k\<rparr>, taken := taken s @ dest\<rparr>"]) simp
qed

text \<open>
  A stealer that was overtaken reads beyond the buffer: between its two loads the queue can move on so far that the
  number of elements it believes to be there exceeds the buffer, and it copies them before the compare-and-swap
  would tell. This happens although every batch fits.
\<close>
theorem overtaken_steal_overreads:
  "\<exists>(s :: nat dq_sys) f n buf. dq_run s \<and> spc s 1 = SBuf f n buf \<and> steal_copy f n (buffers (dq s) ! buf) = None"
proof -
  obtain s :: "nat dq_sys" where s: "dq_run s" "wpc s = WIdle" "spc s = (\<lambda>_. SIdle)(1 := SFront 0)"
    and c: "consumed (dq s) = 257" "produced (dq s) = 257" "b_cap (cur_buf (dq s)) = 64" using overtaken by blast
  let ?s1 = "s\<lparr>spc := (\<lambda>_. SIdle)(1 := SSize 0 129)\<rparr>"
  let ?s2 = "s\<lparr>spc := (\<lambda>_. SIdle)(1 := SBuf 0 129 (current_buffer (dq s)))\<rparr>"
  have "dq_step s ?s1" using dq_step.s_size[of s 1 0 129 129] s(3) c by (simp add: steal_size_def)
  then have 1: "dq_run ?s1" using s by (auto intro: dq_run_idle)
  have "dq_step ?s1 ?s2" using dq_step.s_buf[of ?s1 1 0 129] by simp
  then have "dq_run ?s2" using s by (auto intro: dq_run_idle[OF 1])
  moreover have "buf_wf (cur_buf (dq s))" using dq_run_ok[OF s(1)] dq_ok_cur by (auto simp: sys_ok_def)
  then have "steal_copy 0 129 (cur_buf (dq s)) = None" using c by (simp add: steal_copy_def copy_seg_def buf_wf_def split: Option.bind_splits)
  ultimately show ?thesis by (intro exI[of _ ?s2]) (auto simp: cur_buf_def)
qed

section \<open>The queue as its users see it\<close>

text \<open>
  What the feeder and the scanners rely on: a queue with contents, a push that appends a batch that fits, and a steal
  that takes about half of the contents, as far as the capacity allows, from the front.
\<close>

locale batch_queue =
  fixes inv :: "'q \<Rightarrow> bool" and items :: "'q \<Rightarrow> 'a list" and fits :: "nat \<Rightarrow> 'q \<Rightarrow> bool"
    and put :: "'a list \<Rightarrow> 'q \<Rightarrow> 'q option" and get :: "nat \<Rightarrow> 'q \<Rightarrow> 'a list \<times> 'q"
  assumes put_items: "inv q \<Longrightarrow> fits (length xs) q \<Longrightarrow> \<exists>q'. put xs q = Some q' \<and> inv q' \<and> items q' = items q @ xs"
    and get_items: "inv q \<Longrightarrow> get c q = (xs, q') \<Longrightarrow> inv q' \<and> items q = xs @ items q' \<and> length xs \<le> c"
    and get_some: "inv q \<Longrightarrow> 0 < c \<Longrightarrow> items q \<noteq> [] \<Longrightarrow> fst (get c q) \<noteq> []"
begin

lemma drain:
  "inv q \<Longrightarrow> 0 < c \<Longrightarrow> \<exists>k q'. ((\<lambda>(ts, q). (ts @ fst (get c q), snd (get c q))) ^^ k) (ts, q) = (ts @ items q, q') \<and> inv q' \<and> items q' = []"
proof (induction "length (items q)" arbitrary: q ts rule: less_induct)
  case less
  show ?case
  proof (cases "items q = []")
    case True
    then show ?thesis using less(2) by (intro exI[of _ 0]) simp
  next
    case False
    obtain xs q1 where g: "get c q = (xs, q1)" by fastforce
    note i = get_items[OF less(2) g]
    have "xs \<noteq> []" using get_some[OF less(2,3) False] g by simp
    then have "length (items q1) < length (items q)" using i by simp
    from less(1)[OF this conjunct1[OF i] less(3), of "ts @ xs"]
    obtain k q' where "((\<lambda>(ts, q). (ts @ fst (get c q), snd (get c q))) ^^ k) (ts @ xs, q1) = ((ts @ xs) @ items q1, q')" "inv q'" "items q' = []"
      by blast
    then show ?thesis using i g by (intro exI[of _ "Suc k"] exI[of _ q']) (simp add: funpow_swap1)
  qed
qed

end

definition dq_valid :: "'a deque \<Rightarrow> bool" where
  "dq_valid d \<longleftrightarrow> (\<exists>xs. dq_ok d xs)"

definition dq_items :: "'a deque \<Rightarrow> 'a list" where
  "dq_items d = map the (dq_contents d)"

text \<open>A call of \<^verbatim>\<open>steal_batch\<close> that no other thread disturbs: the targets it leaves in the destination.\<close>

definition dq_get :: "nat \<Rightarrow> 'a deque \<Rightarrow> 'a list \<times> 'a deque" where
  "dq_get c d = (case steal_batch c d of Some (Success dest, d') \<Rightarrow> (map the dest, d') | _ \<Rightarrow> ([], d))"

interpretation dqi: batch_queue dq_valid dq_items dq_fits push dq_get
proof
  fix d :: "'b deque" and xs :: "'b list" assume "dq_valid d" "dq_fits (length xs) d"
  then show "\<exists>d'. push xs d = Some d' \<and> dq_valid d' \<and> dq_items d' = dq_items d @ xs"
    using push_contents by (fastforce simp: dq_valid_def dq_items_def comp_def)
next
  fix d d' :: "'b deque" and c :: nat and xs :: "'b list" assume v: "dq_valid d" and g: "dq_get c d = (xs, d')"
  let ?n = "steal_size c (consumed d) (produced d)"
  show "dq_valid d' \<and> dq_items d = xs @ dq_items d' \<and> length xs \<le> c"
  proof (cases "?n = 0")
    case True
    then show ?thesis using v g steal_batch_contents[of d _ c] by (auto simp: dq_valid_def dq_get_def)
  next
    case False
    then obtain ys where "dq_ok d ys" "\<exists>d'. steal_batch c d = Some (Success (take ?n (dq_contents d)), d') \<and> dq_ok d' ys
       \<and> dq_contents d' = drop ?n (dq_contents d)" using v steal_batch_contents[of d _ c] by (auto simp: dq_valid_def)
    then show ?thesis using g by (auto simp: dq_valid_def dq_get_def dq_items_def steal_size_def simp flip: map_append)
  qed
next
  fix d :: "'b deque" and c :: nat assume v: "dq_valid d" and c: "0 < (c :: nat)" and i: "dq_items d \<noteq> []"
  let ?n = "steal_size c (consumed d) (produced d)"
  have "dq_contents d \<noteq> []" using i by (simp add: dq_items_def)
  then have n: "?n \<noteq> 0" using c by (auto simp: steal_size_def dq_contents_def ring_read_def)
  then obtain d' where "steal_batch c d = Some (Success (take ?n (dq_contents d)), d')"
    using v steal_batch_contents[of d _ c] by (auto simp: dq_valid_def)
  then show "fst (dq_get c d) \<noteq> []" using n \<open>dq_contents d \<noteq> []\<close> by (simp add: dq_get_def)
qed

text \<open>A call of \<^verbatim>\<open>steal\<close> that no other thread disturbs takes the first element.\<close>

lemma steal_items:
  assumes "dq_valid d"
  shows "case dq_items d of
       [] \<Rightarrow> steal d = (Empty, d)
     | x # xs \<Rightarrow> \<exists>d'. steal d = (Success (Some x), d') \<and> dq_valid d' \<and> dq_items d' = xs"
proof -
  obtain xs where ok: "dq_ok d xs" using assms by (auto simp: dq_valid_def)
  have it: "dq_contents d = map Some (drop (consumed d) xs)" "dq_items d = drop (consumed d) xs"
    using dq_contents_ok[OF ok] by (simp_all add: dq_items_def comp_def)
  have len: "length xs = produced d" "consumed d \<le> produced d" using ok by (auto simp: dq_ok_def)
  show ?thesis
  proof (cases "produced d - consumed d = 0")
    case True
    then show ?thesis using it(2) len by (simp add: steal_def)
  next
    case False
    define d' where "d' = d\<lparr>consumed := consumed d + 1\<rparr>"
    have "buf_read (cur_buf d) (consumed d) = dq_drop d ! 0" using False by (simp add: dq_drop_def)
    then have "buf_read (cur_buf d) (consumed d) = Some (xs ! consumed d)"
      using dq_drop_contents[OF ok] it(1) False len by simp
    then have s: "steal d = (Success (Some (xs ! consumed d)), d')"
      using False by (simp add: steal_def Let_def steal_commit_def steal_cas_def cur_buf_def d'_def)
    have ok': "dq_ok d' xs" using ok False by (auto simp: dq_ok_def d'_def cur_buf_def elim!: cells_hold_mono)
    have "drop (consumed d) xs = xs ! consumed d # drop (consumed d') xs"
      using False len by (simp add: d'_def Cons_nth_drop_Suc)
    then show ?thesis using s ok' it(2) dq_contents_ok[OF ok'] by (auto simp: dq_valid_def dq_items_def comp_def)
  qed
qed

end
