(* ===== verification/Receiver.thy ===== *)
theory Receiver
  imports Umem
begin

text \<open>
  The receiver (\<^verbatim>\<open>controller/receiver.rs\<close>): the filling of the fill ring with the receiver's frames, the taking of a
  batch of received packets and the guard that hands out the packets and returns their frames. What the kernel
  shows at each access to the rings is an argument.

  The lemmas show that a batch hands out the packets of the receive ring in order and that every frame of the batch
  goes back to the kernel, whether or not all packets were looked at.
\<close>

section \<open>The receiver\<close>

record receiver =
  r_umem :: umem
  fr :: "u64 ring"
  rx :: "descriptor ring"
  rx_batch_size :: u32

definition XSK_UNALIGNED_BUF_OFFSET_SHIFT :: nat where "XSK_UNALIGNED_BUF_OFFSET_SHIFT = 48"

definition XSK_UNALIGNED_BUF_ADDR_MASK :: u64 where "XSK_UNALIGNED_BUF_ADDR_MASK = 0xFFFFFFFFFFFF"

datatype receive_error = Reserve_failed | Kick_failed

definition fill_frame :: "umem \<Rightarrow> u32 \<Rightarrow> u32 \<Rightarrow> u32 \<Rightarrow> u64 ring \<Rightarrow> u64 ring" where
  "fill_frame um index starting_frame i f = ring_index_mut f (index + i) (ucast ((starting_frame + i) * um_frame_size um))"

definition receiver_new :: "umem \<Rightarrow> u64 ring \<Rightarrow> descriptor ring \<Rightarrow> u32 \<Rightarrow> u32 \<Rightarrow> bool \<Rightarrow> receive_error + receiver" where
  "receiver_new um f r starting_frame batch recvfrom_ok =
     (let sz = ring_size f in
      case reserve f sz of
        (None, _) \<Rightarrow> Inl Reserve_failed
      | (Some index, f1) \<Rightarrow>
          (let f2 = fold (\<lambda>i. fill_frame um index starting_frame (word_of_nat i)) [0..<unat sz] f1;
               f3 = snd (submit f2 sz)
           in if \<not> recvfrom_ok then Inl Kick_failed
              else Inr \<lparr>r_umem = um, fr = f3, rx = r, rx_batch_size = batch\<rparr>))"

section \<open>Taking a batch\<close>

text \<open>The words of the rings and the outcome of the wake-up call as seen during one call.\<close>

record rx_obs =
  ro_rx_prod :: u32
  ro_fr_flags :: u32
  ro_fr_cons :: u32
  ro_recvfrom :: bool

record batch_guard =
  rx_start :: u32
  fill_start :: u32
  bg_count :: u32
  cursor :: u32

definition receive :: "rx_obs \<Rightarrow> receiver \<Rightarrow> (receive_error + batch_guard option) \<times> receiver" where
  "receive ob self =
     (let r1 = (rx self)\<lparr>prod_ctr := ro_rx_prod ob\<rparr>;
          f1 = (fr self)\<lparr>rflags := ro_fr_flags ob, cons_ctr := ro_fr_cons ob\<rparr>
      in case peek r1 (rx_batch_size self) of
           (None, r2) \<Rightarrow> (Inr None, self\<lparr>rx := r2, fr := f1\<rparr>)
         | (Some (start, n), r2) \<Rightarrow>
             if needs_wakeup (rflags f1) \<and> \<not> ro_recvfrom ob
             then (Inl Kick_failed, self\<lparr>rx := unpeek r2 n, fr := f1\<rparr>)
             else (case reserve f1 n of
                     (None, f2) \<Rightarrow> (Inl Reserve_failed, self\<lparr>rx := unpeek r2 n, fr := f2\<rparr>)
                   | (Some fill, f2) \<Rightarrow>
                       (Inr (Some \<lparr>rx_start = start, fill_start = fill, bg_count = n, cursor = 0\<rparr>),
                        self\<lparr>rx := r2, fr := f2\<rparr>)))"

definition comp_addr :: "descriptor \<Rightarrow> u64" where
  "comp_addr desc = d_addr desc AND XSK_UNALIGNED_BUF_ADDR_MASK"

definition give_back :: "u32 \<Rightarrow> batch_guard \<Rightarrow> receiver \<Rightarrow> receiver" where
  "give_back i g self = self\<lparr>fr := ring_index_mut (fr self) (fill_start g + i) (comp_addr (ring_index (rx self) (rx_start g + i)))\<rparr>"

text \<open>The slice of a packet is its offset in the packet memory and its length.\<close>

definition bg_next :: "batch_guard \<Rightarrow> receiver \<Rightarrow> ((nat \<times> nat) \<times> batch_guard \<times> receiver) option" where
  "bg_next g self =
     (if cursor g \<ge> bg_count g then None
      else (let desc = ring_index (rx self) (rx_start g + cursor g);
                addr = unat (drop_bit XSK_UNALIGNED_BUF_OFFSET_SHIFT (d_addr desc)) + unat (comp_addr desc)
            in Some ((addr, unat (d_len desc)), g\<lparr>cursor := cursor g + 1\<rparr>, give_back (cursor g) g self)))"

definition bg_drop :: "batch_guard \<Rightarrow> usize \<Rightarrow> receiver \<Rightarrow> usize \<times> receiver" where
  "bg_drop g filled self =
     (let self = fold (\<lambda>i. give_back (word_of_nat i) g) [unat (cursor g)..<unat (bg_count g)] self;
          self = self\<lparr>rx := snd (release (rx self) (bg_count g))\<rparr>;
          self = self\<lparr>fr := snd (submit (fr self) (bg_count g))\<rparr>
      in (filled + ucast (cursor g), self))"

section \<open>Writing consecutive slots\<close>

definition put_slots :: "u32 \<Rightarrow> (nat \<Rightarrow> 't) \<Rightarrow> nat list \<Rightarrow> 't ring \<Rightarrow> 't ring" where
  "put_slots start f is r = fold (\<lambda>i r. ring_index_mut r (start + word_of_nat i) (f i)) is r"

lemma put_slots_frame: "\<exists>sl. put_slots start f is r = r\<lparr>slots := sl\<rparr> \<and> length sl = length (slots r)"
proof (induction "is" arbitrary: r)
  case Nil
  show ?case by (auto simp: put_slots_def intro: exI[of _ "slots r"])
next
  case (Cons i "is")
  from Cons[of "ring_index_mut r (start + word_of_nat i) (f i)"] show ?case by (auto simp: put_slots_def ring_index_mut_def)
qed

lemma put_slots_read:
  assumes wf: "ring_wf r" and n: "n \<le> unat (ring_size r)" and k: "k < n"
  shows "ring_index (put_slots start f [0..<n] r) (start + word_of_nat k) = f k"
  using n k
proof (induction n)
  case (Suc n)
  obtain sl where p: "put_slots start f [0..<n] r = r\<lparr>slots := sl\<rparr>" "length sl = length (slots r)"
    using put_slots_frame by blast
  have s: "slot_of r (start + word_of_nat j) = (unat start + j) mod unat (ring_size r)" for j
    using slot_of_nat[OF wf, of "unat start + j"] by simp
  have e: "put_slots start f [0..<Suc n] r = r\<lparr>slots := sl[slot_of r (start + word_of_nat n) := f n]\<rparr>"
    using p(1) by (simp add: put_slots_def ring_index_mut_def slot_of_def)
  have lt: "slot_of r (start + word_of_nat j) < length sl" for j
    using wf p(2) unfolding s by (simp add: ring_wf_def)
  show ?case
  proof (cases "k = n")
    case True
    then show ?thesis using lt unfolding e by (simp add: ring_index_def slot_of_def)
  next
    case False
    then have "k < n" using Suc(3) by simp
    then have "ring_index (r\<lparr>slots := sl\<rparr>) (start + word_of_nat k) = f k" using Suc p(1) by simp
    moreover have "slot_of r (start + word_of_nat k) \<noteq> slot_of r (start + word_of_nat n)"
      unfolding s using mod_neq_window[of "unat start + k" "unat start + n" "unat (ring_size r)"] \<open>k < n\<close> Suc(2) by simp
    ultimately show ?thesis unfolding e by (simp add: ring_index_def slot_of_def)
  qed
qed simp

lemma put_slots_append: "put_slots start f (is @ js) r = put_slots start f js (put_slots start f is r)"
  by (simp add: put_slots_def)

section \<open>Batches\<close>

fun bg_take :: "nat \<Rightarrow> batch_guard \<Rightarrow> receiver \<Rightarrow> (nat \<times> nat) list \<times> batch_guard \<times> receiver" where
  "bg_take 0 g self = ([], g, self)"
| "bg_take (Suc n) g self =
     (case bg_next g self of
        None \<Rightarrow> ([], g, self)
      | Some (x, g', self') \<Rightarrow> (case bg_take n g' self' of (xs, r) \<Rightarrow> (x # xs, r)))"

definition packet_at :: "descriptor ring \<Rightarrow> u32 \<Rightarrow> nat \<times> nat" where
  "packet_at r i = (unat (drop_bit 48 (d_addr (ring_index r i))) + unat (comp_addr (ring_index r i)), unat (d_len (ring_index r i)))"

lemma give_backs:
  "fold (\<lambda>i. give_back (word_of_nat i) g) is self
     = self\<lparr>fr := put_slots (fill_start g) (\<lambda>i. comp_addr (ring_index (rx self) (rx_start g + word_of_nat i))) is (fr self)\<rparr>"
proof (induction "is" arbitrary: self)
  case Nil
  show ?case by (simp add: put_slots_def)
next
  case (Cons i "is")
  show ?case by (simp only: fold_simps o_apply Cons) (simp add: give_back_def put_slots_def)
qed

lemma bg_take_spec:
  assumes "unat (cursor g) + n \<le> unat (bg_count g)"
  shows "bg_take n g self = (map (\<lambda>i. packet_at (rx self) (rx_start g + word_of_nat i)) [unat (cursor g)..<unat (cursor g) + n],
     g\<lparr>cursor := cursor g + word_of_nat n\<rparr>,
     fold (\<lambda>i. give_back (word_of_nat i) g) [unat (cursor g)..<unat (cursor g) + n] self)"
  using assms
proof (induction n arbitrary: g self)
  case (Suc n)
  let ?g = "g\<lparr>cursor := cursor g + 1\<rparr>"
  have c: "unat (cursor g + 1) = unat (cursor g) + 1"
    using Suc(2) unat_bounds(3)[of "bg_count g"] by (simp add: unat_word_ariths)
  have up: "[unat (cursor g)..<unat (cursor g) + Suc n] = unat (cursor g) # [unat (cursor g) + 1..<unat (cursor g) + 1 + n]"
    by (simp add: upt_rec)
  have gb: "give_back i ?g = give_back i g" for i by (simp add: give_back_def fun_eq_iff)
  have "\<not> cursor g \<ge> bg_count g" using Suc(2) by (simp add: word_le_nat_alt)
  then have "bg_next g self = Some (packet_at (rx self) (rx_start g + cursor g), ?g, give_back (cursor g) g self)"
    by (simp add: bg_next_def Let_def packet_at_def XSK_UNALIGNED_BUF_OFFSET_SHIFT_def)
  moreover have "rx (give_back i g self) = rx self" for i by (simp add: give_back_def)
  ultimately show ?case
    using Suc(1)[of ?g "give_back (cursor g) g self"] Suc(2) c unfolding up by (simp add: gb)
qed simp


lemma reserve_prod: "prod_ctr (snd (reserve r n)) = prod_ctr r"
  by (simp add: reserve_def free_def Let_def split: prod.split)

text \<open>
  C25. Received frames are recycled: a batch hands out the packets of the receive ring in order, and when its guard is
  dropped after any number of them, the fill ring has got, in order, the frame of every packet of the batch, both
  rings have advanced by the size of the batch and the counter by the number of packets handed out.
\<close>
theorem receive_recycles:
  assumes wf: "producer_ok ((fr self)\<lparr>rflags := ro_fr_flags ob, cons_ctr := ro_fr_cons ob\<rparr>) C' C P R"
    and r: "receive ob self = (Inr (Some g), self1)"
    and n: "n \<le> unat (bg_count g)"
    and t: "bg_take n g self1 = (ps, g2, self2)" and d: "bg_drop g2 filled self2 = (filled', self3)"
  shows "ps = map (\<lambda>j. packet_at (rx self1) (rx_start g + word_of_nat j)) [0..<n]
     \<and> (\<forall>j < unat (bg_count g). ring_index (fr self3) (fill_start g + word_of_nat j)
          = comp_addr (ring_index (rx self1) (rx_start g + word_of_nat j)))
     \<and> prod_ctr (fr self3) = prod_ctr (fr self) + bg_count g
     \<and> cons_ctr (rx self3) = cons_ctr (rx self) + bg_count g
     \<and> filled' = filled + word_of_nat n"
proof -
  let ?f1 = "(fr self)\<lparr>rflags := ro_fr_flags ob, cons_ctr := ro_fr_cons ob\<rparr>"
  obtain r2 where p: "peek ((rx self)\<lparr>prod_ctr := ro_rx_prod ob\<rparr>) (rx_batch_size self) = (Some (rx_start g, bg_count g), r2)"
    and f: "reserve ?f1 (bg_count g) = (Some (fill_start g), fr self1)"
    and s: "rx self1 = r2" "cursor g = 0"
    using r by (auto simp: receive_def Let_def split: prod.splits option.splits if_splits)
  have r2: "cons_ctr r2 = cons_ctr (rx self)"
    using p by (auto simp: peek_def available_def Let_def split: if_splits)
  have f1: "ring_wf (fr self1)" "unat (bg_count g) \<le> unat (ring_size (fr self1))" "prod_ctr (fr self1) = prod_ctr (fr self)"
  proof -
    have "P \<le> R" using wf by (simp add: producer_ok_def)
    then show "ring_wf (fr self1)" "unat (bg_count g) \<le> unat (ring_size (fr self1))"
      using reserve_spec[OF wf f] by (auto simp: producer_ok_def)
    show "prod_ctr (fr self1) = prod_ctr (fr self)" using reserve_prod[of ?f1 "bg_count g"] f by simp
  qed
  let ?fa = "\<lambda>i. comp_addr (ring_index (rx self1) (rx_start g + word_of_nat i))"
  have ps: "ps = map (\<lambda>j. packet_at (rx self1) (rx_start g + word_of_nat j)) [0..<n]"
    and g2: "g2 = g\<lparr>cursor := word_of_nat n\<rparr>"
    and s2: "self2 = self1\<lparr>fr := put_slots (fill_start g) ?fa [0..<n] (fr self1)\<rparr>"
    using bg_take_spec[of g n self1] t n s(2) by (simp_all add: give_backs)
  have un: "unat (word_of_nat n :: u32) = n" using n unat_bounds(3)[of "bg_count g"] by (subst unat_of_nat) simp
  have "[0..<unat (bg_count g)] = [0..<n] @ [n..<unat (bg_count g)]" using n by (metis le_Suc_ex less_eq_nat.simps(1) upt_add_eq_append)
  then have s3: "fr self3 = snd (submit (put_slots (fill_start g) ?fa [0..<unat (bg_count g)] (fr self1)) (bg_count g))"
    "rx self3 = snd (release (rx self1) (bg_count g))" "filled' = filled + ucast (word_of_nat n :: u32)"
    using d un by (auto simp: bg_drop_def Let_def g2 s2 give_backs put_slots_append)
  obtain sl where sl: "put_slots (fill_start g) ?fa [0..<unat (bg_count g)] (fr self1) = (fr self1)\<lparr>slots := sl\<rparr>"
    using put_slots_frame by blast
  have "ring_index (fr self3) i = ring_index (put_slots (fill_start g) ?fa [0..<unat (bg_count g)] (fr self1)) i" for i
    by (simp add: s3 submit_def ring_index_def slot_of_def)
  then have "ring_index (fr self3) (fill_start g + word_of_nat j) = ?fa j" if "j < unat (bg_count g)" for j
    using put_slots_read[OF f1(1,2) that, of "fill_start g" ?fa] by simp
  moreover have "ucast (word_of_nat n :: u32) = (word_of_nat n :: usize)" using un by (metis of_nat_unat)
  ultimately show ?thesis using ps s3 s r2 f1(3) sl by (simp add: submit_def release_def)
qed


section \<open>The frames of a new receiver\<close>

lemma receiver_new_frames:
  assumes f: "f = ring_new Fill sz mem p c fl" and wf: "ring_wf f"
    and e: "receiver_new um f r start batch ok = Inr self"
    and fit: "(unat start + unat sz) * unat (um_frame_size um) < 2 ^ 32" and fs: "0 < unat (um_frame_size um)"
  shows "ring_size (fr self) = sz" and "prod_ctr (fr self) = p + sz"
    and "k < unat sz \<Longrightarrow> unat (ring_index (fr self) (word_of_nat k)) = (unat start + k) * unat (um_frame_size um)"
proof -
  let ?fa = "\<lambda>i. ucast ((start + word_of_nat i) * um_frame_size um) :: u64"
  have sz: "ring_size f = sz" by (simp add: f ring_new_def)
  have "reserve f sz = (Some 0, f\<lparr>cached_prod := sz\<rparr>)" by (simp add: f ring_new_def reserve_def free_def)
  moreover have "(\<lambda>i. fill_frame um 0 start (word_of_nat i)) = (\<lambda>i r. ring_index_mut r (0 + word_of_nat i) (?fa i))"
    by (simp add: fill_frame_def fun_eq_iff)
  ultimately have s: "fr self = snd (submit (put_slots 0 ?fa [0..<unat sz] (f\<lparr>cached_prod := sz\<rparr>)) sz)"
    using e sz by (auto simp: receiver_new_def Let_def put_slots_def split: if_splits)
  obtain sl where sl: "put_slots 0 ?fa [0..<unat sz] (f\<lparr>cached_prod := sz\<rparr>) = f\<lparr>cached_prod := sz\<rparr>\<lparr>slots := sl\<rparr>"
    using put_slots_frame by blast
  show "ring_size (fr self) = sz" "prod_ctr (fr self) = p + sz" using s sl by (simp_all add: submit_def f ring_new_def)
  assume k: "k < unat sz"
  have "ring_index (fr self) (0 + word_of_nat k) = ?fa k"
    using put_slots_read[of "f\<lparr>cached_prod := sz\<rparr>" "unat sz" k 0 ?fa] k wf sz
    by (simp add: s submit_def ring_index_def slot_of_def ring_wf_def)
  moreover have "unat ((start + word_of_nat k) * um_frame_size um) = (unat start + k) * unat (um_frame_size um)"
  proof -
    have "(unat start + k) * unat (um_frame_size um) \<le> (unat start + unat sz) * unat (um_frame_size um)"
      using k by (intro mult_le_mono1) simp
    moreover have "unat start + k \<le> (unat start + k) * unat (um_frame_size um)" using fs by simp
    ultimately have lt: "(unat start + k) * unat (um_frame_size um) < 2 ^ 32" "unat start + k < 2 ^ 32"
      using fit by linarith+
    then have "unat (word_of_nat (unat start + k) :: u32) = unat start + k" by (subst unat_of_nat) simp
    with lt(1) show ?thesis by (subst unat_word_ariths(2)) simp
  qed
  ultimately show "unat (ring_index (fr self) (word_of_nat k)) = (unat start + k) * unat (um_frame_size um)"
    using unat_bounds(3)[of "(start + word_of_nat k) * um_frame_size um"] by (simp add: unat_ucast_mod)
qed

section \<open>A concrete receiver\<close>

definition demo_receiver :: receiver where
  "demo_receiver = \<lparr>r_umem = \<lparr>um_area = 0, um_size = 8192, um_frame_size = 2048\<rparr>,
     fr = (ring_new Fill 2 [2048, 0] 2 0 0)\<lparr>cached_prod := 2\<rparr>,
     rx = ring_new Rx 2 [\<lparr>d_addr = 2048, d_len = 60, d_options = 0\<rparr>, \<lparr>d_addr = 0, d_len = 62, d_options = 0\<rparr>] 0 0 0,
     rx_batch_size = 4\<rparr>"

definition demo_rx_obs :: rx_obs where
  "demo_rx_obs = \<lparr>ro_rx_prod = 2, ro_fr_flags = 1, ro_fr_cons = 2, ro_recvfrom = True\<rparr>"

theorem receive_recycles_witness:
  "\<exists>g self1 g2 self2 filled' self3. receive demo_rx_obs demo_receiver = (Inr (Some g), self1)
     \<and> bg_take 1 g self1 = ([(2048, 60)], g2, self2) \<and> bg_drop g2 7 self2 = (filled', self3)
     \<and> ring_index (fr self3) 2 = 2048 \<and> ring_index (fr self3) 3 = 0 \<and> prod_ctr (fr self3) = 4 \<and> filled' = 8"
proof -
  let ?f = "(fr demo_receiver)\<lparr>rflags := ro_fr_flags demo_rx_obs, cons_ctr := ro_fr_cons demo_rx_obs\<rparr>"
  have wf: "producer_ok ?f 0 2 2 2"
    by (simp add: producer_ok_def demo_receiver_def ring_new_def ring_wf_def demo_rx_obs_def)
  define g where "g = \<lparr>rx_start = 0, fill_start = 2, bg_count = 2, cursor = 0\<rparr>"
  have "\<exists>self1. receive demo_rx_obs demo_receiver = (Inr (Some g), self1) \<and> slots (rx self1) = slots (rx demo_receiver)
      \<and> ring_size (rx self1) = 2"
    by (simp add: g_def receive_def demo_rx_obs_def demo_receiver_def ring_new_def peek_def available_def reserve_def free_def Let_def)
  then obtain self1 where r: "receive demo_rx_obs demo_receiver = (Inr (Some g), self1)"
    and s1: "slots (rx self1) = slots (rx demo_receiver)" "ring_size (rx self1) = 2" by blast
  obtain ps g2 self2 where t: "bg_take 1 g self1 = (ps, g2, self2)" by (metis prod_cases3)
  obtain filled' self3 where d: "bg_drop g2 7 self2 = (filled', self3)" by fastforce
  have c: "unat (bg_count g) = 2" by (simp add: g_def)
  have n: "1 \<le> unat (bg_count g)" using c by simp
  have ix: "ring_index (rx self1) 0 = \<lparr>d_addr = 2048, d_len = 60, d_options = 0\<rparr>"
    "ring_index (rx self1) 1 = \<lparr>d_addr = 0, d_len = 62, d_options = 0\<rparr>"
    using s1 by (simp_all add: ring_index_def slot_of_def demo_receiver_def ring_new_def)
  note m = receive_recycles[OF wf r n t d, unfolded c]
  have fl: "ring_index (fr self3) (2 + word_of_nat j) = comp_addr (ring_index (rx self1) (word_of_nat j))" if "j < 2" for j
    using m that by (simp add: g_def)
  have "ring_index (fr self3) 2 = 2048" "ring_index (fr self3) 3 = 0"
    using fl[of 0] fl[of 1] ix by (simp_all add: comp_addr_def XSK_UNALIGNED_BUF_ADDR_MASK_def)
  moreover have "ps = [(2048, 60)]"
    using m ix by (simp add: g_def packet_at_def comp_addr_def XSK_UNALIGNED_BUF_ADDR_MASK_def)
  ultimately show ?thesis
    using m r t d by (simp add: g_def demo_receiver_def ring_new_def)
qed

end
