(* ===== verification/Minecraft.thy ===== *)
theory Minecraft
  imports Farsight_Prelude
begin

text \<open>
  The application protocol of \<^verbatim>\<open>src/farsight/src/controller/protocol/\<close>: the variable-length integers, the status
  request and the status parser of \<^verbatim>\<open>minecraft.rs\<close>. A cursor over bytes is the list of bytes still unread; an
  \<^verbatim>\<open>i32\<close> is a 32-bit word read with \<^const>\<open>sint\<close> where its sign matters. The text conversion of the standard
  library is modelled, the JSON check of \<^verbatim>\<open>serde_json\<close> is the parameter \<open>json_ok\<close>.

  The lemmas show that the integers round-trip, that verdicts of the parser are final, that complete answers
  are accepted and cut ones are not rejected, and that a request is framed as the protocol wants it.
\<close>

section \<open>Parser results\<close>

datatype parse_error = Invalid | Incomplete

section \<open>Variable-length integers\<close>

lemma bit_80: "bit (0x80 :: u8) n \<longleftrightarrow> n = 7" "bit (0x80 :: int) n \<longleftrightarrow> n = 7" "bit (0x80 :: nat) n \<longleftrightarrow> n = 7"
  using bit_exp_iff[of 7 n, where 'a = u8] bit_exp_iff[of 7 n, where 'a = int] bit_exp_iff[of 7 n, where 'a = nat]
  by auto

lemma masks7: "(0x7F :: i32) = mask 7" "(0x7F :: u8) = mask 7" "(0x01FFFFFF :: i32) = mask 25"
  by (simp_all add: mask_eq_exp_minus_1)

lemma drop7_logical: "signed_drop_bit 7 v AND 0x01FFFFFF = (drop_bit 7 v :: i32)"
  unfolding masks7 by (intro bit_word_eqI) (auto simp: bit_simps dest: bit_imp_le_length)

lemma unat_drop7: "unat (drop_bit 7 (v :: i32)) = unat v div 128"
  unfolding unat_drop_bit_eq by (simp add: drop_bit_eq_div)

lemma low7_byte: "ucast ((ucast (v AND 0x7F) :: u8) AND 0x7F) = (v AND 0x7F :: i32)"
  unfolding masks7 by (intro bit_word_eqI) (auto simp: bit_simps)

lemma low7_cont: "((b :: u8) OR 0x80) AND 0x7F = b AND 0x7F"
  unfolding masks7 by (intro bit_word_eqI) (auto simp: bit_simps bit_80)

lemma high_bit_clear: "(ucast (v AND 0x7F :: i32) :: u8) AND 0x80 = 0"
  unfolding masks7 by (intro bit_word_eqI) (auto simp: bit_simps bit_80)

lemma high_bit_set: "((b :: u8) OR 0x80) AND 0x80 \<noteq> 0"
proof -
  have "bit ((b OR 0x80) AND 0x80) 7" by (simp add: bit_simps bit_80)
  then show ?thesis by (metis bit_0_eq bot_apply bot_bool_def)
qed

lemma join7: "push_bit n (v AND 0x7F) OR push_bit (n + 7) (drop_bit 7 v) = push_bit n (v :: i32)"
  unfolding masks7
proof (intro bit_word_eqI)
  fix k assume "k < LENGTH(32)"
  then show "bit (push_bit n (v AND mask 7) OR push_bit (n + 7) (drop_bit 7 v)) k = bit (push_bit n v) k"
    by (cases "k < n + 7") (auto simp: bit_simps)
qed

function write_varint_loop :: "i32 \<Rightarrow> bytes" where
  "write_varint_loop v =
     (if v = 0 then []
      else (let b = ucast (v AND 0x7F) :: u8;
                v' = signed_drop_bit 7 v AND 0x01FFFFFF;
                b' = (if v' \<noteq> 0 then b OR 0x80 else b)
            in b' # write_varint_loop v'))"
  by pat_completeness auto
termination
  by (relation "measure unat")
    (auto simp: drop7_logical unat_drop7 unat_gt_0 intro!: div_less_dividend)

declare write_varint_loop.simps [simp del]

definition write_varint :: "bytes \<Rightarrow> i32 \<Rightarrow> bytes" where
  "write_varint writer value = writer @ (if value = 0 then [0] else []) @ write_varint_loop value"

function read_varint_loop :: "nat \<Rightarrow> i32 \<Rightarrow> bytes \<Rightarrow> parse_error + i32 \<times> bytes" where
  "read_varint_loop i ans reader =
     (if i < 5 then
        (case reader of
           [] \<Rightarrow> Inl Incomplete
         | b # reader' \<Rightarrow>
             (let ans' = ans OR push_bit (7 * i) (ucast (b AND 0x7F)) in
              if b AND 0x80 = 0 then Inr (ans', reader')
              else read_varint_loop (i + 1) ans' reader'))
      else Inr (ans, reader))"
  by pat_completeness auto
termination
  by (relation "measure (\<lambda>(i, _, _). 5 - i)") auto

declare read_varint_loop.simps [simp del]

definition read_varint :: "bytes \<Rightarrow> parse_error + i32 \<times> bytes" where
  "read_varint reader = read_varint_loop 0 0 reader"


section \<open>Lossy conversion to text\<close>

text \<open>
  \<^verbatim>\<open>String::from_utf8_lossy\<close> of the standard library, on the bytes of the resulting string: the next character
  at the head of the bytes, or the length of the broken sequence that is replaced by U+FFFD.
\<close>

definition safe_get :: "bytes \<Rightarrow> nat \<Rightarrow> u8" where
  "safe_get bs i = (if i < length bs then bs ! i else 0)"

definition in_range8 :: "u8 \<Rightarrow> u8 \<Rightarrow> u8 \<Rightarrow> bool" where
  "in_range8 lo b hi \<longleftrightarrow> lo \<le> b \<and> b \<le> hi"

definition continuation :: "bytes \<Rightarrow> nat \<Rightarrow> bool" where
  "continuation bs i \<longleftrightarrow> safe_get bs i AND 0xC0 = 0x80"

definition utf8_char :: "bytes \<Rightarrow> bool \<times> nat" where
  "utf8_char bs =
     (let b = safe_get bs 0; c = safe_get bs 1 in
      if b < 0x80 then (True, 1)
      else if in_range8 0xC2 b 0xDF then (if continuation bs 1 then (True, 2) else (False, 1))
      else if in_range8 0xE0 b 0xEF then
        (if (b = 0xE0 \<and> in_range8 0xA0 c 0xBF) \<or> (in_range8 0xE1 b 0xEC \<and> in_range8 0x80 c 0xBF)
            \<or> (b = 0xED \<and> in_range8 0x80 c 0x9F) \<or> (in_range8 0xEE b 0xEF \<and> in_range8 0x80 c 0xBF)
         then (if continuation bs 2 then (True, 3) else (False, 2))
         else (False, 1))
      else if in_range8 0xF0 b 0xF4 then
        (if (b = 0xF0 \<and> in_range8 0x90 c 0xBF) \<or> (in_range8 0xF1 b 0xF3 \<and> in_range8 0x80 c 0xBF)
            \<or> (b = 0xF4 \<and> in_range8 0x80 c 0x8F)
         then (if continuation bs 2 then (if continuation bs 3 then (True, 4) else (False, 3)) else (False, 2))
         else (False, 1))
      else (False, 1))"

lemma utf8_char_pos: "0 < snd (utf8_char bs)"
  by (simp add: utf8_char_def Let_def)

function from_utf8_lossy :: "bytes \<Rightarrow> bytes" where
  "from_utf8_lossy bs =
     (if bs = [] then []
      else (let (ok, n) = utf8_char bs in
            (if ok then take n bs else [0xEF, 0xBF, 0xBD]) @ from_utf8_lossy (drop n bs)))"
  by pat_completeness auto
termination
proof (relation "measure length", goal_cases)
  case (2 bs x ok n)
  then have "n = snd (utf8_char bs)" by (metis snd_conv)
  then show ?case using 2 utf8_char_pos[of bs] by (cases bs) auto
qed simp

declare from_utf8_lossy.simps [simp del]

function utf8_valid :: "bytes \<Rightarrow> bool" where
  "utf8_valid bs \<longleftrightarrow>
     (if bs = [] then True
      else (let (ok, n) = utf8_char bs in ok \<and> n \<le> length bs \<and> utf8_valid (drop n bs)))"
  by pat_completeness auto
termination
proof (relation "measure length", goal_cases)
  case (2 bs x ok n)
  then have "n = snd (utf8_char bs)" by (metis snd_conv)
  then show ?case using 2 utf8_char_pos[of bs] by (cases bs) auto
qed simp

declare utf8_valid.simps [simp del]

section \<open>The status parser\<close>

text \<open>
  \<^verbatim>\<open>SLPParser::parse\<close>. Whether the status is JSON is decided by \<^verbatim>\<open>serde_json\<close>, the parameter \<open>json_ok\<close>.
  The resulting string is given by its bytes.
\<close>

definition slp_parse :: "(bytes \<Rightarrow> bool) \<Rightarrow> bytes \<Rightarrow> parse_error + bytes" where
  "slp_parse json_ok data =
     (case read_varint data of
        Inl e \<Rightarrow> Inl e
      | Inr (_, stream) \<Rightarrow>
     (case read_varint stream of
        Inl e \<Rightarrow> Inl e
      | Inr (packet_id, stream) \<Rightarrow>
     (case read_varint stream of
        Inl e \<Rightarrow> Inl e
      | Inr (response_length, status_buffer) \<Rightarrow>
          if packet_id \<noteq> 0 \<or> sint response_length \<le> 0 then Inl Invalid
          else if length status_buffer < unat response_length then Inl Incomplete
          else (let status_buffer' = take (unat response_length) status_buffer in
                if json_ok status_buffer' then Inr (from_utf8_lossy status_buffer') else Inl Invalid))))"

section \<open>The status request\<close>

definition build_latest_request :: "bytes \<Rightarrow> u16 \<Rightarrow> i32 \<Rightarrow> bytes" where
  "build_latest_request hostname port protocol_version =
     (let buffer = [0x00];
          buffer = write_varint buffer protocol_version;
          buffer = write_varint buffer (word_of_nat (length hostname));
          buffer = buffer @ hostname;
          buffer = buffer @ [ucast (drop_bit 8 port), ucast (port AND 0xFF), 0x01];
          full_buffer = write_varint [] (word_of_nat (length buffer));
          full_buffer = full_buffer @ buffer
      in full_buffer @ [1, 0x00])"

section \<open>Round trips\<close>

lemma write_varint_loop_step:
  assumes "v \<noteq> 0"
  shows "write_varint_loop v =
     (if drop_bit 7 v \<noteq> 0 then (ucast (v AND 0x7F) OR 0x80) # write_varint_loop (drop_bit 7 v)
      else [ucast (v AND 0x7F)])"
  using assms by (subst write_varint_loop.simps) (auto simp: Let_def drop7_logical write_varint_loop.simps[of 0])

lemma read_write_varint_loop:
  assumes "v \<noteq> 0" and "i < 5" and "unat v < 2 ^ (32 - 7 * i)"
  shows "read_varint_loop i ans (write_varint_loop v @ rest) = Inr (ans OR push_bit (7 * i) v, rest)"
  using assms
proof (induction v arbitrary: i ans rule: write_varint_loop.induct)
  case (1 v)
  let ?d = "drop_bit 7 v"
  show ?case
  proof (cases "?d = 0")
    case True
    then have "push_bit (7 * i) v = push_bit (7 * i) (v AND 0x7F)"
      using join7[of "7 * i" v] by simp
    then show ?thesis using True 1(2,3)
      by (simp add: write_varint_loop_step read_varint_loop.simps[of i] high_bit_clear low7_byte)
  next
    case False
    then have "0 < unat v div 128" using unat_drop7[of v] by (simp add: unat_gt_0 flip: unat_drop7)
    then have "128 \<le> unat v" by (simp add: div_greater_zero_iff)
    then have i: "i + 1 < 5" using 1(3,4) by (cases "i = 4") auto
    have "unat ?d < 2 ^ (32 - 7 * (i + 1))"
    proof -
      have "(2 :: nat) ^ (32 - 7 * i) = 2 ^ (32 - 7 * (i + 1)) * 128"
        using i power_add[of "2 :: nat" "32 - 7 * (i + 1)" 7] by simp
      then show ?thesis using 1(4) unat_drop7[of v] by (simp add: less_mult_imp_div_less)
    qed
    then have "read_varint_loop (i + 1) (ans OR push_bit (7 * i) (v AND 0x7F)) (write_varint_loop ?d @ rest)
        = Inr ((ans OR push_bit (7 * i) (v AND 0x7F)) OR push_bit (7 * (i + 1)) ?d, rest)"
      using 1(1)[OF 1(2) refl refl refl, unfolded drop7_logical] False i by blast
    moreover have "push_bit (7 * i) (v AND 0x7F) OR push_bit (7 * (i + 1)) ?d = push_bit (7 * i) v"
      using join7[of "7 * i" v] by (simp add: algebra_simps)
    ultimately show ?thesis using False 1(2,3)
      by (simp add: write_varint_loop_step read_varint_loop.simps[of i] high_bit_set low7_cont low7_byte or.assoc)
  qed
qed


lemma read_write_varint: "read_varint (write_varint [] v @ rest) = Inr (v, rest)"
proof (cases "v = 0")
  case True
  then show ?thesis
    by (simp add: read_varint_def write_varint_def write_varint_loop.simps[of 0] read_varint_loop.simps[of 0])
next
  case False
  then show ?thesis
    using read_write_varint_loop[of v 0 0 rest] unat_bounds(3)[of v]
    by (simp add: read_varint_def write_varint_def)
qed

lemma write_varint_append: "write_varint w v = w @ write_varint [] v"
  by (simp add: write_varint_def)

lemma read_varint_loop_append:
  "read_varint_loop i ans bs = Inr (v, r) \<Longrightarrow> read_varint_loop i ans (bs @ cs) = Inr (v, r @ cs)"
proof (induction i ans bs rule: read_varint_loop.induct)
  case (1 i ans bs)
  then show ?case
    by (cases bs) (auto simp: Let_def read_varint_loop.simps[of i] split: if_splits)
qed

lemma read_varint_append: "read_varint bs = Inr (v, r) \<Longrightarrow> read_varint (bs @ cs) = Inr (v, r @ cs)"
  by (simp add: read_varint_def read_varint_loop_append)

lemma read_varint_loop_error: "read_varint_loop i ans bs = Inl e \<Longrightarrow> e = Incomplete"
proof (induction i ans bs rule: read_varint_loop.induct)
  case (1 i ans bs)
  then show ?case
    by (cases bs) (auto simp: Let_def read_varint_loop.simps[of i] split: if_splits)
qed

lemma read_varint_error: "read_varint bs = Inl e \<Longrightarrow> e = Incomplete"
  by (simp add: read_varint_def read_varint_loop_error)

lemma from_utf8_lossy_valid: "utf8_valid bs \<Longrightarrow> from_utf8_lossy bs = bs"
proof (induction bs rule: utf8_valid.induct)
  case (1 bs)
  obtain ok n where u: "utf8_char bs = (ok, n)" by (cases "utf8_char bs")
  show ?case
  proof (cases "bs = []")
    case False
    then have "ok" "n \<le> length bs" "utf8_valid (drop n bs)"
      using 1(2) u by (auto simp: utf8_valid.simps[of bs])
    then show ?thesis using False u 1(1)[OF False refl] by (simp add: from_utf8_lossy.simps[of bs])
  qed (simp add: from_utf8_lossy.simps)
qed


lemma length_write_varint_loop: "unat v < 2 ^ (7 * n) \<Longrightarrow> length (write_varint_loop v) \<le> n"
proof (induction n arbitrary: v)
  case 0
  then have "v = 0" by (simp add: unat_eq_zero)
  then show ?case by (simp add: write_varint_loop.simps)
next
  case (Suc n)
  have "unat (drop_bit 7 v) < 2 ^ (7 * n)"
    using Suc(2) by (simp add: unat_drop7 less_mult_imp_div_less power_add)
  then have "length (write_varint_loop (drop_bit 7 v)) \<le> n" by (rule Suc(1))
  then show ?case
    by (cases "v = 0") (simp_all add: write_varint_loop_step[of v] write_varint_loop.simps[of 0])
qed

lemma length_write_varint: "0 < length (write_varint [] v) \<and> length (write_varint [] v) \<le> 5"
proof (cases "v = 0")
  case False
  have "length (write_varint_loop v) \<le> 5"
    using unat_bounds(3)[of v] by (intro length_write_varint_loop) simp
  then show ?thesis using False by (simp add: write_varint_def write_varint_loop_step[of v])
qed (simp add: write_varint_def write_varint_loop.simps)

lemma read_varint_short:
  assumes "k < length (write_varint [] v)"
  shows "read_varint (take k (write_varint [] v)) = Inl Incomplete"
proof (cases "read_varint (take k (write_varint [] v))")
  case (Inl e)
  then show ?thesis using read_varint_error by simp
next
  case (Inr vr)
  obtain v' r where vr: "vr = (v', r)" by (cases vr)
  have "read_varint (write_varint [] v) = Inr (v', r @ drop k (write_varint [] v))"
    using read_varint_append[OF Inr[unfolded vr], of "drop k (write_varint [] v)"] by simp
  then show ?thesis using assms read_write_varint[of v "[]"] by simp
qed

lemma read_varint_take:
  "read_varint (take k (write_varint [] v @ rest)) =
     (if k < length (write_varint [] v) then Inl Incomplete
      else Inr (v, take (k - length (write_varint [] v)) rest))"
  by (simp add: read_varint_short read_write_varint)

text \<open>A server's answer, as the protocol frames it: the packet length, the packet id 0, the length of the status
  and the status.\<close>

definition slp_response :: "bytes \<Rightarrow> bytes" where
  "slp_response status =
     (let body = write_varint (write_varint [] 0) (word_of_nat (length status)) @ status
      in write_varint (write_varint [] (word_of_nat (length body))) 0
           @ write_varint [] (word_of_nat (length status)) @ status)"

lemma slp_response_split:
  "\<exists>n. slp_response status = write_varint [] n @ write_varint [] 0
     @ write_varint [] (word_of_nat (length status)) @ status"
  unfolding slp_response_def Let_def by (subst write_varint_append) auto

lemma status_length:
  assumes "0 < n" "n < 2 ^ 31"
  shows "unat (word_of_nat n :: i32) = n" and "0 < sint (word_of_nat n :: i32)"
proof -
  show u: "unat (word_of_nat n :: i32) = n" using assms by (simp add: unat_of_nat)
  have "uint (word_of_nat n :: i32) = int n" using u by (metis uint_nat)
  then have "sint (word_of_nat n :: i32) = int n"
    using assms by (simp add: sint_uint signed_take_bit_int_eq_self)
  then show "0 < sint (word_of_nat n :: i32)" using assms by simp
qed

text \<open>
  C34. Variable-length integers round-trip: every 32-bit integer, negative ones included, is read back as it was
  written, in one to five bytes, and whatever follows it is left unread.
\<close>
theorem varint_roundtrip:
  "read_varint (write_varint [] v @ rest) = Inr (v, rest)
     \<and> 0 < length (write_varint [] v) \<and> length (write_varint [] v) \<le> 5"
  using read_write_varint length_write_varint by blast

lemma slp_parse_append:
  assumes "slp_parse json_ok d \<noteq> Inl Incomplete"
  shows "slp_parse json_ok (d @ e) = slp_parse json_ok d"
proof -
  from assms obtain a s1 b s2 c s3 where
    r: "read_varint d = Inr (a, s1)" "read_varint s1 = Inr (b, s2)" "read_varint s2 = Inr (c, s3)"
    by (auto simp: slp_parse_def split: sum.splits dest!: read_varint_error)
  then show ?thesis
    using assms r[THEN read_varint_append, of e] by (auto simp: slp_parse_def Let_def split: if_splits)
qed


text \<open>
  Verdicts are final: once the parser has accepted a stream or called it invalid, bytes that arrive later do not
  change the verdict, so that only an incomplete stream is worth waiting for.
\<close>
theorem slp_parse_stable:
  assumes "slp_parse json_ok data \<noteq> Inl Incomplete"
  shows "slp_parse json_ok (data @ more) = slp_parse json_ok data"
  using assms by (rule slp_parse_append)

lemma slp_parse_prefix:
  assumes len: "0 < length status" "length status < 2 ^ 31" and k: "k < length (slp_response status)"
  shows "slp_parse json_ok (take k (slp_response status)) = Inl Incomplete"
proof -
  obtain n where r: "slp_response status = write_varint [] n @ write_varint [] 0
      @ write_varint [] (word_of_nat (length status)) @ status"
    using slp_response_split by blast
  show ?thesis
    using status_length[OF len] k unfolding r by (auto simp: slp_parse_def read_varint_take simp del: take_append)
qed

lemma slp_accepts:
  assumes "0 < length status" "length status < 2 ^ 31" "json_ok status" "utf8_valid status"
  shows "slp_parse json_ok (slp_response status @ rest) = Inr status"
proof -
  obtain n where r: "slp_response status = write_varint [] n @ write_varint [] 0
      @ write_varint [] (word_of_nat (length status)) @ status"
    using slp_response_split by blast
  have "slp_parse json_ok (slp_response status @ rest) = Inr (from_utf8_lossy status)"
    using status_length[OF assms(1,2)] assms(3) unfolding r by (simp add: slp_parse_def read_write_varint)
  then show ?thesis using from_utf8_lossy_valid[OF assms(4)] by simp
qed

text \<open>
  C33. Framing: a server's complete answer is accepted and yields exactly its status, whatever follows it, and every
  strict prefix of it is incomplete, never invalid. The only assumption on the JSON library is its documented
  rejection of text that is not UTF-8.
\<close>
theorem slp_parse_response:
  assumes "0 < length status" "length status < 2 ^ 31" and "json_ok status"
    and json_utf8: "\<And>bs. json_ok bs \<Longrightarrow> utf8_valid bs"
  shows "slp_parse json_ok (slp_response status @ rest) = Inr status
     \<and> (\<forall>k < length (slp_response status). slp_parse json_ok (take k (slp_response status)) = Inl Incomplete)"
  using slp_accepts[of status json_ok, OF assms(1-3) json_utf8[OF assms(3)]] slp_parse_prefix[OF assms(1,2)] by blast

text \<open>
  The status request is well framed: a server that reads it finds the length of the handshake, the handshake
  packet with the given version, host, port and next state 1, and then the status request packet.
\<close>
theorem build_latest_request_frames:
  "\<exists>handshake fields after.
     read_varint (build_latest_request hostname port version) = Inr (word_of_nat (length handshake), handshake @ [1, 0])
   \<and> read_varint handshake = Inr (0, fields)
   \<and> read_varint fields = Inr (version, after)
   \<and> read_varint after = Inr (word_of_nat (length hostname), hostname @ to_be16 port @ [1])"
proof -
  define after where "after = write_varint [] (word_of_nat (length hostname)) @ hostname @ to_be16 port @ [1]"
  define fields where "fields = write_varint [] version @ after"
  define handshake where "handshake = write_varint [] 0 @ fields"
  have p: "[ucast (drop_bit 8 port), ucast (port AND mask 8)] = to_be16 port"
    by (auto simp: to_be16_def bit_simps intro!: bit_word_eqI)
  have mask8: "mask 8 = (0xFF :: u16)" by (simp add: mask_eq_exp_minus_1)
  have z: "write_varint [] 0 = [0]" by (simp add: write_varint_def write_varint_loop.simps)
  have "build_latest_request hostname port version
      = write_varint [] (word_of_nat (length handshake)) @ handshake @ [1, 0]"
    unfolding build_latest_request_def Let_def handshake_def fields_def after_def z p[symmetric] mask8
    using write_varint_append[of "[0]" version]
      write_varint_append[of "write_varint [0] version" "word_of_nat (length hostname)"] by simp
  then show ?thesis
    by (intro exI[of _ handshake] exI[of _ fields] exI[of _ after])
      (simp add: read_write_varint handshake_def fields_def after_def)
qed

definition demo_status :: bytes where "demo_status = [0x22, 0xC3, 0xA9, 0x22]"

theorem slp_parse_stable_witness:
  "slp_parse (\<lambda>bs. bs = demo_status) [1, 1] \<noteq> Inl Invalid
     \<and> slp_parse (\<lambda>bs. bs = demo_status) [1, 1, 1] = Inl Invalid
     \<and> slp_parse (\<lambda>bs. bs = demo_status) ([1, 1, 1] @ [7]) = Inl Invalid"
proof -
  have i: "slp_parse (\<lambda>bs. bs = demo_status) [1, 1, 1] = Inl Invalid"
    by (simp add: slp_parse_def read_varint_def read_varint_loop.simps)
  moreover have "slp_parse (\<lambda>bs. bs = demo_status) [1, 1] = Inl Incomplete"
    by (simp add: slp_parse_def read_varint_def read_varint_loop.simps)
  ultimately show ?thesis using slp_parse_stable[of "\<lambda>bs. bs = demo_status" "[1, 1, 1]" "[7]"] by simp
qed

theorem slp_parse_response_witness:
  "utf8_valid demo_status \<and> slp_parse (\<lambda>bs. bs = demo_status) (slp_response demo_status @ [9]) = Inr demo_status
     \<and> slp_parse (\<lambda>bs. bs = demo_status) (take 3 (slp_response demo_status)) = Inl Incomplete"
proof -
  have u: "utf8_valid demo_status"
    unfolding demo_status_def by code_simp
  have "3 < length (slp_response demo_status)" unfolding demo_status_def by code_simp
  then show ?thesis
    using u slp_parse_response[of demo_status "\<lambda>bs. bs = demo_status" "[9]"] by (auto simp: demo_status_def)
qed

end
