(* ===== verification/XdpFilter.thy ===== *)
theory XdpFilter
  imports Tcp
begin

text \<open>
  The packet filter in the kernel (\<^verbatim>\<open>farsight-ebpf/src/xdp.rs\<close>). The header types of the network-types crate and the
  socket map are the fields of an environment; \<open>wire_layout\<close> says that the header fields are where the Ethernet, IPv4
  and TCP standards put them.
\<close>

section \<open>The filter\<close>

record xdp_env =
  eth_len :: nat
  ipv4_len :: nat
  tcp_len :: nat
  is_ipv4 :: "bytes \<Rightarrow> bool"
  is_tcp :: "bytes \<Rightarrow> bool"
  ihl :: "bytes \<Rightarrow> u8"
  tcp_dest :: "bytes \<Rightarrow> u16"
  has_sock :: "u32 \<Rightarrow> bool"

record xdp_statics =
  SOURCE_PORT_START :: u16
  SOURCE_PORT_END :: u16
  USABLE_QUEUES :: u32

datatype xdp_action = XDP_PASS | XDP_REDIRECT u32

text \<open>The header at an offset of the packet, if it fits.\<close>

definition ptr_at :: "nat \<Rightarrow> bytes \<Rightarrow> nat \<Rightarrow> bytes option" where
  "ptr_at sz data offset = (if offset + sz > length data then None else Some (take sz (drop offset data)))"

text \<open>
  \<open>None\<close> is a division by zero queues; \<open>Inl ()\<close> the error of \<^verbatim>\<open>try_farsight_xdp\<close>.
\<close>

definition try_farsight_xdp :: "xdp_env \<Rightarrow> xdp_statics \<Rightarrow> bytes \<Rightarrow> u32 \<Rightarrow> (unit + xdp_action) option" where
  "try_farsight_xdp env st data rx_queue_index =
     (if SOURCE_PORT_START st = 0 then Some (Inl ())
      else if SOURCE_PORT_END st = 0 then Some (Inl ())
      else case ptr_at (eth_len env) data 0 of None \<Rightarrow> Some (Inl ()) | Some ethhdr \<Rightarrow>
      if \<not> is_ipv4 env ethhdr then Some (Inr XDP_PASS)
      else case ptr_at (ipv4_len env) data (eth_len env) of None \<Rightarrow> Some (Inl ()) | Some ipv4hdr \<Rightarrow>
      if \<not> is_tcp env ipv4hdr then Some (Inr XDP_PASS)
      else if unat (ihl env ipv4hdr) < 5 then Some (Inr XDP_PASS)
      else case ptr_at (tcp_len env) data (eth_len env + 4 * unat (ihl env ipv4hdr)) of None \<Rightarrow> Some (Inl ()) | Some tcphdr \<Rightarrow>
      let dest = tcp_dest env tcphdr in
      if dest < SOURCE_PORT_START st \<or> dest > SOURCE_PORT_END st then Some (Inr XDP_PASS)
      else if USABLE_QUEUES st = 0 then None
      else let q = rx_queue_index mod USABLE_QUEUES st in
           if has_sock env q then Some (Inr (XDP_REDIRECT q)) else Some (Inr XDP_PASS))"

definition farsight_xdp :: "xdp_env \<Rightarrow> xdp_statics \<Rightarrow> bytes \<Rightarrow> u32 \<Rightarrow> xdp_action option" where
  "farsight_xdp env st data q = map_option (case_sum (\<lambda>_. XDP_PASS) id) (try_farsight_xdp env st data q)"

section \<open>What is redirected\<close>

definition wire_layout :: "xdp_env \<Rightarrow> bool" where
  "wire_layout env \<longleftrightarrow> eth_len env = 14 \<and> ipv4_len env = 20 \<and> tcp_len env = 20
     \<and> (\<forall>h. length h = 14 \<longrightarrow> is_ipv4 env h = (drop 12 h = [8, 0]))
     \<and> (\<forall>h. length h = 20 \<longrightarrow> is_tcp env h = (h ! 9 = 6) \<and> ihl env h = h ! 0 AND 0x0F)
     \<and> (\<forall>h. length h = 20 \<longrightarrow> tcp_dest env h = from_be16 (h ! 2) (h ! 3))"

definition tcp_offset :: "bytes \<Rightarrow> nat" where
  "tcp_offset data = 14 + 4 * unat (data ! 14 AND 0x0F)"

text \<open>A frame that holds an IPv4 packet with a complete TCP header.\<close>

definition tcp_frame :: "bytes \<Rightarrow> bool" where
  "tcp_frame data \<longleftrightarrow> 34 \<le> length data \<and> data ! 12 = 8 \<and> data ! 13 = 0 \<and> data ! 23 = 6
     \<and> 5 \<le> unat (data ! 14 AND 0x0F) \<and> tcp_offset data + 20 \<le> length data"

lemma list_2: "length xs = 2 \<Longrightarrow> xs = [a, b] \<longleftrightarrow> xs ! 0 = a \<and> xs ! 1 = b"
  by (cases xs; cases "tl xs") auto

lemma xdp_redirect_iff:
  assumes w: "wire_layout env" and s: "0 < SOURCE_PORT_START st" "0 < SOURCE_PORT_END st" "0 < USABLE_QUEUES st"
  shows "farsight_xdp env st data q = Some (XDP_REDIRECT i)
     \<longleftrightarrow> tcp_frame data \<and> i = q mod USABLE_QUEUES st \<and> has_sock env i
       \<and> SOURCE_PORT_START st \<le> from_be16 (data ! (tcp_offset data + 2)) (data ! (tcp_offset data + 3))
       \<and> from_be16 (data ! (tcp_offset data + 2)) (data ! (tcp_offset data + 3)) \<le> SOURCE_PORT_END st"
proof -
  have lens: "eth_len env = 14" "ipv4_len env = 20" "tcp_len env = 20" using w by (auto simp: wire_layout_def)
  have eth: "is_ipv4 env (take 14 data) \<longleftrightarrow> data ! 12 = 8 \<and> data ! 13 = 0" if "34 \<le> length data"
    using w that list_2[of "drop 12 (take 14 data)" 8 0] by (simp add: wire_layout_def)
  have ip: "is_tcp env (take 20 (drop 14 data)) \<longleftrightarrow> data ! 23 = 6" "ihl env (take 20 (drop 14 data)) = data ! 14 AND 0x0F"
    if "34 \<le> length data"
    using w that by (simp_all add: wire_layout_def)
  have tcp: "tcp_dest env (take 20 (drop (tcp_offset data) data)) = from_be16 (data ! (tcp_offset data + 2)) (data ! (tcp_offset data + 3))"
    if "tcp_offset data + 20 \<le> length data"
    using w that by (simp add: wire_layout_def)
  show ?thesis
    unfolding farsight_xdp_def try_farsight_xdp_def ptr_at_def lens tcp_frame_def
    using s eth ip tcp by (auto simp: Let_def tcp_offset_def not_less word_gt_0 split: if_splits)
qed

text \<open>
  C26. The filter takes exactly our replies: a packet is redirected, to the socket of its queue modulo the number of
  queues, if and only if it is a complete TCP segment over IPv4 whose destination port is in the configured source
  range and that socket is registered; everything else passes to the network stack of the host.
\<close>
theorem xdp_redirects_replies:
  assumes w: "wire_layout env" and s: "0 < SOURCE_PORT_START st" "0 < SOURCE_PORT_END st" "0 < USABLE_QUEUES st"
  shows "farsight_xdp env st data q = Some (XDP_REDIRECT i)
     \<longleftrightarrow> tcp_frame data \<and> i = q mod USABLE_QUEUES st \<and> has_sock env i
       \<and> SOURCE_PORT_START st \<le> from_be16 (data ! (tcp_offset data + 2)) (data ! (tcp_offset data + 3))
       \<and> from_be16 (data ! (tcp_offset data + 2)) (data ! (tcp_offset data + 3)) \<le> SOURCE_PORT_END st"
  using assms by (rule xdp_redirect_iff)

definition std_env :: xdp_env where
  "std_env = \<lparr>eth_len = 14, ipv4_len = 20, tcp_len = 20, is_ipv4 = \<lambda>h. drop 12 h = [8, 0], is_tcp = \<lambda>h. h ! 9 = 6,
     ihl = \<lambda>h. h ! 0 AND 0x0F, tcp_dest = \<lambda>h. from_be16 (h ! 2) (h ! 3), has_sock = \<lambda>q. q < 4\<rparr>"

lemma std_layout: "wire_layout std_env"
  by (simp add: wire_layout_def std_env_def)

definition demo_frame :: bytes where
  "demo_frame = replicate 12 2 @ [8, 0, 0x45, 0, 0, 40, 0, 1, 0x40, 0, 64, 6, 0, 0, 1, 2, 3, 4, 10, 0, 0, 2,
     0x63, 0xDD, 0xEE, 0x48] @ replicate 16 0"

theorem xdp_redirects_replies_witness:
  "farsight_xdp std_env \<lparr>SOURCE_PORT_START = 61000, SOURCE_PORT_END = 62000, USABLE_QUEUES = 3\<rparr> demo_frame 5
     = Some (XDP_REDIRECT 2)"
proof -
  have l: "length demo_frame = 54" "demo_frame ! 12 = 8" "demo_frame ! 13 = 0" "demo_frame ! 23 = 6" "demo_frame ! 14 = 0x45"
    "demo_frame ! 36 = 0xEE" "demo_frame ! 37 = 0x48"
    by (simp_all add: demo_frame_def nth_append nth_Cons')
  have "tcp_offset demo_frame = 34" by (simp add: tcp_offset_def l)
  moreover have "tcp_frame demo_frame" using calculation by (simp add: tcp_frame_def l)
  moreover have "(5 :: u32) mod 3 = 2" by simp
  ultimately show ?thesis
    by (subst xdp_redirects_replies[OF std_layout]) (simp_all add: l std_env_def from_be16_def)
qed

end
