(* ===== verification/Responder.thy ===== *)
theory Responder
  imports Sender Receiver Minecraft XdpFilter "HOL-Library.AList"
begin

text \<open>
  The responder (\<^verbatim>\<open>controller/responder.rs\<close>): it takes received packets, keeps one record per TCP connection,
  reassembles what the servers send, has it parsed and reports results to the strategies, whose answers are new
  probes. It is generic over the strategies, the payload and the parser; their methods are the fields of an
  environment. It works on the sender's and the receiver's own models and on the packet memory they share.

  \<open>sends\<close> is a record of the calls to the sender, \<open>kernel\<close> the kernel's behaviour during the calls still to come; the
  clock is read through the arguments named \<open>now\<close>.
\<close>

section \<open>State\<close>

type_synonym conn_key = "ipv4 \<times> u16"

record conn =
  conn_ip :: ipv4
  conn_port :: u16
  conn_data :: bytes
  next_expected_seq :: u32
  next_expected_ack :: u32
  reorder_buffer :: "(u32 \<times> bytes) list"
  expires_at :: nat

record send_obs =
  so_waits :: "wait_obs list"
  so_flags :: u32
  so_sendto :: bool

datatype send_call =
    Call_syn packet_template
  | Call_send u8 ipv4 u16 u16 u32 u32
  | Call_data ipv4 u16 u16 u32 u32 bytes

text \<open>The methods of the traits; \<open>None\<close> is a call that does not return.\<close>

record ('a, 'i, 'p, 'r) resp_env =
  port_result :: "ipv4 \<Rightarrow> u16 \<Rightarrow> u64 option \<Rightarrow> 'r \<Rightarrow> 'a \<Rightarrow> (packet_template option \<times> 'r \<times> 'a) option"
  ip_result :: "ipv4 \<Rightarrow> 'i \<Rightarrow> 'i"
  payload_build :: "ipv4 \<Rightarrow> u16 \<Rightarrow> bytes option"
  parser_parse :: "bytes \<Rightarrow> parse_error + 'p"
  hash64 :: "'p \<Rightarrow> u64"

record ('a, 'i, 'p, 'r) responder =
  port_adapter :: 'a
  ip_adapter :: 'i
  rs_receiver :: receiver
  rs_sender :: sender
  rs_memory :: memory
  rs_completer :: completer
  connections :: "conn_key \<rightharpoonup> conn"
  scanlings :: "(ipv4 \<times> u16 \<times> 'p) list"
  expiries :: "(nat \<times> conn_key) list"
  pending_expiry :: "(nat \<times> conn_key) option"
  rs_rng :: 'r
  rs_seed :: u64
  max_reorder_segments :: nat
  max_reorder_bytes :: nat
  rs_timeout :: nat
  kernel :: "send_obs list"
  sends :: "send_call list"

definition responder_new :: "receiver \<Rightarrow> sender \<Rightarrow> memory \<Rightarrow> completer \<Rightarrow> 'a \<Rightarrow> 'i \<Rightarrow> 'r \<Rightarrow> u64 \<Rightarrow> nat \<Rightarrow> nat \<Rightarrow> nat
    \<Rightarrow> send_obs list \<Rightarrow> ('a, 'i, 'p, 'r) responder" where
  "responder_new rc sd mem cmp pa ia rng seed max_segments max_bytes timeout ks =
     \<lparr>port_adapter = pa, ip_adapter = ia, rs_receiver = rc, rs_sender = sd, rs_memory = mem, rs_completer = cmp,
      connections = Map.empty, scanlings = [], expiries = [], pending_expiry = None, rs_rng = rng, rs_seed = seed,
      max_reorder_segments = max_segments, max_reorder_bytes = max_bytes, rs_timeout = timeout, kernel = ks, sends = []\<rparr>"

section \<open>Outcomes\<close>

text \<open>
  \<open>Done\<close> is \<^verbatim>\<open>Ok\<close>, \<open>Failed\<close> an error; \<open>Stopped\<close> is a call that panics, faults or has not returned.
\<close>

datatype outcome = Done | Failed | Stopped send_result

definition outcome_of :: "send_result \<Rightarrow> outcome" where
  "outcome_of r = (case r of Sent \<Rightarrow> Done | Wakeup_failed \<Rightarrow> Failed | _ \<Rightarrow> Stopped r)"

text \<open>The operator \<^verbatim>\<open>?\<close>.\<close>

definition and_then :: "outcome \<times> 's \<Rightarrow> ('s \<Rightarrow> outcome \<times> 's) \<Rightarrow> outcome \<times> 's" where
  "and_then x f = (case x of (Done, s) \<Rightarrow> f s | (e, s) \<Rightarrow> (e, s))"

section \<open>Calls to the sender\<close>

definition do_call :: "send_call \<Rightarrow> ('a, 'i, 'p, 'r) responder \<Rightarrow> outcome \<times> ('a, 'i, 'p, 'r) responder" where
  "do_call c st = (case kernel st of
     [] \<Rightarrow> (Stopped Blocked, st)
   | k # ks \<Rightarrow>
       (case (case c of
           Call_syn t \<Rightarrow> send_syn (so_waits k) (so_flags k) (so_sendto k) (rs_seed st) t (rs_sender st) (rs_memory st) (rs_completer st)
         | Call_send FLAGS ip source_port port seq ack \<Rightarrow>
             send FLAGS (so_waits k) (so_flags k) (so_sendto k) ip source_port port seq ack (rs_sender st) (rs_memory st) (rs_completer st)
         | Call_data ip source_port port seq ack body \<Rightarrow>
             send_with_data (so_waits k) (so_flags k) (so_sendto k) ip source_port port seq ack body (rs_sender st) (rs_memory st) (rs_completer st)) of
         (r, s, mem, cmp) \<Rightarrow>
           (outcome_of r, st\<lparr>rs_sender := s, rs_memory := mem, rs_completer := cmp, kernel := ks, sends := sends st @ [c]\<rparr>)))"

definition record_result :: "('a, 'i, 'p, 'r) resp_env \<Rightarrow> ipv4 \<Rightarrow> u16 \<Rightarrow> u64 option \<Rightarrow> ('a, 'i, 'p, 'r) responder
    \<Rightarrow> outcome \<times> ('a, 'i, 'p, 'r) responder" where
  "record_result env ip port hash st =
     (case port_result env ip port hash (rs_rng st) (port_adapter st) of
        None \<Rightarrow> (Stopped Blocked, st)
      | Some (res, rng, a) \<Rightarrow>
          (let st1 = st\<lparr>rs_rng := rng, port_adapter := a\<rparr> in
           case res of None \<Rightarrow> (Done, st1) | Some t \<Rightarrow> do_call (Call_syn t) st1))"

definition record_empty :: "('a, 'i, 'p, 'r) resp_env \<Rightarrow> ipv4 \<Rightarrow> u16 \<Rightarrow> ('a, 'i, 'p, 'r) responder
    \<Rightarrow> outcome \<times> ('a, 'i, 'p, 'r) responder" where
  "record_empty env ip port st = record_result env ip port None st"

definition record_hit :: "('a, 'i, 'p, 'r) resp_env \<Rightarrow> ipv4 \<Rightarrow> u16 \<Rightarrow> u64 \<Rightarrow> ('a, 'i, 'p, 'r) responder
    \<Rightarrow> outcome \<times> ('a, 'i, 'p, 'r) responder" where
  "record_hit env ip port hash st = record_result env ip port (Some hash) st"

section \<open>Handlers\<close>

definition process_syn_ack :: "('a, 'i, 'p, 'r) resp_env \<Rightarrow> nat \<Rightarrow> ipv4 \<Rightarrow> tcp_hdr \<Rightarrow> ('a, 'i, 'p, 'r) responder
    \<Rightarrow> outcome \<times> ('a, 'i, 'p, 'r) responder" where
  "process_syn_ack env now ip hdr st =
     (let source_port = th_dest_port hdr; port = th_source_port hdr; ack = th_ack hdr; seq = th_seq hdr;
          expected_ack = cookie ip port (rs_seed st) + 1
      in if ack \<noteq> expected_ack then record_empty env ip port st
         else (case payload_build env ip port of
             None \<Rightarrow>
               and_then (do_call (Call_send Rst ip source_port port ack seq) st) (\<lambda>st.
               and_then (record_empty env ip port st) (\<lambda>st. (Failed, st)))
           | Some payload \<Rightarrow>
               (let seq = seq + 1 in
                and_then (do_call (Call_data ip source_port port ack seq payload) st) (\<lambda>st.
                let expires = now + rs_timeout st in
                (Done, st\<lparr>expiries := expiries st @ [(expires, (ip, port))],
                   connections := (connections st)((ip, port) \<mapsto>
                     \<lparr>conn_ip = ip, conn_port = port, conn_data = [], next_expected_seq = seq,
                      next_expected_ack = ack + word_of_nat (length payload), reorder_buffer = [], expires_at = expires\<rparr>)\<rparr>)))))"

function stitch :: "u32 \<Rightarrow> bytes \<Rightarrow> (u32 \<times> bytes) list \<Rightarrow> u32 \<times> bytes \<times> (u32 \<times> bytes) list" where
  "stitch seq data buf =
     (case map_of buf seq of
        None \<Rightarrow> (seq, data, buf)
      | Some buffered \<Rightarrow> stitch (seq + word_of_nat (length buffered)) (data @ buffered) (AList.delete seq buf))"
  by pat_completeness auto
termination
proof (relation "measure (\<lambda>(_, _, buf). length buf)", goal_cases)
  case (2 seq data buf buffered)
  then have "length (filter (\<lambda>(k, _). seq \<noteq> k) buf) < length buf"
    by (intro length_filter_less[of "(seq, buffered)"]) (auto dest: map_of_SomeD)
  then show ?case by (simp add: AList.delete_eq)
qed simp

declare stitch.simps [simp del]

definition buffer_segment :: "nat \<Rightarrow> nat \<Rightarrow> u32 \<Rightarrow> bytes \<Rightarrow> conn \<Rightarrow> conn" where
  "buffer_segment max_segments max_bytes seq payload state =
     (let diff = seq - next_expected_seq state in
      if diff < 65535 \<and> payload \<noteq> [] \<and> length (reorder_buffer state) < max_segments
         \<and> sum_list (map (length \<circ> snd) (reorder_buffer state)) + length payload \<le> max_bytes
      then state\<lparr>reorder_buffer := AList.update seq payload (reorder_buffer state)\<rparr>
      else state)"

definition process_ack :: "('a, 'i, 'p, 'r) resp_env \<Rightarrow> ipv4 \<Rightarrow> tcp_hdr \<Rightarrow> bytes \<Rightarrow> ('a, 'i, 'p, 'r) responder
    \<Rightarrow> outcome \<times> ('a, 'i, 'p, 'r) responder" where
  "process_ack env ip hdr payload st =
     (let source_port = th_dest_port hdr; port = th_source_port hdr; ack = th_ack hdr; seq = th_seq hdr in
      case connections st (ip, port) of
        None \<Rightarrow>
          and_then (record_empty env ip port st) (\<lambda>st.
          do_call (Call_send Rst ip source_port port ack (seq + word_of_nat (length payload))) st)
      | Some state \<Rightarrow>
          if ack \<noteq> next_expected_ack state then (Done, st)
          else if seq \<noteq> next_expected_seq state then
            (let state = buffer_segment (max_reorder_segments st) (max_reorder_bytes st) seq payload state;
                 st = st\<lparr>connections := (connections st)((ip, port) \<mapsto> state)\<rparr>
             in do_call (Call_send Ack ip source_port port (next_expected_ack state) (next_expected_seq state)) st)
          else if payload = [] then (Done, st)
          else
            (let (nx, data, buf) = stitch (seq + word_of_nat (length payload)) (conn_data state @ payload) (reorder_buffer state);
                 state = state\<lparr>conn_data := data, next_expected_seq := nx, reorder_buffer := buf\<rparr>;
                 rst = Call_send Rst ip source_port port (next_expected_ack state) (next_expected_seq state);
                 st = st\<lparr>connections := (connections st)((ip, port) \<mapsto> state)\<rparr>
             in case parser_parse env data of
                  Inr banner \<Rightarrow>
                    (let st = st\<lparr>connections := (connections st)((ip, port) := None)\<rparr> in
                     and_then (do_call rst st) (\<lambda>st.
                     let st = st\<lparr>ip_adapter := ip_result env ip (ip_adapter st)\<rparr> in
                     and_then (record_hit env ip port (hash64 env banner) st) (\<lambda>st.
                     (Done, st\<lparr>scanlings := scanlings st @ [(ip, port, banner)]\<rparr>))))
                | Inl Invalid \<Rightarrow>
                    and_then (record_empty env ip port st) (\<lambda>st.
                    let st = st\<lparr>connections := (connections st)((ip, port) := None)\<rparr> in
                    do_call rst st)
                | Inl Incomplete \<Rightarrow>
                    (let state = state\<lparr>expires_at := expires_at state + rs_timeout st\<rparr>;
                         st = st\<lparr>connections := (connections st)((ip, port) \<mapsto> state),
                                expiries := expiries st @ [(expires_at state, (ip, port))]\<rparr>
                     in do_call (Call_send Ack ip source_port port (next_expected_ack state) (next_expected_seq state)) st)))"

definition process_fin :: "('a, 'i, 'p, 'r) resp_env \<Rightarrow> ipv4 \<Rightarrow> tcp_hdr \<Rightarrow> bytes \<Rightarrow> ('a, 'i, 'p, 'r) responder
    \<Rightarrow> outcome \<times> ('a, 'i, 'p, 'r) responder" where
  "process_fin env ip hdr payload st =
     (let source_port = th_dest_port hdr; port = th_source_port hdr; ack = th_ack hdr; seq = th_seq hdr in
      and_then (do_call (Call_send Rst ip source_port port ack (seq + 1 + word_of_nat (length payload))) st) (\<lambda>st.
      case connections st (ip, port) of
        None \<Rightarrow> record_empty env ip port st
      | Some state \<Rightarrow>
          (let st = st\<lparr>connections := (connections st)((ip, port) := None)\<rparr> in
           if payload = [] then record_empty env ip port st
           else (case parser_parse env (conn_data state @ payload) of
                   Inr banner \<Rightarrow>
                     (let st = st\<lparr>ip_adapter := ip_result env ip (ip_adapter st)\<rparr> in
                      and_then (record_hit env ip port (hash64 env banner) st) (\<lambda>st.
                      (Done, st\<lparr>scanlings := scanlings st @ [(ip, port, banner)]\<rparr>)))
                 | Inl Invalid \<Rightarrow> record_empty env ip port st
                 | Inl Incomplete \<Rightarrow> record_empty env ip port st))))"

section \<open>Packets\<close>

text \<open>What \<^verbatim>\<open>process_packet\<close> reads from the bytes of a packet before it looks at the flags.\<close>

datatype packet_view = Out_of_bounds | Bad_offset | Segment ipv4 tcp_hdr bytes

definition view_packet :: "bytes \<Rightarrow> packet_view" where
  "view_packet data =
     (if length data < 30 then Out_of_bounds
      else
        (let ip = from_be32 (data ! 26) (data ! 27) (data ! 28) (data ! 29);
             tcp_start = 14 + unat (push_bit 2 (data ! 14 AND 0x0F));
             ip_total_len = unat (from_be16 (data ! 16) (data ! 17));
             packet_end = min (14 + ip_total_len) (length data)
         in if length data \<le> tcp_start + 12 then Out_of_bounds
            else
              (let data_start = tcp_start + unat (drop_bit 2 (data ! (tcp_start + 12) AND 0xF0)) in
               if data_start > packet_end then Bad_offset
               else if length data < tcp_start + 14 then Out_of_bounds
               else (case tcp_hdr_ref_from_bytes (take 14 (drop tcp_start data)) of
                       None \<Rightarrow> Bad_offset
                     | Some hdr \<Rightarrow> Segment ip hdr (take (packet_end - data_start) (drop data_start data))))))"

definition process_packet :: "('a, 'i, 'p, 'r) resp_env \<Rightarrow> nat \<Rightarrow> bytes \<Rightarrow> ('a, 'i, 'p, 'r) responder
    \<Rightarrow> outcome \<times> ('a, 'i, 'p, 'r) responder" where
  "process_packet env now data st =
     (case view_packet data of
        Out_of_bounds \<Rightarrow> (Stopped Panicked, st)
      | Bad_offset \<Rightarrow> (Done, st)
      | Segment ip hdr tcp_payload \<Rightarrow>
          if contains_flags (th_flags hdr) Rst then
            (let port = th_source_port hdr in
             and_then (record_empty env ip port st) (\<lambda>st.
             (Done, st\<lparr>connections := (connections st)((ip, port) := None)\<rparr>)))
          else if contains_flags (th_flags hdr) Fin then process_fin env ip hdr tcp_payload st
          else if contains_flags (th_flags hdr) (Syn OR Ack) then process_syn_ack env now ip hdr st
          else if contains_flags (th_flags hdr) Ack then process_ack env ip hdr tcp_payload st
          else (Done, st))"

section \<open>A tick\<close>

text \<open>
  The loop over a batch: an error is logged and the loop goes on. \<open>clock i\<close> is the instant read while packet \<open>i\<close> of the
  batch is processed; the number of rounds is the number of packets in the batch.
\<close>

fun process_batch :: "('a, 'i, 'p, 'r) resp_env \<Rightarrow> (nat \<Rightarrow> nat) \<Rightarrow> nat \<Rightarrow> batch_guard \<Rightarrow> ('a, 'i, 'p, 'r) responder
    \<Rightarrow> outcome \<times> batch_guard \<times> ('a, 'i, 'p, 'r) responder" where
  "process_batch env clock 0 g st = (Done, g, st)"
| "process_batch env clock (Suc n) g st =
     (case bg_next g (rs_receiver st) of
        None \<Rightarrow> (Done, g, st)
      | Some ((addr, len), g', rc) \<Rightarrow>
          (case process_packet env (clock (unat (cursor g))) (read_bytes (rs_memory st) addr len) (st\<lparr>rs_receiver := rc\<rparr>) of
             (Stopped r, st') \<Rightarrow> (Stopped r, g', st')
           | (_, st') \<Rightarrow> process_batch env clock n g' st'))"

text \<open>The expiry loop over the pending entry and the queue.\<close>

fun expire_conns :: "('a, 'i, 'p, 'r) resp_env \<Rightarrow> nat \<Rightarrow> (nat \<times> conn_key) list \<Rightarrow> ('a, 'i, 'p, 'r) responder
    \<Rightarrow> outcome \<times> ('a, 'i, 'p, 'r) responder" where
  "expire_conns env now [] st = (Done, st\<lparr>pending_expiry := None, expiries := []\<rparr>)"
| "expire_conns env now ((expiry, key) # q) st =
     (case connections st key of
        None \<Rightarrow> expire_conns env now q st
      | Some connection \<Rightarrow>
          if expiry > now then (Done, st\<lparr>pending_expiry := Some (expiry, key), expiries := q\<rparr>)
          else (case record_empty env (conn_ip connection) (conn_port connection)
                       (st\<lparr>connections := (connections st)(key := None)\<rparr>) of
                  (Done, st') \<Rightarrow> expire_conns env now q st'
                | (e, st') \<Rightarrow> (e, st'\<lparr>pending_expiry := None, expiries := q\<rparr>)))"

datatype tick_result = No_batch | Receive_failed receive_error | Ticked outcome

definition responder_tick :: "('a, 'i, 'p, 'r) resp_env \<Rightarrow> rx_obs \<Rightarrow> (nat \<Rightarrow> nat) \<Rightarrow> nat \<Rightarrow> usize \<Rightarrow> ('a, 'i, 'p, 'r) responder
    \<Rightarrow> tick_result \<times> usize \<times> ('a, 'i, 'p, 'r) responder" where
  "responder_tick env ob clock now filled st =
     (case receive ob (rs_receiver st) of
        (Inl e, rc) \<Rightarrow> (Receive_failed e, filled, st\<lparr>rs_receiver := rc\<rparr>)
      | (Inr None, rc) \<Rightarrow> (No_batch, filled, st\<lparr>rs_receiver := rc\<rparr>)
      | (Inr (Some g), rc) \<Rightarrow>
          (case process_batch env clock (unat (bg_count g)) g (st\<lparr>rs_receiver := rc\<rparr>) of
             (Stopped r, g, st) \<Rightarrow> (Ticked (Stopped r), filled, st)
           | (_, g, st) \<Rightarrow>
               (let (filled, rc) = bg_drop g filled (rs_receiver st);
                    st = st\<lparr>rs_receiver := rc\<rparr>;
                    q = (case pending_expiry st of None \<Rightarrow> expiries st | Some e \<Rightarrow> e # expiries st);
                    (oc, st) = expire_conns env now q st
                in (Ticked oc, filled, st))))"


section \<open>Rules for outcomes\<close>

definition ensures :: "(outcome \<Rightarrow> 's \<Rightarrow> bool) \<Rightarrow> outcome \<times> 's \<Rightarrow> bool" where
  "ensures Q x \<longleftrightarrow> Q (fst x) (snd x)"

lemma ensures_pair [simp]: "ensures Q (oc, st) \<longleftrightarrow> Q oc st"
  by (simp add: ensures_def)

lemma ensures_and_then:
  assumes "ensures P x" "\<And>oc s. P oc s \<Longrightarrow> oc \<noteq> Done \<Longrightarrow> Q oc s" "\<And>s. P Done s \<Longrightarrow> ensures Q (f s)"
  shows "ensures Q (and_then x f)"
  using assms by (cases x; cases "fst x") (auto simp: and_then_def ensures_def)

lemma ensures_mono: "ensures P x \<Longrightarrow> (\<And>oc s. P oc s \<Longrightarrow> Q oc s) \<Longrightarrow> ensures Q x"
  by (simp add: ensures_def)

lemma ensures_eq: "ensures Q x \<Longrightarrow> x = (oc, st) \<Longrightarrow> Q oc st"
  by simp

text \<open>Everything the calls to the sender and to the port strategy leave alone.\<close>

definition conn_frame :: "('a, 'i, 'p, 'r) responder \<Rightarrow> ('a, 'i, 'p, 'r) responder \<Rightarrow> bool" where
  "conn_frame st st' \<longleftrightarrow> connections st' = connections st \<and> scanlings st' = scanlings st \<and> expiries st' = expiries st
     \<and> pending_expiry st' = pending_expiry st \<and> rs_receiver st' = rs_receiver st \<and> ip_adapter st' = ip_adapter st
     \<and> rs_seed st' = rs_seed st \<and> rs_timeout st' = rs_timeout st
     \<and> max_reorder_segments st' = max_reorder_segments st \<and> max_reorder_bytes st' = max_reorder_bytes st"

lemma do_call_frame: "ensures (\<lambda>_ st'. conn_frame st st') (do_call c st)"
  by (simp add: do_call_def conn_frame_def split: list.split prod.split)

lemma do_call_sends: "ensures (\<lambda>oc st'. oc = Done \<longrightarrow> sends st' = sends st @ [c]) (do_call c st)"
  by (simp add: do_call_def split: list.split prod.split)

lemma record_result_frame: "ensures (\<lambda>_ st'. conn_frame st st') (record_result env ip port hash st)"
proof -
  have "ensures (\<lambda>_ st'. conn_frame st st') (do_call c (st\<lparr>rs_rng := r, port_adapter := a\<rparr>))" for c r a
    using do_call_frame[of "st\<lparr>rs_rng := r, port_adapter := a\<rparr>" c] by (simp add: ensures_def conn_frame_def)
  then show ?thesis by (auto simp: record_result_def conn_frame_def Let_def split: option.split)
qed

section \<open>Safety\<close>

text \<open>
  The invariant: the sender's frames are in order, each record of a connection is filed under its own address and
  port, and its reorder buffer is within the limits.
\<close>

definition conn_ok :: "nat \<Rightarrow> nat \<Rightarrow> conn_key \<Rightarrow> conn \<Rightarrow> bool" where
  "conn_ok max_segments max_bytes key c \<longleftrightarrow> (conn_ip c, conn_port c) = key \<and> distinct (map fst (reorder_buffer c))
     \<and> length (reorder_buffer c) \<le> max_segments \<and> sum_list (map (length \<circ> snd) (reorder_buffer c)) \<le> max_bytes"

definition conns_ok :: "('a, 'i, 'p, 'r) responder \<Rightarrow> bool" where
  "conns_ok st \<longleftrightarrow> (\<forall>key c. connections st key = Some c \<longrightarrow> conn_ok (max_reorder_segments st) (max_reorder_bytes st) key c)"

text \<open>Where the sender's frames are, and the packet memory at the start.\<close>

record layout =
  l_shared :: shared_data
  l_start :: nat
  l_frame :: nat
  l_slots :: u32
  l_mem :: memory
  l_rx :: "descriptor ring"

definition outside :: "layout \<Rightarrow> nat \<Rightarrow> nat \<Rightarrow> bool" where
  "outside L b n \<longleftrightarrow> (\<forall>k < unat (l_slots L). b + n \<le> frame_at (l_start L) (l_frame L) k
     \<or> frame_at (l_start L) (l_frame L) k + l_frame L \<le> b)"

definition sender_ready :: "layout \<Rightarrow> ('a, 'i, 'p, 'r) responder \<Rightarrow> bool" where
  "sender_ready L st \<longleftrightarrow> sender_inv (l_shared L) (l_start L) (rs_sender st) (rs_memory st)
     \<and> unat (um_frame_size (s_umem (rs_sender st))) = l_frame L \<and> ring_size (s_tx (rs_sender st)) = l_slots L
     \<and> (\<forall>b n. outside L b n \<longrightarrow> read_bytes (rs_memory st) b n = read_bytes (l_mem L) b n)"

definition resp_inv :: "layout \<Rightarrow> ('a, 'i, 'p, 'r) responder \<Rightarrow> bool" where
  "resp_inv L st \<longleftrightarrow> conns_ok st \<and> sender_ready L st \<and> rx (rs_receiver st) = l_rx L"

definition payloads_fit :: "nat \<Rightarrow> ('a, 'i, 'p, 'r) resp_env \<Rightarrow> bool" where
  "payloads_fit fs env \<longleftrightarrow> (\<forall>ip port p. payload_build env ip port = Some p \<longrightarrow> 62 + length p \<le> fs)"

definition no_fault :: "outcome \<Rightarrow> bool" where
  "no_fault oc \<longleftrightarrow> (\<forall>r. oc = Stopped r \<longrightarrow> r = Blocked)"

lemma no_fault_simps [simp]: "no_fault Done" "no_fault Failed" "no_fault (Stopped r) \<longleftrightarrow> r = Blocked"
  by (auto simp: no_fault_def)

fun call_fits :: "nat \<Rightarrow> send_call \<Rightarrow> bool" where
  "call_fits fs (Call_data _ _ _ _ _ body) \<longleftrightarrow> 62 + length body \<le> fs"
| "call_fits fs _ \<longleftrightarrow> True"

lemma outcome_of_ok: "send_ok r \<Longrightarrow> no_fault (outcome_of r)"
  by (cases r) (auto simp: outcome_of_def send_ok_def)

lemma do_call_safe:
  assumes inv: "resp_inv L st" and c: "call_fits (l_frame L) c"
  shows "ensures (\<lambda>oc st'. no_fault oc \<and> resp_inv L st') (do_call c st)"
proof (cases "kernel st")
  case Nil
  then show ?thesis using inv by (simp add: do_call_def)
next
  case (Cons k ks)
  obtain r s mem cmp where e: "(case c of
           Call_syn t \<Rightarrow> send_syn (so_waits k) (so_flags k) (so_sendto k) (rs_seed st) t (rs_sender st) (rs_memory st) (rs_completer st)
         | Call_send FLAGS ip source_port port seq ack \<Rightarrow>
             send FLAGS (so_waits k) (so_flags k) (so_sendto k) ip source_port port seq ack (rs_sender st) (rs_memory st) (rs_completer st)
         | Call_data ip source_port port seq ack body \<Rightarrow>
             send_with_data (so_waits k) (so_flags k) (so_sendto k) ip source_port port seq ack body (rs_sender st) (rs_memory st) (rs_completer st))
      = (r, s, mem, cmp)" by (metis prod_cases4)
  have si: "sender_inv (l_shared L) (l_start L) (rs_sender st) (rs_memory st)"
      "unat (um_frame_size (s_umem (rs_sender st))) = l_frame L" "ring_size (s_tx (rs_sender st)) = l_slots L"
    using inv by (auto simp: resp_inv_def sender_ready_def)
  have w: "sends_within (l_shared L) (l_start L) (rs_sender st) (rs_memory st) r s mem"
    using e c send_syn_within[OF si(1)] send_within[OF si(1)] send_with_data_within[OF si(1)] si(2)
    by (cases c) auto
  then have ready: "sender_ready L (st\<lparr>rs_sender := s, rs_memory := mem, rs_completer := cmp, kernel := ks, sends := sends st @ [c]\<rparr>)"
    using inv si unfolding sends_within_def resp_inv_def sender_ready_def outside_def by simp
  moreover have "no_fault (outcome_of r)" using w outcome_of_ok by (simp add: sends_within_def)
  ultimately show ?thesis using inv Cons e by (simp add: do_call_def resp_inv_def conns_ok_def)
qed

lemma record_result_safe:
  assumes "resp_inv L st"
  shows "ensures (\<lambda>oc st'. no_fault oc \<and> resp_inv L st') (record_result env ip port hash st)"
proof -
  have "resp_inv L (st\<lparr>rs_rng := r, port_adapter := a\<rparr>)" for r a
    using assms by (simp add: resp_inv_def conns_ok_def sender_ready_def)
  then show ?thesis
    using assms by (auto simp: record_result_def Let_def intro!: do_call_safe split: option.split)
qed


subsection \<open>Reorder buffers\<close>

definition buffered :: "(u32 \<times> bytes) list \<Rightarrow> nat" where
  "buffered buf = sum_list (map (length \<circ> snd) buf)"

lemma buffered_Cons [simp]: "buffered [] = 0" "buffered (x # xs) = length (snd x) + buffered xs"
  by (simp_all add: buffered_def)

lemma buffered_delete: "buffered (AList.delete k buf) \<le> buffered buf"
  by (induction buf) (auto simp: AList.delete_eq)

lemma buffered_update: "buffered (AList.update k v buf) \<le> buffered buf + length v"
  by (induction buf) auto

lemma length_update: "length (AList.update k v buf) \<le> Suc (length buf)"
  by (induction buf) auto

lemma stitch_buffer:
  "stitch seq data buf = (n, d, buf') \<Longrightarrow> distinct (map fst buf)
     \<Longrightarrow> distinct (map fst buf') \<and> length buf' \<le> length buf \<and> buffered buf' \<le> buffered buf"
proof (induction seq data buf rule: stitch.induct)
  case (1 seq data buf)
  show ?case
  proof (cases "map_of buf seq")
    case None
    then show ?thesis using 1(2,3) by (simp add: stitch.simps[of seq])
  next
    case (Some b)
    from 1(1)[OF Some] 1(2,3) Some have "distinct (map fst buf') \<and> length buf' \<le> length (AList.delete seq buf)
        \<and> buffered buf' \<le> buffered (AList.delete seq buf)"
      by (simp add: stitch.simps[of seq] distinct_delete)
    then show ?thesis using length_delete_le[of seq buf] buffered_delete[of seq buf] by auto
  qed
qed

lemma buffer_segment_ok:
  assumes "conn_ok ms mb key c"
  shows "conn_ok ms mb key (buffer_segment ms mb seq payload c)"
  using assms length_update[of seq payload "reorder_buffer c"] buffered_update[of seq payload "reorder_buffer c"]
  by (auto simp: buffer_segment_def conn_ok_def Let_def distinct_update buffered_def)

subsection \<open>Handlers\<close>

lemma resp_inv_fields [simp]:
  "resp_inv L (st\<lparr>expiries := q\<rparr>) \<longleftrightarrow> resp_inv L st"
  "resp_inv L (st\<lparr>pending_expiry := e\<rparr>) \<longleftrightarrow> resp_inv L st"
  "resp_inv L (st\<lparr>ip_adapter := a\<rparr>) \<longleftrightarrow> resp_inv L st"
  "resp_inv L (st\<lparr>scanlings := l\<rparr>) \<longleftrightarrow> resp_inv L st"
  "resp_inv L (st\<lparr>connections := m, expiries := q\<rparr>) \<longleftrightarrow> resp_inv L (st\<lparr>connections := m\<rparr>)"
  "resp_inv L (st\<lparr>expiries := q, connections := m\<rparr>) \<longleftrightarrow> resp_inv L (st\<lparr>connections := m\<rparr>)"
  by (simp_all add: resp_inv_def conns_ok_def sender_ready_def)

lemma resp_inv_forget: "resp_inv L st \<Longrightarrow> resp_inv L (st\<lparr>connections := (connections st)(k := None)\<rparr>)"
  by (auto simp: resp_inv_def conns_ok_def sender_ready_def)

lemma resp_inv_file:
  "resp_inv L st \<Longrightarrow> conn_ok (max_reorder_segments st) (max_reorder_bytes st) k c
     \<Longrightarrow> resp_inv L (st\<lparr>connections := (connections st)(k \<mapsto> c)\<rparr>)"
  by (auto simp: resp_inv_def conns_ok_def sender_ready_def)

definition safe :: "layout \<Rightarrow> outcome \<times> ('a, 'i, 'p, 'r) responder \<Rightarrow> bool" where
  "safe L x \<longleftrightarrow> ensures (\<lambda>oc st'. no_fault oc \<and> resp_inv L st') x"

lemma safe_pair [simp]: "safe L (oc, st) \<longleftrightarrow> no_fault oc \<and> resp_inv L st"
  by (simp add: safe_def)

lemma safe_then: "safe L x \<Longrightarrow> (\<And>s. resp_inv L s \<Longrightarrow> safe L (f s)) \<Longrightarrow> safe L (and_then x f)"
  unfolding safe_def by (erule ensures_and_then) auto

lemma safe_call: "resp_inv L st \<Longrightarrow> call_fits (l_frame L) c \<Longrightarrow> safe L (do_call c st)"
  unfolding safe_def by (rule do_call_safe)

lemma safe_record:
  "resp_inv L st \<Longrightarrow> safe L (record_empty env ip port st)"
  "resp_inv L st \<Longrightarrow> safe L (record_hit env ip port h st)"
  unfolding safe_def record_empty_def record_hit_def by (auto intro: record_result_safe)

lemmas safe_rules = safe_then safe_call safe_record resp_inv_forget

lemma resp_inv_conn:
  "resp_inv L st \<Longrightarrow> connections st k = Some c \<Longrightarrow> conn_ok (max_reorder_segments st) (max_reorder_bytes st) k c"
  by (cases k) (simp add: resp_inv_def conns_ok_def)

lemma process_syn_ack_safe:
  assumes "resp_inv L st" "payloads_fit (l_frame L) env"
  shows "safe L (process_syn_ack env now ip hdr st)"
proof -
  have "conn_ok ms mb (ip, port) \<lparr>conn_ip = ip, conn_port = port, conn_data = [], next_expected_seq = sq,
      next_expected_ack = a, reorder_buffer = [], expires_at = e\<rparr>" for ms mb port sq a e
    by (simp add: conn_ok_def)
  then show ?thesis
    using assms by (auto simp: process_syn_ack_def Let_def payloads_fit_def intro!: safe_rules resp_inv_file split: option.split)
qed

lemma process_fin_safe:
  assumes "resp_inv L st"
  shows "safe L (process_fin env ip hdr payload st)"
  using assms
  by (auto simp: process_fin_def Let_def intro!: safe_rules split: option.split sum.split parse_error.split)

lemma process_ack_safe:
  assumes inv: "resp_inv L st"
  shows "safe L (process_ack env ip hdr payload st)"
proof (cases "connections st (ip, th_source_port hdr)")
  case None
  then show ?thesis using inv by (auto simp: process_ack_def Let_def intro!: safe_rules)
next
  case (Some c)
  let ?k = "(ip, th_source_port hdr)"
  note ok = resp_inv_conn[OF inv Some]
  obtain nx data buf where s: "stitch (th_seq hdr + word_of_nat (length payload)) (conn_data c @ payload) (reorder_buffer c)
      = (nx, data, buf)" by (metis prod_cases3)
  have "conn_ok (max_reorder_segments st) (max_reorder_bytes st) ?k
      (c\<lparr>conn_data := data, next_expected_seq := nx, reorder_buffer := buf, expires_at := e\<rparr>)" for e
    using ok stitch_buffer[OF s] by (auto simp: conn_ok_def buffered_def)
  from this this[of "expires_at c"] buffer_segment_ok[OF ok] show ?thesis
    using inv Some s
    by (auto simp: process_ack_def Let_def intro!: safe_rules resp_inv_file split: sum.split parse_error.split)
qed


lemma process_packet_safe:
  assumes "resp_inv L st" "payloads_fit (l_frame L) env" "view_packet data \<noteq> Out_of_bounds"
  shows "safe L (process_packet env now data st)"
  using assms
  by (auto simp: process_packet_def Let_def split: packet_view.split
      intro!: safe_rules process_syn_ack_safe process_ack_safe process_fin_safe)

lemma shifted_nibble: "unat (push_bit 2 (b AND 0x0F :: u8)) = 4 * unat (b AND 0x0F)"
proof -
  have "b AND 0x0F = take_bit 4 b" by (simp add: take_bit_eq_mask mask_eq_exp_minus_1)
  then have "unat (b AND 0x0F) < 16" by (simp add: unsigned_take_bit_eq take_bit_nat_def)
  then show ?thesis by (simp add: push_bit_eq_mult unat_word_ariths)
qed

lemma view_in_bounds: "tcp_frame data \<Longrightarrow> view_packet data \<noteq> Out_of_bounds"
  unfolding view_packet_def Let_def shifted_nibble tcp_frame_def tcp_offset_def by (auto split: option.split)

text \<open>The packets of a batch are outside the sender's frames and have passed the filter.\<close>

definition batch_ok :: "layout \<Rightarrow> batch_guard \<Rightarrow> bool" where
  "batch_ok L g \<longleftrightarrow> (\<forall>i < unat (bg_count g). case packet_at (l_rx L) (rx_start g + word_of_nat i) of
     (addr, n) \<Rightarrow> outside L addr n \<and> tcp_frame (read_bytes (l_mem L) addr n))"

lemma process_batch_safe:
  assumes "resp_inv L st" "payloads_fit (l_frame L) env" "batch_ok L g"
    and "process_batch env clock n g st = (oc, g', st')"
  shows "no_fault oc \<and> resp_inv L st'"
  using assms
proof (induction n arbitrary: g st)
  case (Suc n)
  show ?case
  proof (cases "cursor g \<ge> bg_count g")
    case True
    then show ?thesis using Suc by (simp add: bg_next_def)
  next
    case False
    let ?rc = "give_back (cursor g) g (rs_receiver st)" and ?g = "g\<lparr>cursor := cursor g + 1\<rparr>"
    obtain addr len where p: "packet_at (rx (rs_receiver st)) (rx_start g + cursor g) = (addr, len)" by fastforce
    then have b: "bg_next g (rs_receiver st) = Some ((addr, len), ?g, ?rc)"
      using False by (simp add: bg_next_def Let_def packet_at_def XSK_UNALIGNED_BUF_OFFSET_SHIFT_def)
    have inv: "resp_inv L (st\<lparr>rs_receiver := ?rc\<rparr>)"
      using Suc(2) by (simp add: resp_inv_def conns_ok_def sender_ready_def give_back_def)
    have "unat (cursor g) < unat (bg_count g)" using False by (simp add: word_le_nat_alt)
    then have "outside L addr len" "tcp_frame (read_bytes (l_mem L) addr len)"
      using Suc(2,4) p unfolding batch_ok_def resp_inv_def by (auto dest!: spec[of _ "unat (cursor g)"])
    then have f: "tcp_frame (read_bytes (rs_memory st) addr len)"
      using Suc(2) by (simp add: resp_inv_def sender_ready_def)
    obtain oc1 st1 where r: "process_packet env (clock (unat (cursor g))) (read_bytes (rs_memory st) addr len)
        (st\<lparr>rs_receiver := ?rc\<rparr>) = (oc1, st1)" by fastforce
    have s1: "no_fault oc1" "resp_inv L st1"
      using process_packet_safe[OF inv Suc(3) view_in_bounds[OF f]] r by (metis safe_pair)+
    have "batch_ok L ?g" using Suc(4) by (simp add: batch_ok_def)
    from Suc(1)[OF s1(2) Suc(3) this] show ?thesis
      using Suc(5) b r s1 by (cases oc1) auto
  qed
qed simp

lemma expire_conns_safe:
  assumes "resp_inv L st"
  shows "safe L (expire_conns env now q st)"
  using assms
proof (induction env now q st rule: expire_conns.induct)
  case (2 env now expiry key q st)
  show ?case
  proof (cases "\<exists>c. connections st key = Some c \<and> \<not> expiry > now")
    case True
    then obtain c where c: "connections st key = Some c" "\<not> expiry > now" by blast
    obtain oc st1 where r: "record_empty env (conn_ip c) (conn_port c) (st\<lparr>connections := (connections st)(key := None)\<rparr>) = (oc, st1)"
      by fastforce
    then have s1: "no_fault oc" "resp_inv L st1" using safe_record(1)[OF resp_inv_forget[OF 2(3)]] by (metis safe_pair)+
    show ?thesis using c r s1 2(2)[OF c r[symmetric]] by (cases oc) auto
  next
    case False
    then show ?thesis using 2 by (auto split: option.split)
  qed
qed (simp add: resp_inv_def conns_ok_def sender_ready_def)

text \<open>
  A tick of the responder is safe: if every packet of the batch has passed the kernel's filter and lies outside the
  sender's frames, then whatever the packets contain no slice is out of bounds, no send faults, the sender's
  frames stay in order, and each connection record is filed under its own key with its reorder buffer within
  the configured limits.
\<close>
lemma responder_tick_safe:
  assumes conns: "conns_ok st" and ready: "sender_ready L st" and fit: "payloads_fit (l_frame L) env"
    and batch: "\<And>g rc. receive ob (rs_receiver st) = (Inr (Some g), rc) \<Longrightarrow> batch_ok (L\<lparr>l_rx := rx rc\<rparr>) g"
    and t: "responder_tick env ob clock now filled st = (res, filled', st')"
  shows "conns_ok st' \<and> sender_ready L st' \<and> (\<forall>oc. res = Ticked oc \<longrightarrow> no_fault oc)"
proof (cases "receive ob (rs_receiver st)")
  case (Pair x rc)
  have r: "sender_ready (L\<lparr>l_rx := y\<rparr>) s = sender_ready L s" for y s by (simp add: sender_ready_def outside_def)
  have inv: "resp_inv (L\<lparr>l_rx := rx rc\<rparr>) (st\<lparr>rs_receiver := rc\<rparr>)"
    using conns ready by (simp add: resp_inv_def conns_ok_def sender_ready_def outside_def)
  show ?thesis
  proof (cases "\<exists>g. x = Inr (Some g)")
    case False
    then show ?thesis using t Pair inv r by (auto simp: responder_tick_def resp_inv_def split: sum.splits option.splits)
  next
    case True
    then obtain g where x: "x = Inr (Some g)" by blast
    obtain oc g1 st1 where b: "process_batch env clock (unat (bg_count g)) g (st\<lparr>rs_receiver := rc\<rparr>) = (oc, g1, st1)"
      by (metis prod_cases3)
    have s1: "no_fault oc" "resp_inv (L\<lparr>l_rx := rx rc\<rparr>) st1"
      using process_batch_safe[OF inv _ _ b] fit batch[OF Pair[unfolded x]] by auto
    define rc2 where "rc2 = snd (bg_drop g1 filled (rs_receiver st1))"
    define st2 where "st2 = st1\<lparr>rs_receiver := rc2\<rparr>"
    define q where "q = (case pending_expiry st2 of None \<Rightarrow> expiries st2 | Some e \<Rightarrow> e # expiries st2)"
    have "resp_inv (L\<lparr>l_rx := rx rc2\<rparr>) st2"
      using s1(2) by (simp add: resp_inv_def conns_ok_def sender_ready_def outside_def st2_def)
    then have s2: "safe (L\<lparr>l_rx := rx rc2\<rparr>) (expire_conns env now q st2)" by (rule expire_conns_safe)
    obtain oc3 st3 where e3: "expire_conns env now q st2 = (oc3, st3)" by fastforce
    have s3: "no_fault oc3" "resp_inv (L\<lparr>l_rx := rx rc2\<rparr>) st3" using s2 e3 by auto
    have "(\<exists>r. oc = Stopped r \<and> res = Ticked oc \<and> st' = st1) \<or> res = Ticked oc3 \<and> st' = st3"
      using t Pair x b e3 by (cases oc) (auto simp: responder_tick_def Let_def rc2_def st2_def q_def split: prod.splits cong: option.case_cong)
    then show ?thesis using s1 s3 r by (auto simp: resp_inv_def)
  qed
qed

end
