(* ===== verification/Reassembly.thy ===== *)
theory Reassembly
  imports Responder
begin

text \<open>
  What the responder makes of the packets of a server. The lemmas follow one connection through any sequence of
  packets: the data collected is a prefix of what the server sent, banners are parses of such prefixes, a record
  needs a SYN/ACK with our cookie. They end with what happens to completed answers, to data on a FIN and to moved
  deadlines.
\<close>

section \<open>Reassembly\<close>

text \<open>
  \<open>D\<close> is what a server sends on a connection, \<open>s0\<close> the sequence number of its first byte. A segment belongs to the
  stream if its bytes are those of \<open>D\<close> at its sequence number.
\<close>

definition seg_of :: "u32 \<Rightarrow> bytes \<Rightarrow> u32 \<Rightarrow> bytes \<Rightarrow> bool" where
  "seg_of s0 D seq b \<longleftrightarrow> (\<exists>m. seq = s0 + word_of_nat m \<and> m + length b \<le> length D \<and> b = take (length b) (drop m D))"

definition conn_stream :: "u32 \<Rightarrow> bytes \<Rightarrow> conn \<Rightarrow> bool" where
  "conn_stream s0 D c \<longleftrightarrow> (\<exists>n \<le> length D. next_expected_seq c = s0 + word_of_nat n \<and> conn_data c = take n D)
     \<and> (\<forall>x \<in> set (reorder_buffer c). seg_of s0 D (fst x) (snd x))"

lemma seq_unique:
  assumes "s0 + word_of_nat m = s0 + (word_of_nat n :: u32)" "m < 2 ^ 32" "n < 2 ^ 32"
  shows "m = n"
proof -
  have "unat (word_of_nat m :: u32) = unat (word_of_nat n :: u32)" using assms(1) by simp
  then show ?thesis using assms(2,3) by (simp add: unat_of_nat)
qed

lemma seg_extends:
  assumes "seg_of s0 D (s0 + word_of_nat n) b" "n \<le> length D" "length D < 2 ^ 32"
  shows "take n D @ b = take (n + length b) D \<and> n + length b \<le> length D"
proof -
  obtain m where m: "s0 + word_of_nat n = s0 + (word_of_nat m :: u32)" "m + length b \<le> length D" "b = take (length b) (drop m D)"
    using assms(1) unfolding seg_of_def by blast
  then have "n = m" using seq_unique[OF m(1)] assms(2,3) by simp
  then show ?thesis using m(2,3) by (simp add: take_add)
qed

lemma stitch_stream:
  assumes "n \<le> length D" "length D < 2 ^ 32" "seq = s0 + word_of_nat n" "data = take n D"
    and "\<forall>x \<in> set buf. seg_of s0 D (fst x) (snd x)" "stitch seq data buf = (nx, d, buf')"
  shows "(\<exists>n' \<le> length D. nx = s0 + word_of_nat n' \<and> d = take n' D) \<and> (\<forall>x \<in> set buf'. seg_of s0 D (fst x) (snd x))"
  using assms
proof (induction seq data buf arbitrary: n rule: stitch.induct)
  case (1 seq data buf)
  show ?case
  proof (cases "map_of buf seq")
    case None
    then have "nx = seq" "d = data" "buf' = buf" using 1(7) by (simp_all add: stitch.simps[of seq])
    then show ?thesis using 1(2-6) by blast
  next
    case (Some b)
    have b: "seg_of s0 D (s0 + word_of_nat n) b" using map_of_SomeD[OF Some] 1(4,6) by fastforce
    have del: "\<forall>x \<in> set (AList.delete seq buf). seg_of s0 D (fst x) (snd x)" using 1(6) by (auto simp: AList.delete_eq)
    have e: "stitch (seq + word_of_nat (length b)) (data @ b) (AList.delete seq buf) = (nx, d, buf')"
      using 1(7) Some by (simp add: stitch.simps[of seq])
    have "seq + word_of_nat (length b) = s0 + word_of_nat (n + length b)" using 1(4) by simp
    then show ?thesis
      using 1(1)[OF Some _ 1(3) _ _ del e, of "n + length b"] seg_extends[OF b 1(2,3)] 1(5) by simp
  qed
qed

lemma buffer_segment_stream:
  assumes "conn_stream s0 D c" "seg_of s0 D seq payload"
  shows "conn_stream s0 D (buffer_segment ms mb seq payload c)"
proof -
  have "set (AList.update seq payload buf) \<subseteq> insert (seq, payload) (set buf)" for buf
    by (induction buf) auto
  from this[of "reorder_buffer c"] show ?thesis using assms by (auto simp: buffer_segment_def conn_stream_def Let_def)
qed


text \<open>What is known of one connection during a run: its record follows the stream, its banners are parses of prefixes.\<close>

definition stream_inv :: "('a, 'i, 'p, 'r) resp_env \<Rightarrow> ipv4 \<Rightarrow> u16 \<Rightarrow> u32 \<Rightarrow> bytes \<Rightarrow> ('a, 'i, 'p, 'r) responder \<Rightarrow> bool" where
  "stream_inv env ip port s0 D st \<longleftrightarrow> (\<forall>c. connections st (ip, port) = Some c \<longrightarrow> conn_stream s0 D c)
     \<and> (\<forall>b. (ip, port, b) \<in> set (scanlings st) \<longrightarrow> (\<exists>n \<le> length D. parser_parse env (take n D) = Inr b))"

definition keeps :: "('s \<Rightarrow> bool) \<Rightarrow> outcome \<times> 's \<Rightarrow> bool" where
  "keeps P x \<longleftrightarrow> P (snd x)"

lemma keeps_pair [simp]: "keeps P (oc, s) \<longleftrightarrow> P s"
  by (simp add: keeps_def)

lemma keeps_then: "keeps P x \<Longrightarrow> (\<And>s. P s \<Longrightarrow> keeps P (f s)) \<Longrightarrow> keeps P (and_then x f)"
  by (cases x; cases "fst x") (auto simp: and_then_def keeps_def)

lemma keeps_calls:
  "stream_inv env ip port s0 D st \<Longrightarrow> keeps (stream_inv env ip port s0 D) (do_call c st)"
  "stream_inv env ip port s0 D st \<Longrightarrow> keeps (stream_inv env ip port s0 D) (record_empty env' ip' port' st)"
  "stream_inv env ip port s0 D st \<Longrightarrow> keeps (stream_inv env ip port s0 D) (record_hit env' ip' port' h st)"
  using do_call_frame[of st c] record_result_frame[of st env' ip' port' None] record_result_frame[of st env' ip' port' "Some h"]
  by (simp_all add: keeps_def ensures_def conn_frame_def stream_inv_def record_empty_def record_hit_def)

lemma stream_inv_fields [simp]:
  "stream_inv env ip port s0 D (st\<lparr>expiries := q\<rparr>) \<longleftrightarrow> stream_inv env ip port s0 D st"
  "stream_inv env ip port s0 D (st\<lparr>pending_expiry := e\<rparr>) \<longleftrightarrow> stream_inv env ip port s0 D st"
  "stream_inv env ip port s0 D (st\<lparr>ip_adapter := a\<rparr>) \<longleftrightarrow> stream_inv env ip port s0 D st"
  "stream_inv env ip port s0 D (st\<lparr>connections := m, expiries := q\<rparr>) \<longleftrightarrow> stream_inv env ip port s0 D (st\<lparr>connections := m\<rparr>)"
  "stream_inv env ip port s0 D (st\<lparr>expiries := q, connections := m\<rparr>) \<longleftrightarrow> stream_inv env ip port s0 D (st\<lparr>connections := m\<rparr>)"
  by (simp_all add: stream_inv_def)

lemma stream_forget: "stream_inv env ip port s0 D st
    \<Longrightarrow> stream_inv env ip port s0 D (st\<lparr>connections := (connections st)(k := None)\<rparr>)"
  by (auto simp: stream_inv_def)

lemma stream_file: "stream_inv env ip port s0 D st \<Longrightarrow> (k = (ip, port) \<Longrightarrow> conn_stream s0 D c)
    \<Longrightarrow> stream_inv env ip port s0 D (st\<lparr>connections := (connections st)(k \<mapsto> c)\<rparr>)"
  by (auto simp: stream_inv_def)

lemma stream_scanling: "stream_inv env ip port s0 D st
    \<Longrightarrow> ((ip', port') = (ip, port) \<Longrightarrow> \<exists>n \<le> length D. parser_parse env (take n D) = Inr b)
    \<Longrightarrow> stream_inv env ip port s0 D (st\<lparr>scanlings := scanlings st @ [(ip', port', b)]\<rparr>)"
  by (auto simp: stream_inv_def)

lemmas keeps_rules = keeps_then keeps_calls stream_forget

text \<open>
  A packet of a server that keeps to its stream: acknowledgements carry segments of the stream, a FIN no data, and every
  SYN/ACK announces the same initial sequence number.
\<close>

definition peer_ok :: "u32 \<Rightarrow> bytes \<Rightarrow> tcp_hdr \<Rightarrow> bytes \<Rightarrow> bool" where
  "peer_ok s0 D hdr payload \<longleftrightarrow>
     (if contains_flags (th_flags hdr) Fin then payload = []
      else if contains_flags (th_flags hdr) (Syn OR Ack) then th_seq hdr + 1 = s0
      else seg_of s0 D (th_seq hdr) payload)"

lemma process_syn_ack_stream:
  assumes "stream_inv env ip port s0 D st" "(ip', th_source_port hdr) = (ip, port) \<Longrightarrow> th_seq hdr + 1 = s0"
  shows "keeps (stream_inv env ip port s0 D) (process_syn_ack env now ip' hdr st)"
proof -
  have "conn_stream s0 D \<lparr>conn_ip = ip', conn_port = p, conn_data = [], next_expected_seq = s0, next_expected_ack = a,
      reorder_buffer = [], expires_at = e\<rparr>" for p a e
    by (auto simp: conn_stream_def intro: exI[of _ 0])
  then show ?thesis
    using assms
    by (auto simp: process_syn_ack_def Let_def intro!: keeps_rules stream_file split: option.split)
qed

lemma process_fin_stream:
  assumes "stream_inv env ip port s0 D st" "(ip', th_source_port hdr) = (ip, port) \<Longrightarrow> payload = []"
  shows "keeps (stream_inv env ip port s0 D) (process_fin env ip' hdr payload st)"
  using assms
  by (auto simp: process_fin_def Let_def intro!: keeps_rules stream_scanling split: option.split sum.split parse_error.split)

lemma process_ack_stream:
  assumes inv: "stream_inv env ip port s0 D st" and D: "length D < 2 ^ 32"
    and seg: "(ip', th_source_port hdr) = (ip, port) \<Longrightarrow> seg_of s0 D (th_seq hdr) payload"
  shows "keeps (stream_inv env ip port s0 D) (process_ack env ip' hdr payload st)"
proof (cases "connections st (ip', th_source_port hdr)")
  case None
  then show ?thesis using inv by (auto simp: process_ack_def Let_def intro!: keeps_rules)
next
  case (Some c)
  obtain nx data buf where s: "stitch (th_seq hdr + word_of_nat (length payload)) (conn_data c @ payload) (reorder_buffer c)
      = (nx, data, buf)" by (metis prod_cases3)
  have c: "conn_stream s0 D c" if "(ip', th_source_port hdr) = (ip, port)"
    using inv Some that by (auto simp: stream_inv_def)
  have st: "(\<exists>n \<le> length D. nx = s0 + word_of_nat n \<and> data = take n D) \<and> (\<forall>x \<in> set buf. seg_of s0 D (fst x) (snd x))"
    if k: "(ip', th_source_port hdr) = (ip, port)" "th_seq hdr = next_expected_seq c"
  proof -
    obtain n where n: "n \<le> length D" "th_seq hdr = s0 + word_of_nat n" "conn_data c = take n D"
      "\<forall>x \<in> set (reorder_buffer c). seg_of s0 D (fst x) (snd x)"
      using c[OF k(1)] k(2) by (auto simp: conn_stream_def)
    have e: "take n D @ payload = take (n + length payload) D" "n + length payload \<le> length D"
      using seg_extends[of s0 D n payload] seg[OF k(1)] n D by auto
    show ?thesis
      using stitch_stream[OF e(2) D _ _ n(4) s] n(2,3) e(1) by simp
  qed
  then have cs: "conn_stream s0 D (c\<lparr>conn_data := data, next_expected_seq := nx, reorder_buffer := buf, expires_at := e\<rparr>)"
    if "(ip', th_source_port hdr) = (ip, port)" "th_seq hdr = next_expected_seq c" for e
    using that by (auto simp: conn_stream_def)
  note cs cs[of "expires_at c"]
  moreover have "\<exists>n \<le> length D. parser_parse env (take n D) = Inr b"
    if "(ip', th_source_port hdr) = (ip, port)" "th_seq hdr = next_expected_seq c" "parser_parse env data = Inr b" for b
    using st[OF that(1,2)] that(3) by auto
  ultimately show ?thesis
    using inv Some s seg c buffer_segment_stream
    by (auto simp: process_ack_def Let_def intro!: keeps_rules stream_file stream_scanling split: sum.split parse_error.split)
qed


text \<open>Packets one after another; an error is logged, a call that does not return ends the run.\<close>

fun feed :: "('a, 'i, 'p, 'r) resp_env \<Rightarrow> (nat \<times> bytes) list \<Rightarrow> ('a, 'i, 'p, 'r) responder
    \<Rightarrow> outcome \<times> ('a, 'i, 'p, 'r) responder" where
  "feed env [] st = (Done, st)"
| "feed env ((now, d) # ds) st =
     (case process_packet env now d st of
        (Stopped r, st') \<Rightarrow> (Stopped r, st')
      | (_, st') \<Rightarrow> feed env ds st')"

lemma feed_keeps:
  assumes "\<And>now d s. (now, d) \<in> set ds \<Longrightarrow> P s \<Longrightarrow> keeps P (process_packet env now d s)" "P st"
  shows "keeps P (feed env ds st)"
  using assms
proof (induction env ds st rule: feed.induct)
  case (2 env now d ds st)
  obtain oc st1 where r: "process_packet env now d st = (oc, st1)" by fastforce
  have "P st1" using 2(3)[of now d st] 2(4) r by simp
  then show ?case using r 2(1,2)[OF r[symmetric]] 2(3) by (cases oc) auto
qed simp

lemma process_packet_stream:
  assumes "stream_inv env ip port s0 D st" "length D < 2 ^ 32"
    and "\<And>hdr payload. view_packet d = Segment ip hdr payload \<Longrightarrow> th_source_port hdr = port \<Longrightarrow> peer_ok s0 D hdr payload"
  shows "keeps (stream_inv env ip port s0 D) (process_packet env now d st)"
proof (cases "view_packet d")
  case (Segment ip' hdr payload)
  have peer: "(ip', th_source_port hdr) = (ip, port) \<Longrightarrow> peer_ok s0 D hdr payload" using assms(3) Segment by auto
  show ?thesis
    using Segment assms(1,2) peer
    by (auto simp: process_packet_def Let_def peer_ok_def
        intro!: keeps_rules process_fin_stream process_syn_ack_stream process_ack_stream)
qed (use assms in \<open>simp_all add: process_packet_def\<close>)

lemma feed_stream:
  assumes "connections st (ip, port) = None" "\<forall>b. (ip, port, b) \<notin> set (scanlings st)" "length D < 2 ^ 32"
    and peer: "\<And>now d hdr payload. (now, d) \<in> set ds \<Longrightarrow> view_packet d = Segment ip hdr payload
      \<Longrightarrow> th_source_port hdr = port \<Longrightarrow> peer_ok s0 D hdr payload"
  shows "keeps (stream_inv env ip port s0 D) (feed env ds st)"
proof -
  have "stream_inv env ip port s0 D st" using assms(1,2) by (simp add: stream_inv_def)
  then show ?thesis using peer assms(3) by (intro feed_keeps process_packet_stream) auto
qed


section \<open>Cookies\<close>

definition valid_syn_ack :: "u64 \<Rightarrow> ipv4 \<Rightarrow> u16 \<Rightarrow> bytes \<Rightarrow> bool" where
  "valid_syn_ack seed ip port d \<longleftrightarrow> (\<exists>hdr payload. view_packet d = Segment ip hdr payload \<and> th_source_port hdr = port
     \<and> contains_flags (th_flags hdr) (Syn OR Ack) \<and> th_ack hdr = cookie ip port seed + 1)"

definition absent :: "u64 \<Rightarrow> conn_key \<Rightarrow> ('a, 'i, 'p, 'r) responder \<Rightarrow> bool" where
  "absent seed k st \<longleftrightarrow> connections st k = None \<and> rs_seed st = seed"

lemma absent_calls:
  "absent seed k st \<Longrightarrow> keeps (absent seed k) (do_call c st)"
  "absent seed k st \<Longrightarrow> keeps (absent seed k) (record_empty env ip port st)"
  "absent seed k st \<Longrightarrow> keeps (absent seed k) (record_hit env ip port h st)"
  using do_call_frame[of st c] record_result_frame[of st env ip port None] record_result_frame[of st env ip port "Some h"]
  by (simp_all add: keeps_def ensures_def conn_frame_def absent_def record_empty_def record_hit_def)

lemma absent_fields [simp]:
  "absent seed k (st\<lparr>expiries := q\<rparr>) \<longleftrightarrow> absent seed k st"
  "absent seed k (st\<lparr>pending_expiry := e\<rparr>) \<longleftrightarrow> absent seed k st"
  "absent seed k (st\<lparr>ip_adapter := a\<rparr>) \<longleftrightarrow> absent seed k st"
  "absent seed k (st\<lparr>scanlings := l\<rparr>) \<longleftrightarrow> absent seed k st"
  "absent seed k (st\<lparr>connections := m, expiries := q\<rparr>) \<longleftrightarrow> absent seed k (st\<lparr>connections := m\<rparr>)"
  "absent seed k (st\<lparr>expiries := q, connections := m\<rparr>) \<longleftrightarrow> absent seed k (st\<lparr>connections := m\<rparr>)"
  by (simp_all add: absent_def)

lemma absent_conns:
  "absent seed k st \<Longrightarrow> absent seed k (st\<lparr>connections := (connections st)(k' := None)\<rparr>)"
  "absent seed k st \<Longrightarrow> k' \<noteq> k \<Longrightarrow> absent seed k (st\<lparr>connections := (connections st)(k' \<mapsto> c)\<rparr>)"
  by (auto simp: absent_def)

lemmas absent_rules = keeps_then absent_calls absent_conns

lemma process_packet_absent:
  assumes a: "absent seed (ip, port) st" and n: "\<not> valid_syn_ack seed ip port d"
  shows "keeps (absent seed (ip, port)) (process_packet env now d st)"
proof (cases "view_packet d")
  case (Segment ip' hdr payload)
  have seed: "rs_seed st = seed" using a by (simp add: absent_def)
  have fin: "keeps (absent seed (ip, port)) (process_fin env ip' hdr payload st)"
    using a by (auto simp: process_fin_def Let_def intro!: absent_rules split: option.split sum.split parse_error.split)
  have syn: "keeps (absent seed (ip, port)) (process_syn_ack env now ip' hdr st)" if "contains_flags (th_flags hdr) (Syn OR Ack)"
    using a n that Segment
    by (auto simp: process_syn_ack_def Let_def valid_syn_ack_def seed intro!: absent_rules split: option.split)
  have ack: "keeps (absent seed (ip, port)) (process_ack env ip' hdr payload st)"
  proof (cases "(ip', th_source_port hdr) = (ip, port)")
    case True
    then have "connections st (ip', th_source_port hdr) = None" using a by (simp add: absent_def)
    then show ?thesis using a by (auto simp: process_ack_def Let_def intro!: absent_rules)
  next
    case False
    then show ?thesis
      using a by (auto simp: process_ack_def Let_def intro!: absent_rules split: option.split sum.split parse_error.split prod.split)
  qed
  show ?thesis
    using Segment a fin syn ack by (auto simp: process_packet_def Let_def intro!: absent_rules)
qed (use a in \<open>simp_all add: process_packet_def\<close>)

text \<open>
  C5. Connections need the cookie: whatever packets arrive, a record for an address and port appears only if one of
  them was a SYN/ACK from there that acknowledges the cookie of our probe.
\<close>
theorem connection_needs_cookie:
  assumes "connections st (ip, port) = None" and "feed env ds st = (oc, st')"
    and "connections st' (ip, port) \<noteq> None"
  shows "\<exists>(now, d) \<in> set ds. valid_syn_ack (rs_seed st) ip port d"
proof (rule ccontr)
  assume "\<not> ?thesis"
  then have "keeps (absent (rs_seed st) (ip, port)) (feed env ds st)"
    using assms(1) by (intro feed_keeps process_packet_absent) (auto simp: absent_def)
  then show False using assms(2,3) by (simp add: absent_def)
qed


section \<open>Expiry\<close>

lemma expire_conns_keeps:
  assumes "P st" "\<And>s k ip port. P s \<Longrightarrow> keeps P (record_empty env ip port (s\<lparr>connections := (connections s)(k := None)\<rparr>))"
    and "\<And>s e q. P s \<Longrightarrow> P (s\<lparr>pending_expiry := e, expiries := q\<rparr>)"
  shows "keeps P (expire_conns env now q st)"
  using assms
proof (induction env now q st rule: expire_conns.induct)
  case (2 env now expiry key q st)
  show ?case
  proof (cases "\<exists>c. connections st key = Some c \<and> \<not> expiry > now")
    case True
    then obtain c where c: "connections st key = Some c" "\<not> expiry > now" by blast
    obtain oc st1 where r: "record_empty env (conn_ip c) (conn_port c) (st\<lparr>connections := (connections st)(key := None)\<rparr>) = (oc, st1)"
      by fastforce
    then have s1: "P st1" using 2(4)[OF 2(3)] by (metis keeps_pair)
    show ?thesis using c r s1 2(2)[OF c r[symmetric] _ s1 2(4,5)] 2(5) by (cases oc) auto
  next
    case False
    then show ?thesis using 2 by (auto split: option.split)
  qed
qed simp

lemma expire_conns_absent: "absent seed k st \<Longrightarrow> keeps (absent seed k) (expire_conns env now q st)"
  by (rule expire_conns_keeps) (simp_all add: absent_calls absent_conns)

text \<open>
  A deadline that was moved still strikes: when the first entry of the expiry queue for a connection is due, the
  connection is forgotten, also if data that arrived since has moved its own deadline into the future.
\<close>
theorem moved_deadline_strikes:
  assumes "connections st key = Some c" and "expiry \<le> now" and "now < expires_at c"
    and "expire_conns env now ((expiry, key) # q) st = (oc, st')"
  shows "connections st' key = None"
proof -
  obtain oc1 st1 where r: "record_empty env (conn_ip c) (conn_port c) (st\<lparr>connections := (connections st)(key := None)\<rparr>) = (oc1, st1)"
    by fastforce
  have "absent (rs_seed st) key (st\<lparr>connections := (connections st)(key := None)\<rparr>)" by (simp add: absent_def)
  then have "absent (rs_seed st) key st1" using absent_calls(2) r by (metis keeps_pair)
  then show ?thesis
    using assms r expire_conns_absent[of "rs_seed st" key st1 env now q] by (cases oc1) (auto simp: absent_def)
qed

section \<open>Verdicts\<close>

lemma and_then_Done: "and_then x f = (Done, s) \<Longrightarrow> \<exists>s1. x = (Done, s1) \<and> f s1 = (Done, s)"
  by (cases x; cases "fst x") (auto simp: and_then_def)

lemma do_call_Done:
  assumes "do_call c st = (Done, st')"
  shows "conn_frame st st'" "sends st' = sends st @ [c]" "rs_rng st' = rs_rng st" "port_adapter st' = port_adapter st"
  using do_call_frame[of st c] do_call_sends[of st c] assms
  by (auto simp: do_call_def split: list.splits prod.splits)

lemma record_result_Done:
  assumes e: "record_result env ip port hash st = (Done, st')"
    and p: "port_result env ip port hash (rs_rng st) (port_adapter st) = Some (res, rng, a)"
  shows "conn_frame st st' \<and> sends st' = sends st @ (case res of None \<Rightarrow> [] | Some t \<Rightarrow> [Call_syn t]) \<and> port_adapter st' = a"
proof (cases res)
  case None
  then have "st' = st\<lparr>rs_rng := rng, port_adapter := a\<rparr>" using e p by (simp add: record_result_def)
  then show ?thesis using None by (simp add: conn_frame_def)
next
  case (Some t)
  then have d: "do_call (Call_syn t) (st\<lparr>rs_rng := rng, port_adapter := a\<rparr>) = (Done, st')" using e p by (simp add: record_result_def)
  show ?thesis using do_call_Done[OF d] Some by (simp add: conn_frame_def)
qed

text \<open>
  C19. A complete answer is recorded: when the segment that is next in order completes what the parser accepts, and no send
  fails, the banner is recorded, the connection is closed with a reset that acknowledges exactly the data taken,
  the address strategy is told, and the port strategy's next probe, if any, is sent.
\<close>
theorem ack_completes:
  assumes "connections st (ip, th_source_port hdr) = Some c" and "th_ack hdr = next_expected_ack c"
    and "th_seq hdr = next_expected_seq c" and "payload \<noteq> []"
    and "stitch (th_seq hdr + word_of_nat (length payload)) (conn_data c @ payload) (reorder_buffer c) = (nx, data, buf)"
    and "parser_parse env data = Inr banner"
    and "port_result env ip (th_source_port hdr) (Some (hash64 env banner)) (rs_rng st) (port_adapter st) = Some (res, rng, a)"
    and "process_ack env ip hdr payload st = (Done, st')"
  shows "scanlings st' = scanlings st @ [(ip, th_source_port hdr, banner)]
     \<and> connections st' = (connections st)((ip, th_source_port hdr) := None)
     \<and> ip_adapter st' = ip_result env ip (ip_adapter st)
     \<and> sends st' = sends st @ Call_send Rst ip (th_dest_port hdr) (th_source_port hdr) (th_ack hdr) nx
         # (case res of None \<Rightarrow> [] | Some t \<Rightarrow> [Call_syn t])
     \<and> port_adapter st' = a"
proof -
  let ?port = "th_source_port hdr"
  let ?rst = "Call_send Rst ip (th_dest_port hdr) ?port (next_expected_ack c) nx"
  define st1 where "st1 = st\<lparr>connections := (connections st)((ip, ?port) := None)\<rparr>"
  have "and_then (do_call ?rst st1) (\<lambda>st.
      and_then (record_hit env ip ?port (hash64 env banner) (st\<lparr>ip_adapter := ip_result env ip (ip_adapter st)\<rparr>)) (\<lambda>st.
      (Done, st\<lparr>scanlings := scanlings st @ [(ip, ?port, banner)]\<rparr>))) = (Done, st')"
    using assms(1-6,8) by (simp add: process_ack_def Let_def st1_def)
  then obtain st2 st3 where s: "do_call ?rst st1 = (Done, st2)"
    "record_hit env ip ?port (hash64 env banner) (st2\<lparr>ip_adapter := ip_result env ip (ip_adapter st2)\<rparr>) = (Done, st3)"
    "st' = st3\<lparr>scanlings := scanlings st3 @ [(ip, ?port, banner)]\<rparr>"
    by (auto dest!: and_then_Done)
  note s1 = do_call_Done[OF s(1)]
  have "port_result env ip ?port (Some (hash64 env banner)) (rs_rng st2) (port_adapter st2) = Some (res, rng, a)"
    using assms(7) s1 by (simp add: st1_def)
  then show ?thesis
    using record_result_Done[OF s(2)[unfolded record_hit_def], of res rng a] s(3) s1 assms(2)
    by (simp add: conn_frame_def st1_def)
qed

text \<open>
  The last data is taken without a look at its sequence number: data on a FIN is appended to what was received so
  far wherever it belongs in the stream, and what the parser makes of that is recorded.
\<close>
theorem fin_data_unordered:
  assumes "connections st (ip, th_source_port hdr) = Some c" and "payload \<noteq> []"
    and "parser_parse env (conn_data c @ payload) = Inr banner" and "process_fin env ip hdr payload st = (Done, st')"
  shows "scanlings st' = scanlings st @ [(ip, th_source_port hdr, banner)]"
proof -
  let ?port = "th_source_port hdr"
  let ?rst = "Call_send Rst ip (th_dest_port hdr) ?port (th_ack hdr) (th_seq hdr + 1 + word_of_nat (length payload))"
  obtain st1 where s1: "do_call ?rst st = (Done, st1)" using assms(4) unfolding process_fin_def Let_def by (auto dest: and_then_Done)
  note f = do_call_Done[OF s1]
  define st2 where "st2 = st1\<lparr>connections := (connections st1)((ip, ?port) := None), ip_adapter := ip_result env ip (ip_adapter st1)\<rparr>"
  obtain st3 where s3: "record_hit env ip ?port (hash64 env banner) st2 = (Done, st3)"
    "st' = st3\<lparr>scanlings := scanlings st3 @ [(ip, ?port, banner)]\<rparr>"
    using assms f s1 unfolding process_fin_def Let_def
    by (auto simp: and_then_def st2_def conn_frame_def split: prod.splits outcome.splits)
  then show ?thesis
    using record_result_frame[of st2 env ip ?port "Some (hash64 env banner)"] f by (simp add: record_hit_def conn_frame_def st2_def)
qed

section \<open>Reading back what a sender writes\<close>

lemma nth_append_len: "length xs = n \<Longrightarrow> n \<le> i \<Longrightarrow> (xs @ ys) ! i = ys ! (i - n)"
  by (simp add: nth_append)

lemma view_packet_render:
  assumes eth: "length (eth_header sh) = 14" and len: "unat len = 48 + length body"
  shows "view_packet (eth_header sh @ ip_header sh len ck dst @ tcp_header sport dport seq ack fl tck @ body)
     = Segment (source_ip sh) \<lparr>th_source_port = sport, th_dest_port = dport, th_seq = seq, th_ack = ack, th_flags = fl\<rparr> body"
    (is "view_packet ?d = _")
proof -
  have d: "?d ! (14 + i) = (ip_header sh len ck dst @ tcp_header sport dport seq ack fl tck @ body) ! i" for i
    using nth_append_len[OF eth, of "14 + i"] by simp
  have t: "drop 34 ?d = tcp_header sport dport seq ack fl tck @ body" using eth by (simp add: ip_header_length)
  have l: "length ?d = 62 + length body" using eth by (simp add: ip_header_length tcp_header_def tcp_options_def)
  have ip: "?d ! 14 = 0x45" "from_be16 (?d ! 16) (?d ! 17) = len"
    "from_be32 (?d ! 26) (?d ! 27) (?d ! 28) (?d ! 29) = source_ip sh"
    using d[of 0] d[of 2] d[of 3] d[of 12] d[of 13] d[of 14] d[of 15] from_to_be16[of len] from_to_be32[of "source_ip sh"]
    by (simp_all add: ip_header_def to_be16_def to_be32_def)
  have "34 \<le> length ?d" using l by linarith
  then have "drop 34 ?d ! 12 = ?d ! (34 + 12)" by (rule nth_drop)
  moreover have "(tcp_header sport dport seq ack fl tck @ body) ! 12 = 0x70" by (simp add: tcp_header_def to_be16_def to_be32_def)
  ultimately have off: "?d ! 46 = 0x70" unfolding t by simp
  have h: "tcp_hdr_ref_from_bytes (take 14 (drop 34 ?d)) = Some \<lparr>th_source_port = sport, th_dest_port = dport, th_seq = seq,
      th_ack = ack, th_flags = fl\<rparr>"
    unfolding t using from_to_be16[of sport] from_to_be16[of dport] from_to_be32[of seq] from_to_be32[of ack]
    by (simp add: tcp_header_def to_be16_def to_be32_def)
  have b: "drop 62 ?d = body" using eth by (simp add: ip_header_length tcp_header_def tcp_options_def)
  show ?thesis
    unfolding view_packet_def Let_def ip using l len h b off by simp
qed


lemma eth_header_length: "macs_ok sh \<Longrightarrow> length (eth_header sh) = 14"
  by (simp add: macs_ok_def eth_header_def)

text \<open>
  C20. Segments read back: what the responder reads from a valid packet of a sender is exactly what the sender was
  asked to write, the sending address, both ports, both numbers, the flags and the body.
\<close>
theorem segment_roundtrip:
  assumes "valid_packet sh dst sport dport seq ack fl body bs" and "macs_ok sh"
  shows "view_packet bs = Segment (source_ip sh)
     \<lparr>th_source_port = sport, th_dest_port = dport, th_seq = seq, th_ack = ack, th_flags = fl\<rparr> body"
  using assms view_packet_render[OF eth_header_length] by (auto simp: valid_packet_def)

theorem segment_roundtrip_witness:
  "\<exists>bs. view_packet bs = Segment 0x0A000002
     \<lparr>th_source_port = 61000, th_dest_port = 25565, th_seq = cookie 0x01020304 25565 77, th_ack = 0, th_flags = Syn\<rparr> []"
proof -
  let ?t = "\<lparr>pt_source_port = 61000, pt_ip = 0x01020304, pt_destination_port = 25565\<rparr>"
  obtain bs where v: "valid_syn (demo_shared False) 77 ?t bs"
    using write_syn_spec[OF demo_inv(1)[of False], of 77 0 ?t] demo_inv(2)[of False] by blast
  have "macs_ok (demo_shared False)" "source_ip (demo_shared False) = 0x0A000002" by (simp_all add: macs_ok_def demo_shared_def)
  then show ?thesis using segment_roundtrip[OF v[unfolded valid_syn_def]] by auto
qed

section \<open>A concrete responder\<close>

text \<open>A send that got its slot and needs no wake-up succeeds.\<close>

lemma send_gets_slot:
  assumes inv: "sender_inv sh start s mem" and w: "wait_reserve ws 1 (s_tx s) cmp = (Inr idx, tx, cmp1)"
  shows "\<exists>s' mem'. send FLAGS ws fl ok ip sport port seq ack s mem cmp = (kick fl ok, s', mem', cmp1)
       \<and> cached_prod (s_tx s') = cached_prod tx \<and> cached_cons (s_tx s') = cached_cons tx"
    and "62 + length body \<le> unat (um_frame_size (s_umem s)) \<Longrightarrow>
     \<exists>s' mem'. send_with_data ws fl ok ip sport port seq ack body s mem cmp = (kick fl ok, s', mem', cmp1)
       \<and> cached_prod (s_tx s') = cached_prod tx \<and> cached_cons (s_tx s') = cached_cons tx"
    and "\<exists>s' mem'. send_syn ws fl ok seed t s mem cmp = (kick fl ok, s', mem', cmp1)
       \<and> cached_prod (s_tx s') = cached_prod tx \<and> cached_cons (s_tx s') = cached_cons tx"
proof -
  note wf = wait_reserve_frame[OF w]
  have fs: "62 + length ([] :: bytes) \<le> unat (um_frame_size (s_umem s))" using inv by (simp add: sender_inv_def)
  note o = send_slot(1)[OF inv, of tx _ idx]
  show "\<exists>s' mem'. send FLAGS ws fl ok ip sport port seq ack s mem cmp = (kick fl ok, s', mem', cmp1)
       \<and> cached_prod (s_tx s') = cached_prod tx \<and> cached_cons (s_tx s') = cached_cons tx"
    using w wf o[OF _ _ fs] fs by (auto simp: send_def Let_def eth_tcp_ip_hdr_size_def submit_def ring_index_mut_def)
  show "\<exists>s' mem'. send_syn ws fl ok seed t s mem cmp = (kick fl ok, s', mem', cmp1)
       \<and> cached_prod (s_tx s') = cached_prod tx \<and> cached_cons (s_tx s') = cached_cons tx"
    using w wf o[OF _ _ fs] fs by (auto simp: send_syn_def write_syn_def Let_def eth_tcp_ip_hdr_size_def submit_def ring_index_mut_def)
  assume len: "62 + length body \<le> unat (um_frame_size (s_umem s))"
  show "\<exists>s' mem'. send_with_data ws fl ok ip sport port seq ack body s mem cmp = (kick fl ok, s', mem', cmp1)
       \<and> cached_prod (s_tx s') = cached_prod tx \<and> cached_cons (s_tx s') = cached_cons tx"
    using w wf o[OF _ _ len] len by (auto simp: send_with_data_def Let_def submit_def ring_index_mut_def)
qed

lemma call_succeeds:
  assumes r: "sender_ready L st" and c: "call_fits (l_frame L) c" and k: "kernel st = k # ks"
    and w: "wait_reserve (so_waits k) 1 (s_tx (rs_sender st)) (rs_completer st) = (Inr idx, tx, cmp)"
    and q: "kick (so_flags k) (so_sendto k) = Sent"
  shows "\<exists>st'. do_call c st = (Done, st') \<and> kernel st' = ks \<and> rs_completer st' = cmp
     \<and> cached_prod (s_tx (rs_sender st')) = cached_prod tx \<and> cached_cons (s_tx (rs_sender st')) = cached_cons tx"
proof -
  have si: "sender_inv (l_shared L) (l_start L) (rs_sender st) (rs_memory st)" "unat (um_frame_size (s_umem (rs_sender st))) = l_frame L"
    using r by (auto simp: sender_ready_def)
  note g = send_gets_slot[OF si(1) w, unfolded si(2)]
  show ?thesis
  proof (cases c)
    case (Call_syn t)
    then show ?thesis using k q g(3)[of "so_flags k" "so_sendto k" "rs_seed st" t] by (auto simp: do_call_def outcome_of_def)
  next
    case (Call_send FLAGS ip sport port seq ack)
    then show ?thesis using k q g(1)[of FLAGS "so_flags k" "so_sendto k" ip sport port seq ack] by (auto simp: do_call_def outcome_of_def)
  next
    case (Call_data ip sport port seq ack body)
    then show ?thesis
      using k q c g(2)[of body "so_flags k" "so_sendto k" ip sport port seq ack] by (auto simp: do_call_def outcome_of_def)
  qed
qed


text \<open>
  A responder with two free transmit slots, no strategy that probes further, and a parser that wants three bytes.
\<close>

definition demo_kernel :: send_obs where
  "demo_kernel = \<lparr>so_waits = [demo_obs], so_flags = 0, so_sendto = True\<rparr>"

definition demo_parse_env :: "(bytes \<Rightarrow> parse_error + bytes) \<Rightarrow> (unit, unit, bytes, unit) resp_env" where
  "demo_parse_env parser = \<lparr>port_result = \<lambda>_ _ _ r a. Some (None, r, a), ip_result = \<lambda>_ i. i, payload_build = \<lambda>_ _. Some [1, 2],
     parser_parse = parser, hash64 = \<lambda>_. 0\<rparr>"

definition demo_parser :: "bytes \<Rightarrow> parse_error + bytes" where
  "demo_parser d = (if length d < 3 then Inl Incomplete else Inr d)"

definition demo_resp_env :: "(unit, unit, bytes, unit) resp_env" where
  "demo_resp_env = demo_parse_env demo_parser"

definition demo_responder :: "(unit, unit, bytes, unit) responder" where
  "demo_responder = responder_new demo_receiver (fst (demo_sender False)) (snd (demo_sender False)) demo_completer
     () () () 77 4 4096 10 (replicate 2 demo_kernel)"

definition demo_layout :: layout where
  "demo_layout = \<lparr>l_shared = demo_shared False, l_start = 0, l_frame = 2048, l_slots = 2, l_mem = snd (demo_sender False),
     l_rx = rx demo_receiver\<rparr>"

definition demo_ready :: "nat \<Rightarrow> (unit, unit, bytes, unit) responder \<Rightarrow> bool" where
  "demo_ready n st \<longleftrightarrow> sender_ready demo_layout st \<and> conns_ok st \<and> rs_completer st = demo_completer
     \<and> cached_cons (s_tx (rs_sender st)) = 2 \<and> cached_prod (s_tx (rs_sender st)) = word_of_nat (2 - n)
     \<and> n \<le> 2 \<and> kernel st = replicate n demo_kernel"

lemma demo_responder_ready: "demo_ready 2 demo_responder"
proof -
  have "\<exists>sl. s_tx (fst (demo_sender False)) = demo_tx\<lparr>slots := sl\<rparr>"
    unfolding demo_sender_def by (rule sender_new_ring)
  then show ?thesis
    using demo_inv[of False]
    by (auto simp: demo_ready_def demo_responder_def responder_new_def sender_ready_def demo_layout_def demo_umem_def conns_ok_def
        demo_tx_def ring_new_def)
qed

lemma demo_call:
  assumes r: "demo_ready (Suc n) st" and c: "call_fits 2048 c"
  shows "\<exists>st'. do_call c st = (Done, st') \<and> demo_ready n st'"
proof -
  let ?tx = "s_tx (rs_sender st)"
  have t: "cached_cons ?tx = 2" "cached_prod ?tx = word_of_nat (2 - Suc n)" "Suc n \<le> 2" and k: "kernel st = demo_kernel # replicate n demo_kernel"
    and sr: "sender_ready demo_layout st" and co: "conns_ok st" using r by (auto simp: demo_ready_def)
  have "(1 :: u32) \<le> 2 - word_of_nat (2 - Suc n)" "(2 :: u32) \<noteq> word_of_nat (2 - Suc n)"
    using t(3) by (cases n; auto simp: numeral_2_eq_2)+
  then have "reserve (?tx\<lparr>rflags := 1, cons_ctr := 0\<rparr>) 1
      = (Some (cached_prod ?tx), ?tx\<lparr>rflags := 1, cons_ctr := 0, cached_prod := cached_prod ?tx + 1\<rparr>)"
    using t(1,2) by (simp add: reserve_def free_def)
  then have w: "wait_reserve (so_waits demo_kernel) 1 ?tx (rs_completer st)
      = (Inr (cached_prod ?tx), ?tx\<lparr>rflags := 1, cons_ctr := 0, cached_prod := cached_prod ?tx + 1\<rparr>, rs_completer st)"
    by (simp add: demo_kernel_def demo_obs_def)
  have q: "kick (so_flags demo_kernel) (so_sendto demo_kernel) = Sent" by (simp add: demo_kernel_def kick_def)
  have lf: "l_frame demo_layout = 2048" by (simp add: demo_layout_def)
  from call_succeeds[OF sr _ k w q, of c] c lf obtain st' where d: "do_call c st = (Done, st')" "kernel st' = replicate n demo_kernel"
    "rs_completer st' = rs_completer st" "cached_prod (s_tx (rs_sender st')) = cached_prod ?tx + 1" "cached_cons (s_tx (rs_sender st')) = 2"
    using t(1) by auto
  have "resp_inv (demo_layout\<lparr>l_rx := rx (rs_receiver st)\<rparr>) st"
    using sr co by (simp add: resp_inv_def sender_ready_def outside_def)
  from do_call_safe[OF this, of c] c d(1) lf have "sender_ready demo_layout st'" "conns_ok st'"
    by (simp_all add: resp_inv_def sender_ready_def outside_def)
  moreover have "word_of_nat (2 - Suc n) + 1 = (word_of_nat (2 - n) :: u32)"
    using t(3) by (cases n) (auto simp: numeral_2_eq_2)
  ultimately show ?thesis using d r t by (auto simp: demo_ready_def)
qed


definition demo_peer :: shared_data where
  "demo_peer = \<lparr>source_ip = 0x01020304, gateway = [2, 0, 0, 0, 0, 2], interface = [2, 0, 0, 0, 0, 1], xdp_checksum_offload = False\<rparr>"

definition demo_packet :: "u8 \<Rightarrow> u32 \<Rightarrow> u32 \<Rightarrow> bytes \<Rightarrow> bytes" where
  "demo_packet fl seq ack body = eth_header demo_peer @ ip_header demo_peer (48 + word_of_nat (length body)) 0 0x0A000002
     @ tcp_header 25565 61000 seq ack fl 0 @ body"

definition demo_hdr :: "u8 \<Rightarrow> u32 \<Rightarrow> u32 \<Rightarrow> tcp_hdr" where
  "demo_hdr fl seq ack = \<lparr>th_source_port = 25565, th_dest_port = 61000, th_seq = seq, th_ack = ack, th_flags = fl\<rparr>"

lemma demo_view:
  assumes "length body \<le> 1000"
  shows "view_packet (demo_packet fl seq ack body) = Segment 0x01020304 (demo_hdr fl seq ack) body"
  using view_packet_render[of demo_peer _ body] unat_len16[of "length body"] assms
  by (simp add: demo_packet_def demo_peer_def eth_header_def demo_hdr_def)

abbreviation demo_cookie :: u32 where "demo_cookie \<equiv> cookie 0x01020304 25565 77"

definition demo_conn :: conn where
  "demo_conn = \<lparr>conn_ip = 0x01020304, conn_port = 25565, conn_data = [], next_expected_seq = 6,
     next_expected_ack = demo_cookie + 3, reorder_buffer = [], expires_at = 10\<rparr>"

lemma flags_eval:
  "contains_flags (Syn OR Ack) (Syn OR Ack)" "\<not> contains_flags (Syn OR Ack) Rst" "\<not> contains_flags (Syn OR Ack) Fin"
  "contains_flags Ack Ack" "\<not> contains_flags Ack Rst" "\<not> contains_flags Ack Fin" "\<not> contains_flags Ack (Syn OR Ack)"
  by (simp_all add: contains_flags_def Syn_def Ack_def Rst_def Fin_def)

lemma demo_syn_ack:
  "\<exists>st'. process_packet (demo_parse_env parser) 0 (demo_packet (Syn OR Ack) 5 (demo_cookie + 1) []) demo_responder = (Done, st')
     \<and> demo_ready 1 st' \<and> connections st' = [(0x01020304, 25565) \<mapsto> demo_conn] \<and> scanlings st' = []
     \<and> expiries st' = [(10, (0x01020304, 25565))]"
proof -
  obtain st' where d: "do_call (Call_data 0x01020304 61000 25565 (demo_cookie + 1) 6 [1, 2]) demo_responder = (Done, st')" "demo_ready 1 st'"
    using demo_call[of 1 demo_responder] demo_responder_ready by (force simp: numeral_2_eq_2)
  define st2 where "st2 = st'\<lparr>expiries := expiries st' @ [(10, (0x01020304, 25565))],
      connections := (connections st')((0x01020304, 25565) \<mapsto> demo_conn)\<rparr>"
  have f: "rs_timeout st' = 10" "scanlings st' = []" "expiries st' = []" "connections st' = Map.empty"
    using do_call_Done(1)[OF d(1)] by (simp_all add: conn_frame_def demo_responder_def responder_new_def)
  have "rs_seed demo_responder = 77" by (simp add: demo_responder_def responder_new_def)
  then have "process_packet (demo_parse_env parser) 0 (demo_packet (Syn OR Ack) 5 (demo_cookie + 1) []) demo_responder = (Done, st2)"
    using d(1) f(1) by (simp add: process_packet_def demo_view flags_eval demo_hdr_def process_syn_ack_def demo_parse_env_def Let_def
        and_then_def st2_def demo_conn_def add.commute)
  moreover have "demo_ready 1 st2"
    using d(2) f by (simp add: demo_ready_def st2_def sender_ready_def conns_ok_def conn_ok_def demo_conn_def)
  ultimately show ?thesis using f by (simp add: st2_def)
qed

lemma demo_ack:
  assumes "parser data = Inr b" "data \<noteq> []" and "demo_ready 1 st" "connections st = [(0x01020304, 25565) \<mapsto> demo_conn]" "scanlings st = []"
  shows "\<exists>st'. process_ack (demo_parse_env parser) 0x01020304 (demo_hdr Ack 6 (demo_cookie + 3)) data st = (Done, st')
     \<and> scanlings st' = [(0x01020304, 25565, b)]"
proof -
  let ?st = "st\<lparr>connections := (connections st)((0x01020304, 25565) := None)\<rparr>"
  have "demo_ready 1 ?st" using assms(3) by (simp add: demo_ready_def sender_ready_def conns_ok_def)
  then obtain st' where d: "do_call (Call_send Rst 0x01020304 61000 25565 (demo_cookie + 3) (6 + word_of_nat (length data))) ?st = (Done, st')"
    using demo_call[of 0 ?st "Call_send Rst 0x01020304 61000 25565 (demo_cookie + 3) (6 + word_of_nat (length data))"] by auto
  have st: "stitch x data [] = (x, data, [])" for x by (simp add: stitch.simps)
  have "process_ack (demo_parse_env parser) 0x01020304 (demo_hdr Ack 6 (demo_cookie + 3)) data st
      = (Done, st'\<lparr>ip_adapter := (), scanlings := scanlings st' @ [(0x01020304, 25565, b)]\<rparr>)"
    using d st assms(1,2,4)
    by (simp add: process_ack_def demo_hdr_def demo_conn_def demo_parse_env_def Let_def and_then_def record_hit_def record_result_def)
  then show ?thesis using do_call_Done(1)[OF d] assms(5) by (simp add: conn_frame_def)
qed


theorem connection_needs_cookie_witness:
  "\<exists>st'. feed demo_resp_env [(0, demo_packet (Syn OR Ack) 5 (demo_cookie + 1) [])] demo_responder = (Done, st')
     \<and> connections st' (0x01020304, 25565) = Some demo_conn
     \<and> valid_syn_ack 77 0x01020304 25565 (demo_packet (Syn OR Ack) 5 (demo_cookie + 1) [])"
proof -
  obtain st' where s: "process_packet demo_resp_env 0 (demo_packet (Syn OR Ack) 5 (demo_cookie + 1) []) demo_responder = (Done, st')"
    "connections st' = [(0x01020304, 25565) \<mapsto> demo_conn]" using demo_syn_ack unfolding demo_resp_env_def by blast
  then have f: "feed demo_resp_env [(0, demo_packet (Syn OR Ack) 5 (demo_cookie + 1) [])] demo_responder = (Done, st')" by simp
  have n: "connections demo_responder (0x01020304, 25565) = None" "rs_seed demo_responder = 77"
    by (simp_all add: demo_responder_def responder_new_def)
  have "\<exists>(now, d) \<in> set [(0 :: nat, demo_packet (Syn OR Ack) 5 (demo_cookie + 1) [])]. valid_syn_ack (rs_seed demo_responder) 0x01020304 25565 d"
    by (rule connection_needs_cookie[OF n(1) f]) (simp add: s(2))
  then show ?thesis using s(2) f n(2) by simp
qed


theorem ack_completes_witness:
  "\<exists>st st'. demo_ready 1 st \<and> process_ack demo_resp_env 0x01020304 (demo_hdr Ack 6 (demo_cookie + 3)) [7, 8, 9] st = (Done, st')
     \<and> scanlings st' = [(0x01020304, 25565, [7, 8, 9])] \<and> connections st' (0x01020304, 25565) = None"
proof -
  obtain st where s: "demo_ready 1 st" "connections st = [(0x01020304, 25565) \<mapsto> demo_conn]" "scanlings st = []"
    using demo_syn_ack unfolding demo_resp_env_def by blast
  obtain st' where a: "process_ack demo_resp_env 0x01020304 (demo_hdr Ack 6 (demo_cookie + 3)) [7, 8, 9] st = (Done, st')"
    using demo_ack[of demo_parser "[7, 8, 9]" "[7, 8, 9]", OF _ _ s] by (auto simp: demo_resp_env_def demo_parser_def)
  let ?h = "demo_hdr Ack 6 (demo_cookie + 3)"
  have c: "connections st (0x01020304, th_source_port ?h) = Some demo_conn" "th_ack ?h = next_expected_ack demo_conn"
    "th_seq ?h = next_expected_seq demo_conn" "[7, 8, 9 :: u8] \<noteq> []"
    "stitch (th_seq ?h + word_of_nat (length [7, 8, 9 :: u8])) (conn_data demo_conn @ [7, 8, 9]) (reorder_buffer demo_conn) = (9, [7, 8, 9], [])"
    "parser_parse demo_resp_env [7, 8, 9] = Inr [7, 8, 9]"
    "port_result demo_resp_env 0x01020304 (th_source_port ?h) (Some (hash64 demo_resp_env [7, 8, 9])) (rs_rng st) (port_adapter st)
       = Some (None, (), ())"
    using s(2) by (simp_all add: demo_hdr_def demo_conn_def demo_resp_env_def demo_parse_env_def demo_parser_def stitch.simps)
  have p: "th_source_port ?h = 25565" by (simp add: demo_hdr_def)
  show ?thesis using ack_completes[OF c a, unfolded p] s a by (intro exI[of _ st] exI[of _ st']) simp
qed

theorem fin_data_unordered_witness:
  "\<exists>st st'. process_fin demo_resp_env 0x01020304 (demo_hdr Fin 4000 9) [7, 8, 9] st = (Done, st')
     \<and> connections st (0x01020304, 25565) = Some demo_conn \<and> scanlings st' = [(0x01020304, 25565, [7, 8, 9])]"
proof -
  obtain st where s: "demo_ready 1 st" "connections st = [(0x01020304, 25565) \<mapsto> demo_conn]" "scanlings st = []"
    using demo_syn_ack unfolding demo_resp_env_def by blast
  obtain st1 where d: "do_call (Call_send Rst 0x01020304 61000 25565 9 4004) st = (Done, st1)"
    using demo_call[of 0 st "Call_send Rst 0x01020304 61000 25565 9 4004"] s(1) by auto
  then have "\<exists>st'. process_fin demo_resp_env 0x01020304 (demo_hdr Fin 4000 9) [7, 8, 9] st = (Done, st')"
    using s(2) do_call_Done(1)[OF d]
    by (simp add: process_fin_def demo_hdr_def Let_def and_then_def conn_frame_def demo_conn_def demo_resp_env_def demo_parse_env_def demo_parser_def record_hit_def record_result_def)
  then obtain st' where f: "process_fin demo_resp_env 0x01020304 (demo_hdr Fin 4000 9) [7, 8, 9] st = (Done, st')" by blast
  have "parser_parse demo_resp_env (conn_data demo_conn @ [7, 8, 9]) = Inr [7, 8, 9]" by (simp add: demo_conn_def demo_resp_env_def demo_parse_env_def demo_parser_def)
  moreover have "connections st (0x01020304, th_source_port (demo_hdr Fin 4000 9)) = Some demo_conn" "th_source_port (demo_hdr Fin 4000 9) = 25565"
    using s(2) by (simp_all add: demo_hdr_def)
  ultimately have "scanlings st' = [(0x01020304, 25565, [7, 8, 9])]"
    using fin_data_unordered[OF _ _ _ f, of demo_conn "[7, 8, 9]"] s(3) by simp
  then show ?thesis using f s(2) by (intro exI[of _ st] exI[of _ st']) simp
qed

theorem moved_deadline_strikes_witness:
  "\<exists>st oc st'. connections st (0x01020304, 25565) = Some (demo_conn\<lparr>expires_at := 20\<rparr>)
     \<and> expire_conns demo_resp_env 12 [(10, (0x01020304, 25565)), (20, (0x01020304, 25565))] st = (oc, st')
     \<and> connections st' (0x01020304, 25565) = None"
proof -
  let ?st = "demo_responder\<lparr>connections := [(0x01020304, 25565) \<mapsto> demo_conn\<lparr>expires_at := 20\<rparr>]\<rparr>"
  obtain oc st' where e: "expire_conns demo_resp_env 12 [(10, (0x01020304, 25565)), (20, (0x01020304, 25565))] ?st = (oc, st')"
    by fastforce
  then show ?thesis
    using moved_deadline_strikes[OF _ _ _ e, of "demo_conn\<lparr>expires_at := 20\<rparr>"] by (intro exI[of _ ?st]) auto
qed

lemma tcp_frame_render:
  assumes eth: "length (gateway sh) = 6" "length (interface sh) = 6"
  shows "tcp_frame (eth_header sh @ ip_header sh len ck dst @ tcp_header sport dport seq ack fl tck @ body)"
    (is "tcp_frame ?d")
proof -
  have l: "length (eth_header sh) = 14" using eth by (simp add: eth_header_def)
  have e: "?d ! 12 = 8" "?d ! 13 = 0" using eth by (simp_all add: eth_header_def nth_append)
  have d: "?d ! (14 + i) = (ip_header sh len ck dst @ tcp_header sport dport seq ack fl tck @ body) ! i" for i
    using nth_append_len[OF l, of "14 + i"] by simp
  have "?d ! 14 = 0x45" "?d ! 23 = 6" using d[of 0] d[of 9] by (simp_all add: ip_header_def to_be16_def)
  moreover have "length ?d = 62 + length body" using l by (simp add: ip_header_length tcp_header_def tcp_options_def)
  ultimately show ?thesis using e unfolding tcp_frame_def tcp_offset_def by simp
qed


end
