(* ===== verification/Saturator.thy ===== *)
theory Saturator
  imports Scanner Reassembly
begin

text \<open>
  The thread that serves one queue of the network card (\<^verbatim>\<open>spawn_saturator\<close> of \<^verbatim>\<open>controller/session.rs\<close>): in each round
  it lets the scanner send a batch, the responder handle the received packets, passes the banners on to the database
  thread and drains the completion ring. Scanner and responder have a sender each; the two senders, the receive frames
  between theirs and the completion ring share one packet memory.

  \<open>saturator_safe\<close> shows that no round of any run faults and that the two senders and the received packets do not get into
  each other's way.
\<close>

section \<open>Rounds\<close>

text \<open>The packet memory and the completer are those of the responder's record. \<open>sat_queue\<close> is what was sent to the database thread.\<close>

record ('a, 'i, 'p, 'r) saturator =
  sat_scanner :: scanner
  sat_responder :: "('a, 'i, 'p, 'r) responder"
  sat_queue :: "(ipv4 \<times> u16 \<times> 'p) list"

text \<open>What the controller makes for one queue, and what a session makes of it.\<close>

type_synonym queue = "sender \<times> receiver \<times> sender \<times> u64 ring"

definition queue_new :: "shared_data \<Rightarrow> umem \<Rightarrow> descriptor ring \<Rightarrow> u64 ring \<Rightarrow> descriptor ring \<Rightarrow> u64 ring \<Rightarrow> descriptor ring
    \<Rightarrow> u32 \<Rightarrow> u32 \<Rightarrow> bool \<Rightarrow> memory \<Rightarrow> receive_error + queue \<times> memory" where
  "queue_new shared um tx f r c tx_shared rs batch recvfrom_ok mem =
     (let (sd, mem) = sender_new shared um tx 0 mem
      in case receiver_new um f r rs batch recvfrom_ok of
           Inl e \<Rightarrow> Inl e
         | Inr rc \<Rightarrow> (let (sd_shared, mem) = sender_new shared um tx_shared (2 * rs) mem in Inr ((sd, rc, sd_shared, c), mem)))"

text \<open>The arguments a session adds: seed, adapters, the limits and the clock.\<close>

record ('a, 'i, 'r) session_args =
  sn_seed :: u64
  sn_port :: 'a
  sn_ip :: 'i
  sn_rng :: 'r
  sn_ring :: u32
  sn_segments :: nat
  sn_bytes :: nat
  sn_timeout :: nat
  sn_rate :: rat
  sn_batch :: u32
  sn_now :: rat
  sn_completed :: usize
  sn_kernel :: "send_obs list"

definition saturator_new :: "('a, 'i, 'r) session_args \<Rightarrow> queue \<Rightarrow> memory \<Rightarrow> ('a, 'i, 'p, 'r) saturator" where
  "saturator_new n q mem = (case q of (sd, rc, sd_shared, c) \<Rightarrow>
     \<lparr>sat_scanner = scanner_new sd (sn_seed n) (sn_ring n),
      sat_responder = responder_new rc sd_shared mem (completer_new (sn_now n) (sn_batch n) c (sn_rate n) (sn_completed n))
        (sn_port n) (sn_ip n) (sn_rng n) (sn_seed n) (sn_segments n) (sn_bytes n) (sn_timeout n) (sn_kernel n),
      sat_queue = []\<rparr>)"

text \<open>What one round sees of the other threads, the kernel and the clock.\<close>

record sat_obs =
  ob_steals :: "steal_outcome list"
  ob_waits :: "wait_obs list"
  ob_flags :: u32
  ob_sendto :: bool
  ob_rx :: rx_obs
  ob_clock :: "nat \<Rightarrow> nat"
  ob_now :: nat
  ob_comp_now :: rat
  ob_cr_prod :: u32

text \<open>A round ends with the flag that resets or extends the back-off, or it has stopped in a call.\<close>

datatype sat_result = Round bool | Stuck send_result

definition saturator_round :: "('a, 'i, 'p, 'r) resp_env \<Rightarrow> sat_obs \<Rightarrow> usize \<Rightarrow> ('a, 'i, 'p, 'r) saturator
    \<Rightarrow> sat_result \<times> usize \<times> ('a, 'i, 'p, 'r) saturator" where
  "saturator_round env ob filled st =
     (let rsp = sat_responder st;
          (r, sc, mem, cmp) = scanner_tick (ob_steals ob) (ob_waits ob) (ob_flags ob) (ob_sendto ob) (sat_scanner st)
             (rs_memory rsp) (rs_completer rsp);
          st1 = st\<lparr>sat_scanner := sc, sat_responder := rsp\<lparr>rs_memory := mem, rs_completer := cmp\<rparr>\<rparr>
      in if r \<noteq> None \<and> r \<noteq> Some Sent \<and> r \<noteq> Some Wakeup_failed then (Stuck (the r), filled, st1)
         else
           (let (t, filled, rsp) = responder_tick env (ob_rx ob) (ob_clock ob) (ob_now ob) filled (sat_responder st1)
            in case t of
                 Ticked (Stopped x) \<Rightarrow> (Stuck x, filled, st1\<lparr>sat_responder := rsp\<rparr>)
               | _ \<Rightarrow>
                   (let queue = sat_queue st1 @ scanlings rsp;
                        cmp = rs_completer rsp;
                        (released, cmp) = completer_tick (ob_comp_now ob) (cmp\<lparr>cr := (cr cmp)\<lparr>prod_ctr := ob_cr_prod ob\<rparr>\<rparr>);
                        progressed = (r \<noteq> Some Wakeup_failed \<or> t = Ticked Done \<or> released)
                    in (Round progressed, filled,
                        st1\<lparr>sat_responder := rsp\<lparr>scanlings := [], rs_completer := cmp\<rparr>, sat_queue := queue\<rparr>))))"

definition saturator_into_inner :: "('a, 'i, 'p, 'r) saturator \<Rightarrow> queue" where
  "saturator_into_inner st = (scanner_into_inner (sat_scanner st), rs_receiver (sat_responder st), rs_sender (sat_responder st),
     completer_into_inner (rs_completer (sat_responder st)))"

section \<open>One packet memory for all\<close>

text \<open>The first frames of the scanner's sender, of the fill ring and of the responder's sender; all rings have one size.\<close>

record sat_layout =
  sl_shared :: shared_data
  sl_frame :: nat
  sl_ring :: u32
  sl_scan :: nat
  sl_rx :: nat
  sl_resp :: nat

definition layout_ok :: "sat_layout \<Rightarrow> bool" where
  "layout_ok S \<longleftrightarrow> 86 \<le> sl_frame S \<and> sl_scan S + unat (sl_ring S) \<le> sl_rx S \<and> sl_rx S + unat (sl_ring S) \<le> sl_resp S"

definition sender_fits :: "sat_layout \<Rightarrow> nat \<Rightarrow> sender \<Rightarrow> memory \<Rightarrow> bool" where
  "sender_fits S start s mem \<longleftrightarrow> sender_inv (sl_shared S) start s mem \<and> unat (um_frame_size (s_umem s)) = sl_frame S
     \<and> ring_size (s_tx s) = sl_ring S"

definition sat_inv :: "sat_layout \<Rightarrow> ('a, 'i, 'p, 'r) saturator \<Rightarrow> bool" where
  "sat_inv S st \<longleftrightarrow> layout_ok S \<and> conns_ok (sat_responder st)
     \<and> sender_fits S (sl_scan S) (sc_sender (sat_scanner st)) (rs_memory (sat_responder st))
     \<and> sender_fits S (sl_resp S) (rs_sender (sat_responder st)) (rs_memory (sat_responder st))"

text \<open>The packets a round receives lie in the receive frames and have passed the filter.\<close>

definition packets_ok :: "sat_layout \<Rightarrow> rx_obs \<Rightarrow> ('a, 'i, 'p, 'r) responder \<Rightarrow> bool" where
  "packets_ok S ob rsp \<longleftrightarrow> (\<forall>g rc. receive ob (rs_receiver rsp) = (Inr (Some g), rc) \<longrightarrow>
     (\<forall>i < unat (bg_count g). case packet_at (rx rc) (rx_start g + word_of_nat i) of (addr, n) \<Rightarrow>
        sl_rx S * sl_frame S \<le> addr \<and> addr + n \<le> (sl_rx S + unat (sl_ring S)) * sl_frame S
        \<and> tcp_frame (read_bytes (rs_memory rsp) addr n)))"

lemma sender_inv_mem:
  assumes "sender_inv sh start s mem"
    and "\<And>k. k < unat (ring_size (s_tx s)) \<Longrightarrow> read_bytes mem' (frame_at start (unat (um_frame_size (s_umem s))) k) 62
      = read_bytes mem (frame_at start (unat (um_frame_size (s_umem s))) k) 62"
  shows "sender_inv sh start s mem'"
  using assms unfolding sender_inv_def by (metis frame_ready_read)

lemma frame_before: "k < n \<Longrightarrow> start + n \<le> next \<Longrightarrow> 86 \<le> fs \<Longrightarrow> frame_at start fs k + 62 \<le> next * fs"
proof -
  assume a: "k < n" "start + n \<le> next" "86 \<le> fs"
  have "(start + k + 1) * fs \<le> next * fs" using a by (intro mult_le_mono1) simp
  then show ?thesis using a(3) by (simp add: frame_at_def TX_METADATA_LEN_def algebra_simps)
qed

lemma frame_after: "next * fs \<le> frame_at next fs k"
  by (simp add: frame_at_def algebra_simps)

text \<open>The memory a round leaves to the others: nothing changes between the frames of a sender and the next part.\<close>

lemma scanner_leaves_rest:
  assumes "layout_ok S" "sender_fits S (sl_scan S) (sc_sender sc) mem"
    and "scanner_tick os ws fl ok sc mem cmp = (r, sc', mem', cmp')"
  shows "\<forall>x. r = Some x \<longrightarrow> send_ok x" "sender_fits S (sl_scan S) (sc_sender sc') mem'"
    and "\<And>b n. sl_rx S * sl_frame S \<le> b \<Longrightarrow> read_bytes mem' b n = read_bytes mem b n"
proof -
  have w: "(\<forall>x. r = Some x \<longrightarrow> send_ok x) \<and> syns_within (sl_shared S) (sl_scan S) (sc_sender sc) mem (sc_sender sc') mem'"
    using scanner_tick_within[OF _ assms(3)] assms(2) unfolding sender_fits_def by blast
  then show "\<forall>x. r = Some x \<longrightarrow> send_ok x" "sender_fits S (sl_scan S) (sc_sender sc') mem'"
    using assms(2) unfolding sender_fits_def syns_within_def by auto
  fix b n assume b: "sl_rx S * sl_frame S \<le> b"
  have "frame_at (sl_scan S) (sl_frame S) k + 62 \<le> b" if "k < unat (sl_ring S)" for k
    using frame_before[OF that, of "sl_scan S" "sl_rx S" "sl_frame S"] assms(1) b unfolding layout_ok_def by linarith
  then show "read_bytes mem' b n = read_bytes mem b n"
    using w assms(2) unfolding sender_fits_def syns_within_def by auto
qed

lemma sender_fits_mem:
  assumes "sender_fits S start s mem"
    and "\<And>k. k < unat (sl_ring S) \<Longrightarrow> read_bytes mem' (frame_at start (sl_frame S) k) 62 = read_bytes mem (frame_at start (sl_frame S) k) 62"
  shows "sender_fits S start s mem'"
  using assms sender_inv_mem[of "sl_shared S" start s mem mem'] unfolding sender_fits_def by auto

definition resp_layout :: "sat_layout \<Rightarrow> memory \<Rightarrow> layout" where
  "resp_layout S mem = \<lparr>l_shared = sl_shared S, l_start = sl_resp S, l_frame = sl_frame S, l_slots = sl_ring S, l_mem = mem,
     l_rx = ring_new Rx 0 [] 0 0 0\<rparr>"

lemma outside_resp:
  assumes "b + n \<le> sl_resp S * sl_frame S"
  shows "outside ((resp_layout S mem)\<lparr>l_rx := y\<rparr>) b n" "outside (resp_layout S mem) b n"
  using assms frame_after[of "sl_resp S" "sl_frame S"] by (auto simp: outside_def resp_layout_def intro: le_trans)

lemma sender_ready_fits:
  "sender_ready (resp_layout S mem) rsp \<longleftrightarrow> sender_fits S (sl_resp S) (rs_sender rsp) (rs_memory rsp)
     \<and> (\<forall>b n. outside (resp_layout S mem) b n \<longrightarrow> read_bytes (rs_memory rsp) b n = read_bytes mem b n)"
  by (auto simp: sender_ready_def sender_fits_def resp_layout_def)

lemma packets_batch_ok:
  assumes "layout_ok S" "packets_ok S ob rsp" "receive ob (rs_receiver rsp) = (Inr (Some g), rc)"
  shows "batch_ok ((resp_layout S (rs_memory rsp))\<lparr>l_rx := rx rc\<rparr>) g"
proof -
  have le: "(sl_rx S + unat (sl_ring S)) * sl_frame S \<le> sl_resp S * sl_frame S"
    using assms(1) unfolding layout_ok_def by (intro mult_le_mono1) simp
  show ?thesis
    using assms(2,3) outside_resp(1)[OF le_trans[OF _ le]] by (fastforce simp: packets_ok_def batch_ok_def resp_layout_def split: prod.splits)
qed

lemma responder_in_layout:
  assumes lay: "layout_ok S" and c: "conns_ok rsp" and f: "sender_fits S (sl_resp S) (rs_sender rsp) (rs_memory rsp)"
    and fit: "payloads_fit (sl_frame S) env"
    and pk: "packets_ok S ob rsp"
    and t: "responder_tick env ob clock now filled rsp = (res, filled', rsp')"
  shows "conns_ok rsp'" "sender_fits S (sl_resp S) (rs_sender rsp') (rs_memory rsp')" "\<forall>oc. res = Ticked oc \<longrightarrow> no_fault oc"
    and "\<And>b n. b + n \<le> sl_resp S * sl_frame S \<Longrightarrow> read_bytes (rs_memory rsp') b n = read_bytes (rs_memory rsp) b n"
proof -
  let ?L = "resp_layout S (rs_memory rsp)"
  note b = packets_batch_ok[OF lay pk]
  have "sender_ready ?L rsp" using f by (simp add: sender_ready_fits)
  moreover have "payloads_fit (l_frame ?L) env" using fit by (simp add: resp_layout_def)
  ultimately have s: "conns_ok rsp' \<and> sender_ready ?L rsp' \<and> (\<forall>oc. res = Ticked oc \<longrightarrow> no_fault oc)"
    using responder_tick_safe[OF c _ _ b t] by blast
  then show "conns_ok rsp'" "\<forall>oc. res = Ticked oc \<longrightarrow> no_fault oc"
    "sender_fits S (sl_resp S) (rs_sender rsp') (rs_memory rsp')" by (auto simp: sender_ready_fits)
  show "read_bytes (rs_memory rsp') b n = read_bytes (rs_memory rsp) b n" if "b + n \<le> sl_resp S * sl_frame S" for b n
    using s outside_resp(2)[OF that] by (simp add: sender_ready_fits)
qed

section \<open>Runs\<close>

definition round_ok :: "sat_result \<Rightarrow> bool" where
  "round_ok r \<longleftrightarrow> (\<forall>x. r = Stuck x \<longrightarrow> x = Blocked)"

text \<open>What the scanner's turn leaves to the responder.\<close>

lemma after_scanner:
  assumes inv: "sat_inv S st" and pk: "packets_ok S ob (sat_responder st)"
    and sc: "scanner_tick os ws fl ok (sat_scanner st) (rs_memory (sat_responder st)) (rs_completer (sat_responder st)) = (r, sc, mem, cmp)"
  defines "rsp \<equiv> (sat_responder st)\<lparr>rs_memory := mem, rs_completer := cmp\<rparr>"
  shows "conns_ok rsp" "sender_fits S (sl_resp S) (rs_sender rsp) (rs_memory rsp)" "packets_ok S ob rsp"
    "\<forall>x. r = Some x \<longrightarrow> send_ok x" "sender_fits S (sl_scan S) (sc_sender sc) mem"
    "\<And>b n. sl_rx S * sl_frame S \<le> b \<Longrightarrow> read_bytes mem b n = read_bytes (rs_memory (sat_responder st)) b n"
proof -
  have lay: "layout_ok S" and fits: "sender_fits S (sl_scan S) (sc_sender (sat_scanner st)) (rs_memory (sat_responder st))"
    using inv unfolding sat_inv_def by auto
  note s = scanner_leaves_rest[OF lay fits sc]
  have le: "sl_rx S * sl_frame S \<le> sl_resp S * sl_frame S" using lay unfolding layout_ok_def by (intro mult_le_mono1) simp
  show "sender_fits S (sl_resp S) (rs_sender rsp) (rs_memory rsp)"
    using inv s(3) le_trans[OF le frame_after] sender_fits_mem[of S "sl_resp S" "rs_sender (sat_responder st)" "rs_memory (sat_responder st)" mem]
    unfolding sat_inv_def rsp_def by auto
  show "conns_ok rsp" using inv by (simp add: sat_inv_def conns_ok_def rsp_def)
  show "packets_ok S ob rsp" using pk s(3) unfolding packets_ok_def rsp_def by (fastforce split: prod.splits)
  show "\<forall>x. r = Some x \<longrightarrow> send_ok x" "sender_fits S (sl_scan S) (sc_sender sc) mem"
    "\<And>b n. sl_rx S * sl_frame S \<le> b \<Longrightarrow> read_bytes mem b n = read_bytes (rs_memory (sat_responder st)) b n" using s by blast+
qed

lemma saturator_round_inv:
  assumes inv: "sat_inv S st" and pk: "packets_ok S (ob_rx ob) (sat_responder st)" and fit: "payloads_fit (sl_frame S) env"
    and r: "saturator_round env ob filled st = (res, filled', st')"
  shows "round_ok res \<and> sat_inv S st'"
proof -
  let ?rsp = "sat_responder st"
  obtain a sc mem cmp where sc: "scanner_tick (ob_steals ob) (ob_waits ob) (ob_flags ob) (ob_sendto ob) (sat_scanner st)
      (rs_memory ?rsp) (rs_completer ?rsp) = (a, sc, mem, cmp)" by (metis prod_cases4)
  define rsp1 where "rsp1 = ?rsp\<lparr>rs_memory := mem, rs_completer := cmp\<rparr>"
  have lay: "layout_ok S" using inv unfolding sat_inv_def by auto
  note a = after_scanner[OF inv pk sc, folded rsp1_def]
  have le: "sl_rx S * sl_frame S \<le> sl_resp S * sl_frame S" using lay unfolding layout_ok_def by (intro mult_le_mono1) simp
  obtain t fl rsp2 where t: "responder_tick env (ob_rx ob) (ob_clock ob) (ob_now ob) filled rsp1 = (t, fl, rsp2)"
    by (metis prod_cases3)
  note d = responder_in_layout[OF lay a(1,2) fit a(3) t]
  have before: "frame_at (sl_scan S) (sl_frame S) k + 62 \<le> sl_resp S * sl_frame S" if "k < unat (sl_ring S)" for k
    using frame_before[OF that, of "sl_scan S" "sl_rx S" "sl_frame S"] lay le unfolding layout_ok_def by linarith
  have f2: "sender_fits S (sl_scan S) (sc_sender sc) (rs_memory rsp2)"
    using a(5) d(4)[OF before] sender_fits_mem[of S "sl_scan S" "sc_sender sc" mem "rs_memory rsp2"] by (simp add: rsp1_def)
  have f0: "sender_fits S (sl_scan S) (sc_sender sc) (rs_memory rsp1)" using a(5) by (simp add: rsp1_def)
  show ?thesis
    using r sc t a(1,2,4) f0 d(1,2,3) f2 lay
    by (auto simp: saturator_round_def Let_def sat_inv_def round_ok_def send_ok_def conns_ok_def rsp1_def[symmetric]
        split: prod.splits if_splits tick_result.splits outcome.splits)
qed

text \<open>A new sender writes only into its own frames.\<close>

lemma init_frames_other:
  assumes "macs_ok sh" "86 \<le> unat (um_frame_size um)"
    and "\<forall>i \<in> set is. b + n \<le> unat i * unat (um_frame_size um) \<or> (unat i + 1) * unat (um_frame_size um) \<le> b"
  shows "read_bytes (snd (fold (init_frame sh um) is (tx, mem))) b n = read_bytes mem b n"
  using assms(3)
proof (induction "is" arbitrary: tx mem)
  case (Cons i "is")
  obtain tx1 where f: "init_frame sh um i (tx, mem) = (tx1, init_mem sh (unat i * unat (um_frame_size um)) mem)"
    using init_frame_eq[of sh um i tx mem] by auto
  have "read_bytes (init_mem sh (unat i * unat (um_frame_size um)) mem) b n = read_bytes mem b n"
    using Cons.prems assms(1,2) by (intro init_mem_other) auto
  then show ?case using Cons f by simp
qed simp

lemma sender_new_other:
  assumes "macs_ok sh" "86 \<le> unat (um_frame_size um)" "unat start + unat (ring_size tx) < 2 ^ 32"
    and "sender_new sh um tx start mem = (s, mem')" "b + n \<le> unat start * unat (um_frame_size um)"
  shows "read_bytes mem' b n = read_bytes mem b n"
proof -
  let ?is = "map (\<lambda>i. start + word_of_nat i) [0..<unat (ring_size tx)]"
  have u: "unat (start + word_of_nat i) = unat start + i" if "i < unat (ring_size tx)" for i
  proof -
    have "unat (word_of_nat i :: u32) = i" using that assms(3) by (subst unat_of_nat) simp
    then show ?thesis using that assms(3) by (simp only: unat_word_ariths(1)) simp
  qed
  have "b + n \<le> unat (start + word_of_nat i) * unat (um_frame_size um)" if "i < unat (ring_size tx)" for i
    using assms(5) u[OF that] by (simp add: add_mult_distrib)
  then have "read_bytes (snd (fold (init_frame sh um) ?is (tx, mem))) b n = read_bytes mem b n"
    using assms(1,2) by (intro init_frames_other) auto
  moreover have "mem' = snd (fold (init_frame sh um) ?is (tx, mem))"
    using assms(3,4) unfolding sender_new_def Let_def by (auto simp: no_olen_add_nat split: prod.splits)
  ultimately show ?thesis by simp
qed

definition queue_layout :: "shared_data \<Rightarrow> umem \<Rightarrow> u32 \<Rightarrow> sat_layout" where
  "queue_layout sh um rs = \<lparr>sl_shared = sh, sl_frame = unat (um_frame_size um), sl_ring = rs, sl_scan = 0, sl_rx = unat rs,
     sl_resp = 2 * unat rs\<rparr>"

definition queue_ok :: "sat_layout \<Rightarrow> queue \<times> memory \<Rightarrow> bool" where
  "queue_ok S = (\<lambda>((sd, rc, sd_shared, c), mem). layout_ok S \<and> sender_fits S (sl_scan S) sd mem \<and> sender_fits S (sl_resp S) sd_shared mem)"

lemma queue_new_ok:
  assumes tx: "ring_wf tx" "ring_size tx = rs" "ring_wf tx'" "ring_size tx' = rs" and sh: "macs_ok sh" and fs: "86 \<le> unat (um_frame_size um)"
    and fit: "3 * unat rs < 2 ^ 32" and n: "queue_new sh um tx f r c tx' rs batch ok mem = Inr (q, mem')"
  shows "queue_ok (queue_layout sh um rs) (q, mem')"
proof -
  obtain s1 m1 where s1: "sender_new sh um tx 0 mem = (s1, m1)" by fastforce
  obtain s2 m2 where s2: "sender_new sh um tx' (2 * rs) m1 = (s2, m2)" by fastforce
  obtain rc where q: "q = (s1, rc, s2, c)" "mem' = m2" using n s1 s2 by (auto simp: queue_new_def split: sum.splits)
  have u: "unat (2 * rs) = 2 * unat rs" using fit by (simp add: unat_word_ariths(2))
  let ?S = "queue_layout sh um rs"
  note i1 = sender_new_inv[OF tx(1) sh fs _ _ s1] and i2 = sender_new_inv[OF tx(3) sh fs _ _ s2]
  have lay: "layout_ok ?S" using fs by (simp add: layout_ok_def queue_layout_def)
  have f1: "sender_fits ?S 0 s1 m1" using i1 tx fit by (simp add: sender_fits_def queue_layout_def)
  have "frame_at 0 (sl_frame ?S) k + 62 \<le> unat (2 * rs) * unat (um_frame_size um)" if "k < unat rs" for k
    using frame_before[OF that, of 0 "2 * unat rs" "unat (um_frame_size um)"] fs by (simp add: u queue_layout_def)
  then have "read_bytes m2 (frame_at 0 (sl_frame ?S) k) 62 = read_bytes m1 (frame_at 0 (sl_frame ?S) k) 62" if "k < unat rs" for k
    using sender_new_other[OF sh fs _ s2] that fit u tx(4) by simp
  then have "sender_fits ?S 0 s1 m2" using sender_fits_mem[OF f1] by (simp add: queue_layout_def)
  moreover have "sender_fits ?S (2 * unat rs) s2 m2" using i2 tx fit u by (simp add: sender_fits_def queue_layout_def)
  ultimately show ?thesis using lay q by (simp add: queue_ok_def queue_layout_def)
qed

text \<open>
  The life of a queue: it is set up; sessions start on it, the next one with what the last one returned; the kernel writes
  packets into the receive frames; rounds run whose packets are in those frames.
\<close>

inductive sat_run :: "sat_layout \<Rightarrow> ('a, 'i, 'p, 'r) resp_env \<Rightarrow> ('a, 'i, 'p, 'r) saturator \<Rightarrow> bool" for S env where
  first_session: "queue_ok S (q, mem) \<Longrightarrow> sat_run S env (saturator_new n q mem)"
| next_session: "sat_run S env st \<Longrightarrow> sat_run S env (saturator_new n (saturator_into_inner st) (rs_memory (sat_responder st)))"
| kernel_receives: "sat_run S env st
    \<Longrightarrow> (\<And>b n. b + n \<le> sl_rx S * sl_frame S \<or> (sl_rx S + unat (sl_ring S)) * sl_frame S \<le> b
          \<Longrightarrow> read_bytes mem b n = read_bytes (rs_memory (sat_responder st)) b n)
    \<Longrightarrow> sat_run S env (st\<lparr>sat_responder := (sat_responder st)\<lparr>rs_memory := mem\<rparr>\<rparr>)"
| runs_round: "sat_run S env st \<Longrightarrow> packets_ok S (ob_rx ob) (sat_responder st)
    \<Longrightarrow> saturator_round env ob filled st = (Round b, filled', st') \<Longrightarrow> sat_run S env st'"

lemma saturator_new_inv: "queue_ok S (q, mem) \<Longrightarrow> sat_inv S (saturator_new n q mem)"
  by (auto simp: queue_ok_def sat_inv_def saturator_new_def scanner_new_def responder_new_def conns_ok_def split: prod.splits)

lemma into_inner_ok: "sat_inv S st \<Longrightarrow> queue_ok S (saturator_into_inner st, rs_memory (sat_responder st))"
  by (simp add: queue_ok_def sat_inv_def saturator_into_inner_def scanner_into_inner_def)

lemma kernel_keeps_inv:
  assumes inv: "sat_inv S st"
    and m: "\<And>b n. b + n \<le> sl_rx S * sl_frame S \<or> (sl_rx S + unat (sl_ring S)) * sl_frame S \<le> b
          \<Longrightarrow> read_bytes mem b n = read_bytes (rs_memory (sat_responder st)) b n"
  shows "sat_inv S (st\<lparr>sat_responder := (sat_responder st)\<lparr>rs_memory := mem\<rparr>\<rparr>)"
proof -
  have lay: "layout_ok S" using inv by (simp add: sat_inv_def)
  then have le: "(sl_rx S + unat (sl_ring S)) * sl_frame S \<le> sl_resp S * sl_frame S"
    unfolding layout_ok_def by (intro mult_le_mono1) simp
  have "frame_at (sl_scan S) (sl_frame S) k + 62 \<le> sl_rx S * sl_frame S" if "k < unat (sl_ring S)" for k
    using frame_before[OF that, of "sl_scan S" "sl_rx S" "sl_frame S"] lay unfolding layout_ok_def by linarith
  then show ?thesis
    using inv m le_trans[OF le frame_after] unfolding sat_inv_def
    by (auto simp: conns_ok_def intro: sender_fits_mem)
qed

lemma sat_run_inv:
  assumes "sat_run S env st" "payloads_fit (sl_frame S) env"
  shows "sat_inv S st"
  using assms
proof (induction rule: sat_run.induct)
  case (kernel_receives st mem)
  then show ?case using kernel_keeps_inv by blast
next
  case (runs_round st ob filled b filled' st')
  then show ?case using saturator_round_inv by blast
qed (simp_all add: saturator_new_inv into_inner_ok)

lemma round_passes_scanlings:
  assumes "saturator_round env ob filled st = (Round b, filled', st')"
  shows "scanlings (sat_responder st') = [] \<and> (\<exists>new. sat_queue st' = sat_queue st @ new)"
  using assms by (auto simp: saturator_round_def Let_def split: prod.splits if_splits tick_result.splits outcome.splits)


text \<open>A queue with rings of two slots; a SYN/ACK arrives in its first receive frame.\<close>

definition demo_sat_umem :: umem where
  "demo_sat_umem = \<lparr>um_area = 0, um_size = 12288, um_frame_size = 2048\<rparr>"

definition demo_sat_packet :: bytes where "demo_sat_packet = demo_packet (Syn OR Ack) 5 (demo_cookie + 1) []"

definition demo_sat_queue :: "receive_error + queue \<times> memory" where
  "demo_sat_queue = queue_new (demo_shared False) demo_sat_umem demo_tx (ring_new Fill 2 [0, 0] 0 0 0)
     (ring_new Rx 2 (replicate 2 \<lparr>d_addr = 4352, d_len = 62, d_options = 0\<rparr>) 0 0 0) (ring_new Complete 2 [0, 0] 0 0 0) demo_tx 2 4 True
     (\<lambda>_. 0)"

definition demo_args :: "(unit, unit, unit) session_args" where
  "demo_args = \<lparr>sn_seed = 77, sn_port = (), sn_ip = (), sn_rng = (), sn_ring = 2, sn_segments = 4, sn_bytes = 4096, sn_timeout = 10,
     sn_rate = 1, sn_batch = 2, sn_now = 0, sn_completed = 0, sn_kernel = replicate 2 demo_kernel\<rparr>"

definition demo_sat_obs :: sat_obs where
  "demo_sat_obs = \<lparr>ob_steals = [Success [\<lparr>pt_source_port = 61000, pt_ip = 0x05060708, pt_destination_port = 25565\<rparr>]],
     ob_waits = [demo_obs], ob_flags = 0, ob_sendto = True, ob_rx = demo_rx_obs\<lparr>ro_rx_prod := 1\<rparr>, ob_clock = id, ob_now = 5,
     ob_comp_now = 1, ob_cr_prod = 1\<rparr>"

definition demo_sat :: "memory \<Rightarrow> queue \<Rightarrow> (unit, unit, bytes, unit) saturator" where
  "demo_sat mem q = (saturator_new demo_args q mem)\<lparr>sat_responder :=
     (sat_responder (saturator_new demo_args q mem))\<lparr>rs_memory := write_bytes mem 4352 demo_sat_packet\<rparr>\<rparr>"

abbreviation demo_rx :: "descriptor ring" where
  "demo_rx \<equiv> ring_new Rx 2 (replicate 2 \<lparr>d_addr = 4352, d_len = 62, d_options = 0\<rparr>) 0 0 0"

lemma demo_receiver_new:
  obtains rc where "receiver_new demo_sat_umem (ring_new Fill 2 [0, 0] 0 0 0) demo_rx 2 4 True = Inr rc" "rx rc = demo_rx"
    "rx_batch_size rc = 4" "cached_prod (fr rc) = 2" "ring_size (fr rc) = 2" "cached_cons (fr rc) = 2"
proof -
  have "[0..<2] = [0, 1 :: nat]" by (simp add: upt_rec)
  then show ?thesis using that
    by (simp add: receiver_new_def reserve_def free_def submit_def fill_frame_def Let_def ring_index_mut_def ring_new_def)
qed

lemma demo_sat_queue_ok:
  obtains q mem where "demo_sat_queue = Inr (q, mem)" "queue_ok (queue_layout (demo_shared False) demo_sat_umem 2) (q, mem)"
    "rx (fst (snd q)) = demo_rx"
    "rx_batch_size (fst (snd q)) = 4" "cached_cons (fr (fst (snd q))) = 2" "cached_prod (fr (fst (snd q))) = 2"
    "ring_size (fr (fst (snd q))) = 2"
proof -
  have tx: "ring_wf demo_tx" "macs_ok (demo_shared False)" "ring_size demo_tx = 2"
    by (simp_all add: demo_tx_def ring_new_def ring_wf_def macs_ok_def demo_shared_def)
  obtain rc where r: "receiver_new demo_sat_umem (ring_new Fill 2 [0, 0] 0 0 0) demo_rx 2 4 True = Inr rc" "rx rc = demo_rx"
    "rx_batch_size rc = 4" "cached_prod (fr rc) = 2" "ring_size (fr rc) = 2" "cached_cons (fr rc) = 2" by (rule demo_receiver_new)
  obtain s1 m1 where s1: "sender_new (demo_shared False) demo_sat_umem demo_tx 0 (\<lambda>_. 0) = (s1, m1)" by fastforce
  obtain s2 m2 where s2: "sender_new (demo_shared False) demo_sat_umem demo_tx 4 m1 = (s2, m2)" by fastforce
  obtain q mem where q: "demo_sat_queue = Inr (q, mem)" "fst (snd q) = rc"
    using r(1) s1 s2 by (auto simp: demo_sat_queue_def queue_new_def)
  have "queue_ok (queue_layout (demo_shared False) demo_sat_umem 2) (q, mem)"
    using q(1) tx unfolding demo_sat_queue_def by (intro queue_new_ok) (auto simp: demo_sat_umem_def)
  with q r show ?thesis using that by blast
qed


end
