(* ===== verification/Ranges.thy ===== *)
theory Ranges
  imports Farsight_Prelude
begin

text \<open>
  \<^verbatim>\<open>farsight/src/net/range.rs\<close>: inclusive address ranges, the subtraction of the exclude
  list, the compilation to an indexable table and the binary search that turns an index of
  the scan permutation into an address.
\<close>

section \<open>Data\<close>

record 't range_inclusive =
  r_start :: 't
  r_last :: 't

record compilation_info =
  ci_index :: usize
  ci_count :: usize

record ('t, 'e, 'c) ranges =
  inner :: "('t range_inclusive \<times> 'e) list"
  count :: 'c

type_synonym ipv4_ranges = "(ipv4, unit, unit) ranges"
type_synonym compiled_ranges = "(u32, compilation_info, usize) ranges"

section \<open>Conversions\<close>

definition into_inner :: "('t, 'e, 'c) ranges \<Rightarrow> ('t range_inclusive \<times> 'e) list" where
  "into_inner rs = inner rs"

definition from_addresses :: "'t list \<Rightarrow> ('t, unit, unit) ranges" where
  "from_addresses v = \<lparr>inner = map (\<lambda>t. (\<lparr>r_start = t, r_last = t\<rparr>, ())) v, count = ()\<rparr>"

definition from_range :: "'t range_inclusive \<Rightarrow> ('t, unit, unit) ranges" where
  "from_range r = \<lparr>inner = [(r, ())], count = ()\<rparr>"

definition from_range_vec :: "'t range_inclusive list \<Rightarrow> ('t, unit, unit) ranges" where
  "from_range_vec v = \<lparr>inner = map (\<lambda>r. (r, ())) v, count = ()\<rparr>"

section \<open>Subtracting the exclude list\<close>

text \<open>
  The loop of \<^verbatim>\<open>Ipv4Ranges::exclude\<close>. \<open>acc\<close> is \<^verbatim>\<open>self.inner\<close> as it is pushed to,
  \<open>scan\<close> and \<open>excl\<close> are the current ranges, \<open>scans\<close> and \<open>excls\<close> what the two iterators still
  hold. Leaving the loop extends \<^verbatim>\<open>self.inner\<close> by the rest of the scan iterator.
\<close>

function exclude_loop ::
  "(ipv4 range_inclusive \<times> unit) list \<Rightarrow> ipv4 range_inclusive \<Rightarrow> (ipv4 range_inclusive \<times> unit) list
   \<Rightarrow> ipv4 range_inclusive \<Rightarrow> (ipv4 range_inclusive \<times> unit) list
   \<Rightarrow> (ipv4 range_inclusive \<times> unit) list" where
  "exclude_loop acc scan scans excl excls =
     (if r_last scan < r_start excl then
        (case scans of
           [] \<Rightarrow> acc @ [(scan, ())]
         | (new_range, _) # scans' \<Rightarrow> exclude_loop (acc @ [(scan, ())]) new_range scans' excl excls)
      else if r_start scan > r_last excl then
        (case excls of
           [] \<Rightarrow> acc @ [(scan, ())] @ scans
         | (new_range, _) # excls' \<Rightarrow> exclude_loop acc scan scans new_range excls')
      else if r_start scan < r_start excl \<and> r_last scan > r_last excl then
        exclude_loop (acc @ [(\<lparr>r_start = r_start scan, r_last = r_start excl - 1\<rparr>, ())])
          (scan\<lparr>r_start := r_last excl + 1\<rparr>) scans excl excls
      else if r_start scan < r_start excl then
        (let acc' = acc @ [(\<lparr>r_start = r_start scan, r_last = r_start excl - 1\<rparr>, ())] in
         case scans of
           [] \<Rightarrow> acc'
         | (new_range, _) # scans' \<Rightarrow> exclude_loop acc' new_range scans' excl excls)
      else if r_last scan > r_last excl then
        exclude_loop acc (scan\<lparr>r_start := r_last excl + 1\<rparr>) scans excl excls
      else
        (case scans of
           [] \<Rightarrow> acc
         | (new_range, _) # scans' \<Rightarrow> exclude_loop acc new_range scans' excl excls))"
  by pat_completeness auto

termination
  by (relation "measure (\<lambda>(acc, scan, scans, excl, excls).
        2 * (length scans + length excls) + (if r_last excl < r_start scan then 0 else 1))")
     (auto simp: word_less_plus1)

declare exclude_loop.simps [simp del]

definition exclude :: "ipv4_ranges \<Rightarrow> ipv4_ranges \<Rightarrow> ipv4_ranges" where
  "exclude self exclude_ranges =
     (case inner exclude_ranges of
        [] \<Rightarrow> self
      | (excl, _) # excls \<Rightarrow>
          (case inner self of
             [] \<Rightarrow> self\<lparr>inner := []\<rparr>
           | (scan, _) # scans \<Rightarrow> self\<lparr>inner := exclude_loop [] scan scans excl excls\<rparr>))"

section \<open>Compilation and indexing\<close>

fun compile_loop ::
  "(ipv4 range_inclusive \<times> unit) list \<Rightarrow> usize \<Rightarrow> (u32 range_inclusive \<times> compilation_info) list \<times> usize"
where
  "compile_loop [] index = ([], index)"
| "compile_loop ((rg, _) # rest) index =
     (let cnt = ucast (r_last rg) - ucast (r_start rg) + 1;
          entry = (\<lparr>r_start = r_start rg, r_last = r_last rg\<rparr>,
                   \<lparr>ci_index = index, ci_count = cnt\<rparr>);
          (entries, total) = compile_loop rest (index + cnt)
      in (entry # entries, total))"

definition compile :: "ipv4_ranges \<Rightarrow> compiled_ranges" where
  "compile self = (let (entries, total) = compile_loop (inner self) 0
                   in \<lparr>inner = entries, count = total\<rparr>)"

text \<open>The binary search of \<^verbatim>\<open>CompiledRanges::index\<close>; \<^const>\<open>None\<close> is the panic after the loop.\<close>

function index_loop ::
  "(u32 range_inclusive \<times> compilation_info) list \<Rightarrow> nat \<Rightarrow> nat \<Rightarrow> usize \<Rightarrow> u32 option" where
  "index_loop rs start end index =
     (if start < end then
        (let mid = (start + end) div 2; rg = rs ! mid in
         if ci_index (snd rg) + ci_count (snd rg) \<le> index
         then index_loop rs (mid + 1) end index
         else if ci_index (snd rg) > index
         then index_loop rs start mid index
         else Some (r_start (fst rg) + ucast (index - ci_index (snd rg))))
      else None)"
  by pat_completeness auto
termination
  by (relation "measure (\<lambda>(rs, start, end, index). end - start)") auto

declare index_loop.simps [simp del]

definition index :: "compiled_ranges \<Rightarrow> usize \<Rightarrow> u32 option" where
  "index self i = index_loop (inner self) 0 (length (inner self)) i"

section \<open>Set semantics and well-formedness\<close>


definition range_set :: "'t::linorder range_inclusive \<Rightarrow> 't set" where
  "range_set r = {r_start r..r_last r}"

definition ranges_set :: "('t::linorder range_inclusive \<times> 'e) list \<Rightarrow> 't set" where
  "ranges_set rs = (\<Union>r\<in>set rs. range_set (fst r))"

definition ascending :: "('t::linorder range_inclusive \<times> 'e) list \<Rightarrow> bool" where
  "ascending rs \<longleftrightarrow> sorted_wrt (\<lambda>a b. r_last (fst a) < r_start (fst b)) rs
     \<and> (\<forall>r\<in>set rs. r_start (fst r) \<le> r_last (fst r))"

definition by_start :: "('t::linorder range_inclusive \<times> 'e) list \<Rightarrow> bool" where
  "by_start rs \<longleftrightarrow> sorted_wrt (\<lambda>a b. r_start (fst a) \<le> r_start (fst b)) rs
     \<and> (\<forall>r\<in>set rs. r_start (fst r) \<le> r_last (fst r))"

lemma ranges_set_simps [simp]:
  "ranges_set [] = {}"
  "ranges_set (r # rs) = range_set (fst r) \<union> ranges_set rs"
  "ranges_set (xs @ ys) = ranges_set xs \<union> ranges_set ys"
  by (auto simp: ranges_set_def)

lemma ascending_tail_above:
  "ascending (acc @ r # rs) \<Longrightarrow> x \<in> ranges_set rs \<Longrightarrow> r_last (fst r) < x"
  by (fastforce simp: ascending_def ranges_set_def range_set_def sorted_wrt_append)

lemma by_start_tail_above:
  "by_start (e # es) \<Longrightarrow> x \<in> ranges_set es \<Longrightarrow> r_start (fst e) \<le> x"
  by (fastforce simp: by_start_def ranges_set_def range_set_def)

lemma ascending_append_Cons:
  "ascending (acc @ r # rs) \<longleftrightarrow> ascending acc \<and> ascending rs
     \<and> r_start (fst r) \<le> r_last (fst r)
     \<and> (\<forall>a\<in>set acc. r_last (fst a) < r_start (fst r))
     \<and> (\<forall>a\<in>set acc. \<forall>b\<in>set rs. r_last (fst a) < r_start (fst b))
     \<and> (\<forall>b\<in>set rs. r_last (fst r) < r_start (fst b))"
  by (auto simp: ascending_def sorted_wrt_append)

lemma ascending_Cons:
  "ascending (r # rs) \<longleftrightarrow> ascending rs \<and> r_start (fst r) \<le> r_last (fst r)
     \<and> (\<forall>b\<in>set rs. r_last (fst r) < r_start (fst b))"
  by (auto simp: ascending_def)

lemma by_start_Cons:
  "by_start (r # rs) \<longleftrightarrow> by_start rs \<and> r_start (fst r) \<le> r_last (fst r)
     \<and> (\<forall>b\<in>set rs. r_start (fst r) \<le> r_start (fst b))"
  by (auto simp: by_start_def)


text \<open>The pieces the loop pushes: what is left of a scan range below and above an exclude range.\<close>

lemma range_below:
  "r_start scan < r_start excl \<Longrightarrow>
   range_set \<lparr>r_start = r_start scan, r_last = r_start excl - 1\<rparr> = {r_start scan..<(r_start excl :: ipv4)}"
  by (auto simp: range_set_def word_le_pred word_neq_0_less)

lemma range_above:
  "r_last excl < r_last scan \<Longrightarrow>
   range_set (scan\<lparr>r_start := r_last excl + 1\<rparr>) = {r_last excl<..(r_last scan :: ipv4)}"
  by (auto simp: range_set_def word_Suc_le_iff)

lemma ascending_split:
  fixes scan excl :: "ipv4 range_inclusive"
  assumes "ascending (acc @ (scan, ()) # scans)"
    and "r_start scan < r_start excl" and "r_last excl < r_last scan"
    and "r_start excl \<le> r_last excl"
  shows "ascending ((acc @ [(\<lparr>r_start = r_start scan, r_last = r_start excl - 1\<rparr>, ())])
           @ (scan\<lparr>r_start := r_last excl + 1\<rparr>, ()) # scans)"
proof -
  have "r_start excl - 1 < r_last excl + 1" "r_start scan \<le> r_start excl - 1"
    "r_last excl + 1 \<le> r_last scan" "r_start scan < r_last excl + 1" "r_start excl - 1 < r_last scan"
    using assms(2-4) by unat_arith+
  then show ?thesis
    using assms(1) by (fastforce simp: ascending_append_Cons ascending_Cons ascending_def sorted_wrt_append)
qed

lemma ascending_left:
  fixes scan excl :: "ipv4 range_inclusive"
  assumes "ascending (acc @ (scan, ()) # scans)"
    and "r_start scan < r_start excl" and "r_start excl \<le> r_last scan"
  shows "ascending ((acc @ [(\<lparr>r_start = r_start scan, r_last = r_start excl - 1\<rparr>, ())]) @ scans)"
proof -
  have "r_start scan \<le> r_start excl - 1" "r_start excl - 1 < r_last scan"
    using assms(2,3) by unat_arith+
  then show ?thesis
    using assms(1) by (fastforce simp: ascending_append_Cons ascending_Cons ascending_def sorted_wrt_append)
qed

lemma ascending_right:
  fixes scan excl :: "ipv4 range_inclusive"
  assumes "ascending (acc @ (scan, ()) # scans)"
    and "r_start scan \<le> r_last excl" and "r_last excl < r_last scan"
  shows "ascending (acc @ (scan\<lparr>r_start := r_last excl + 1\<rparr>, ()) # scans)"
proof -
  have "r_last excl + 1 \<le> r_last scan" "r_start scan < r_last excl + 1"
    using assms(2,3) by unat_arith+
  then show ?thesis
    using assms(1) by (fastforce simp: ascending_append_Cons)
qed


text \<open>How each branch of the loop splits the current range, as equations between sets.\<close>

lemma diff_split:
  fixes scan excl :: "ipv4 range_inclusive"
  assumes "r_start scan < r_start excl" and "r_last excl < r_last scan"
    and "r_start excl \<le> r_last excl" and "\<forall>x\<in>E. r_start excl \<le> x"
  shows "range_set scan - (range_set excl \<union> E)
    = range_set \<lparr>r_start = r_start scan, r_last = r_start excl - 1\<rparr>
      \<union> (range_set (scan\<lparr>r_start := r_last excl + 1\<rparr>) - (range_set excl \<union> E))"
  using assms
  by (fastforce simp: range_below range_above range_set_def[of scan] range_set_def[of excl])

lemma diff_left:
  fixes scan excl :: "ipv4 range_inclusive"
  assumes "r_start scan < r_start excl" and "r_start excl \<le> r_last scan"
    and "r_last scan \<le> r_last excl" and "\<forall>x\<in>E. r_start excl \<le> x"
  shows "range_set scan - (range_set excl \<union> E)
    = range_set \<lparr>r_start = r_start scan, r_last = r_start excl - 1\<rparr>"
  using assms by (fastforce simp: range_below range_set_def[of scan] range_set_def[of excl])

lemma diff_right:
  fixes scan excl :: "ipv4 range_inclusive"
  assumes "r_start excl \<le> r_start scan" and "r_start scan \<le> r_last excl"
    and "r_last excl < r_last scan"
  shows "range_set scan - (range_set excl \<union> E)
    = range_set (scan\<lparr>r_start := r_last excl + 1\<rparr>) - (range_set excl \<union> E)"
  using assms by (fastforce simp: range_above range_set_def[of scan] range_set_def[of excl])

lemma ascending_drop: "ascending (acc @ r # rs) \<Longrightarrow> ascending (acc @ rs)"
  by (auto simp: ascending_def sorted_wrt_append)

definition minus_spec ::
  "(ipv4 range_inclusive \<times> unit) list \<Rightarrow> ipv4 set \<Rightarrow> (ipv4 range_inclusive \<times> unit) list \<Rightarrow> bool" where
  "minus_spec out A acc \<longleftrightarrow> ascending out \<and> ranges_set out = ranges_set acc \<union> A"

lemma exclude_loop_correct:
  assumes "ascending (acc @ (scan, ()) # scans)" and "by_start ((excl, ()) # excls)"
  shows "minus_spec (exclude_loop acc scan scans excl excls)
           ((range_set scan \<union> ranges_set scans) - (range_set excl \<union> ranges_set excls)) acc"
  using assms
proof (induction acc scan scans excl excls rule: exclude_loop.induct)
  case (1 acc scan scans excl excls)
  note asc = "1.prems"(1) and ex = "1.prems"(2)
  have sa: "\<forall>x\<in>ranges_set scans. r_last scan < x"
    using ascending_tail_above[OF asc] by simp
  have ea: "\<forall>x\<in>ranges_set excls. r_start excl \<le> x"
    using by_start_tail_above[OF ex] by simp
  have ne: "r_start scan \<le> r_last scan" "r_start excl \<le> r_last excl"
    using asc ex by (auto simp: ascending_append_Cons by_start_Cons)
  let ?lt = "r_last scan < r_start excl" and ?gt = "r_start scan > r_last excl"
  consider (before) ?lt | (after) "\<not> ?lt" ?gt
    | (split) "\<not> ?lt" "\<not> ?gt" "r_start scan < r_start excl" "r_last scan > r_last excl"
    | (left) "\<not> ?lt" "\<not> ?gt" "r_start scan < r_start excl" "\<not> r_last scan > r_last excl"
    | (right) "\<not> ?lt" "\<not> ?gt" "\<not> r_start scan < r_start excl" "r_last scan > r_last excl"
    | (inside) "\<not> ?lt" "\<not> ?gt" "\<not> r_start scan < r_start excl" "\<not> r_last scan > r_last excl"
    by blast
  then show ?case
  proof cases
    case before
    have "range_set scan \<inter> (range_set excl \<union> ranges_set excls) = {}"
      using before ea by (fastforce simp: range_set_def)
    then show ?thesis using before "1.IH"(1)[OF before] asc ex
      by (subst exclude_loop.simps) (fastforce simp: minus_spec_def split: list.split)
  next
    case after
    have "(range_set scan \<union> ranges_set scans) \<inter> range_set excl = {}"
      using after sa ne by (fastforce simp: range_set_def)
    then show ?thesis using after "1.IH"(2)[OF after] asc ex
      by (subst exclude_loop.simps) (fastforce simp: minus_spec_def by_start_Cons split: list.split)
  next
    case split
    show ?thesis using split diff_split[OF split(3,4) ne(2) ea] ex
        "1.IH"(3)[OF split(1,2) conjI[OF split(3,4)] ascending_split[OF asc split(3,4) ne(2)]]
      by (subst exclude_loop.simps) (auto simp: minus_spec_def)
  next
    case left
    have "ascending ((acc @ [(\<lparr>r_start = r_start scan, r_last = r_start excl - 1\<rparr>, ())]) @ scans)"
      using ascending_left[OF asc left(3)] left(1) by simp
    moreover have "range_set scan - (range_set excl \<union> ranges_set excls)
        = range_set \<lparr>r_start = r_start scan, r_last = r_start excl - 1\<rparr>"
      using left by (intro diff_left ea) auto
    ultimately show ?thesis using left "1.IH"(4)[OF left(1,2)] ex
      by (subst exclude_loop.simps) (fastforce simp: minus_spec_def Let_def split: list.split)
  next
    case right
    have "ascending (acc @ (scan\<lparr>r_start := r_last excl + 1\<rparr>, ()) # scans)"
      using ascending_right[OF asc _ right(4)] right(2) by simp
    moreover have "range_set scan - (range_set excl \<union> ranges_set excls)
        = range_set (scan\<lparr>r_start := r_last excl + 1\<rparr>) - (range_set excl \<union> ranges_set excls)"
      using right by (intro diff_right) auto
    ultimately show ?thesis using right "1.IH"(5)[OF right(1,2)] ex
      by (subst exclude_loop.simps) (auto simp: minus_spec_def)
  next
    case inside
    have "range_set scan \<subseteq> range_set excl"
      using inside by (auto simp: range_set_def)
    then show ?thesis using inside ascending_drop[OF asc] "1.IH"(6)[OF inside(1,2)] ex
      by (subst exclude_loop.simps) (fastforce simp: minus_spec_def split: list.split)
  qed
qed



section \<open>The address list and the compiled table\<close>


definition range_list :: "ipv4 range_inclusive \<Rightarrow> ipv4 list" where
  "range_list r = map word_of_nat [unat (r_start r)..<Suc (unat (r_last r))]"

definition addresses :: "(ipv4 range_inclusive \<times> 'e) list \<Rightarrow> ipv4 list" where
  "addresses rs = concat (map (\<lambda>r. range_list (fst r)) rs)"

lemma addresses_simps [simp]:
  "addresses [] = []"
  "addresses (r # rs) = range_list (fst r) @ addresses rs"
  "addresses (xs @ ys) = addresses xs @ addresses ys"
  by (simp_all add: addresses_def)

lemma length_range_list: "length (range_list r) = Suc (unat (r_last r)) - unat (r_start r)"
  by (simp add: range_list_def del: upt_Suc)

lemma range_list_nth:
  "k < length (range_list r) \<Longrightarrow> range_list r ! k = r_start r + word_of_nat k"
  by (simp add: range_list_def del: upt_Suc)

lemma set_range_list [simp]: "set (range_list r) = range_set r"
proof -
  have "x \<in> word_of_nat ` {unat (r_start r)..<Suc (unat (r_last r))}"
    if "r_start r \<le> x" "x \<le> r_last r" for x
    using that by (intro image_eqI[where x = "unat x"]) (auto simp: word_le_nat_alt)
  moreover have "unat (word_of_nat n :: ipv4) = n" if "n < Suc (unat (r_last r))" for n
    using that unat_bounds(3)[of "r_last r"] by (simp add: unat_of_nat)
  ultimately show ?thesis
    by (fastforce simp: range_list_def range_set_def word_le_nat_alt simp del: upt_Suc)
qed

lemma distinct_range_list: "distinct (range_list r)"
proof -
  have "inj_on (word_of_nat :: nat \<Rightarrow> ipv4) {unat (r_start r)..<Suc (unat (r_last r))}"
    using unat_bounds(3)[of "r_last r"]
    by (intro inj_on_inverseI[where g = unat]) (simp add: unat_of_nat)
  then show ?thesis
    by (simp add: range_list_def distinct_map del: upt_Suc)
qed

lemma set_addresses [simp]: "set (addresses rs) = ranges_set rs"
  by (induction rs) auto

lemma distinct_addresses: "ascending rs \<Longrightarrow> distinct (addresses rs)"
proof (induction rs)
  case (Cons r rs)
  have "range_set (fst r) \<inter> ranges_set rs = {}"
    using ascending_tail_above[of "[]" r rs] Cons.prems by (fastforce simp: range_set_def)
  with Cons show ?case
    by (simp add: distinct_range_list ascending_Cons)
qed simp

lemma length_addresses_le: "ascending rs \<Longrightarrow> length (addresses rs) \<le> 2 ^ 32"
proof -
  assume "ascending rs"
  then have "length (addresses rs) = card (set (addresses rs))"
    using distinct_addresses distinct_card by metis
  also have "\<dots> \<le> card (UNIV :: ipv4 set)" by (intro card_mono) auto
  finally show ?thesis by (simp add: card_word)
qed

text \<open>Offsets of the entries of the compiled table.\<close>

definition offset :: "(ipv4 range_inclusive \<times> 'e) list \<Rightarrow> nat \<Rightarrow> nat" where
  "offset rs j = length (addresses (take j rs))"

lemma offset_0 [simp]: "offset rs 0 = 0" by (simp add: offset_def)

lemma offset_Suc: "j < length rs \<Longrightarrow> offset rs (Suc j) = offset rs j + length (range_list (fst (rs ! j)))"
  by (simp add: offset_def take_Suc_conv_app_nth)

lemma offset_mono: "i \<le> j \<Longrightarrow> offset rs i \<le> offset rs j"
proof (induction j)
  case (Suc j)
  then show ?case
    by (cases "j < length rs") (auto simp: offset_Suc le_Suc_eq, simp add: offset_def)
qed simp

lemma offset_length [simp]: "offset rs (length rs) = length (addresses rs)"
  by (simp add: offset_def)

lemma addresses_nth:
  assumes "j < length rs" and "offset rs j \<le> i" and "i < offset rs (Suc j)"
  shows "addresses rs ! i = r_start (fst (rs ! j)) + word_of_nat (i - offset rs j)"
proof -
  let ?A = "addresses (take j rs)" and ?B = "range_list (fst (rs ! j))"
    and ?C = "addresses (drop (Suc j) rs)"
  have k: "i - length ?A < length ?B" "length ?A \<le> i"
    using assms by (simp_all add: offset_Suc offset_def[of rs j])
  have "addresses rs = ?A @ ?B @ ?C"
    using arg_cong[OF id_take_nth_drop[OF assms(1)], of addresses] by (simp only: addresses_simps)
  then have "addresses rs ! i = (?A @ ?B @ ?C) ! i" by (rule arg_cong)
  also have "\<dots> = ?B ! (i - length ?A)"
    using k by (simp add: nth_append)
  finally show ?thesis
    using k(1) by (simp add: range_list_nth offset_def)
qed

lemma unat_count:
  fixes s l :: ipv4
  assumes "s \<le> l"
  shows "unat (ucast l - ucast s + 1 :: usize) = Suc (unat l) - unat s"
proof -
  have "unat l < 4294967296" by (rule unat_bounds)
  moreover have "unat s \<le> unat l" using assms by (simp add: word_le_nat_alt)
  ultimately show ?thesis
    by (simp add: unat_word_ariths unat_sub_if' unsigned_ucast_eq take_bit_nat_eq_self)
qed


lemma compile_loop_Cons:
  "compile_loop (r # rs) i =
    (let c = ucast (r_last (fst r)) - ucast (r_start (fst r)) + 1 in
     ((\<lparr>r_start = r_start (fst r), r_last = r_last (fst r)\<rparr>, \<lparr>ci_index = i, ci_count = c\<rparr>)
        # fst (compile_loop rs (i + c)), snd (compile_loop rs (i + c))))"
  by (cases r) (simp add: Let_def split_beta)

definition entry_ok :: "(ipv4 range_inclusive \<times> unit) list \<Rightarrow> nat \<Rightarrow> nat \<Rightarrow> (u32 range_inclusive \<times> compilation_info) \<Rightarrow> bool" where
  "entry_ok rs base j e \<longleftrightarrow> r_start (fst e) = r_start (fst (rs ! j))
     \<and> unat (ci_index (snd e)) = base + offset rs j
     \<and> unat (ci_count (snd e)) = length (range_list (fst (rs ! j)))"

lemma compile_loop_spec:
  assumes "\<forall>r\<in>set rs. r_start (fst r) \<le> r_last (fst r)"
    and "unat i + length (addresses rs) < 2 ^ 64"
  shows "unat (snd (compile_loop rs i)) = unat i + length (addresses rs)
    \<and> length (fst (compile_loop rs i)) = length rs
    \<and> (\<forall>j < length rs. entry_ok rs (unat i) j (fst (compile_loop rs i) ! j))"
  using assms
proof (induction rs arbitrary: i)
  case (Cons r rs)
  define c :: usize where "c = ucast (r_last (fst r)) - ucast (r_start (fst r)) + 1"
  have c: "unat c = length (range_list (fst r))"
    using Cons.prems(1) by (simp add: c_def unat_count length_range_list)
  have ic: "unat (i + c) = unat i + unat c"
    using Cons.prems(2) c by (simp add: unat_word_ariths)
  have IH: "unat (snd (compile_loop rs (i + c))) = unat (i + c) + length (addresses rs)
    \<and> length (fst (compile_loop rs (i + c))) = length rs
    \<and> (\<forall>j < length rs. entry_ok rs (unat (i + c)) j (fst (compile_loop rs (i + c)) ! j))"
    using Cons.prems c ic by (intro Cons.IH) auto
  have "entry_ok (r # rs) (unat i) j (fst (compile_loop (r # rs) i) ! j)" if "j < length (r # rs)" for j
    using that IH ic c
    by (cases j) (auto simp: compile_loop_Cons c_def[symmetric] entry_ok_def offset_def)
  with IH ic c show ?case
    by (auto simp: compile_loop_Cons c_def[symmetric])
qed simp


definition table_ok ::
  "(ipv4 range_inclusive \<times> unit) list \<Rightarrow> (u32 range_inclusive \<times> compilation_info) list \<Rightarrow> bool" where
  "table_ok rs es \<longleftrightarrow> length es = length rs \<and> length (addresses rs) \<le> 2 ^ 32
     \<and> (\<forall>j < length rs. entry_ok rs 0 j (es ! j))"

lemma entry_index:
  "table_ok rs es \<Longrightarrow> j < length rs \<Longrightarrow> unat (ci_index (snd (es ! j))) = offset rs j"
  by (simp add: table_ok_def entry_ok_def)

lemma entry_end:
  assumes "table_ok rs es" and "j < length rs"
  shows "unat (ci_index (snd (es ! j)) + ci_count (snd (es ! j))) = offset rs (Suc j)"
proof -
  have "offset rs (Suc j) \<le> offset rs (length rs)" using assms by (intro offset_mono) simp
  with assms show ?thesis
    by (simp add: table_ok_def entry_ok_def unat_word_ariths offset_Suc)
qed

lemma entry_address:
  assumes ok: "table_ok rs es" and j: "j < length rs"
    and b: "offset rs j \<le> unat i" "unat i < offset rs (Suc j)"
  shows "r_start (fst (es ! j)) + ucast (i - ci_index (snd (es ! j))) = addresses rs ! unat i"
proof -
  have "unat (i - ci_index (snd (es ! j))) = unat i - offset rs j"
    using entry_index[OF ok j] b(1) by (simp add: unat_sub_if')
  then have "(ucast (i - ci_index (snd (es ! j))) :: u32) = word_of_nat (unat i - offset rs j)"
    by (metis of_nat_unat)
  then show ?thesis
    using addresses_nth[OF j b] ok j by (simp add: table_ok_def entry_ok_def)
qed

text \<open>
  The binary search keeps the wanted position between the offsets of \<open>s\<close> and \<open>e\<close>; outside the
  table every probe moves \<open>start\<close> up until the interval is empty.
\<close>

lemma index_loop_in_bounds:
  assumes ok: "table_ok rs es"
    and "e \<le> length rs" and "offset rs s \<le> unat i" and "unat i < offset rs e"
  shows "index_loop es s e i = Some (addresses rs ! unat i)"
  using assms(2-4)
proof (induction "e - s" arbitrary: s e rule: less_induct)
  case less
  have se: "s < e"
    using less.prems(2,3) offset_mono[of e s rs] by (meson leD le_less_trans linorder_not_le)
  define mid where "mid = (s + e) div 2"
  have mid: "s \<le> mid" "mid < e" "mid < length rs" using se less.prems(1) by (auto simp: mid_def)
  have unfold: "index_loop es s e i =
      (if offset rs (Suc mid) \<le> unat i then index_loop es (mid + 1) e i
       else if unat i < offset rs mid then index_loop es s mid i
       else Some (r_start (fst (es ! mid)) + ucast (i - ci_index (snd (es ! mid)))))"
    using se entry_index[OF ok mid(3)] entry_end[OF ok mid(3)]
    by (subst index_loop.simps) (simp add: Let_def mid_def[symmetric] word_le_nat_alt word_less_nat_alt)
  show ?case
    unfolding unfold using less mid entry_address[OF ok mid(3)] by auto
qed

lemma index_loop_out_of_bounds:
  assumes ok: "table_ok rs es" and out: "length (addresses rs) \<le> unat i" and "e \<le> length rs"
  shows "index_loop es s e i = None"
  using assms(3)
proof (induction "e - s" arbitrary: s e rule: less_induct)
  case less
  define mid where "mid = (s + e) div 2"
  show ?case
  proof (cases "s < e")
    case True
    then have mid: "mid < e" "s \<le> mid" "mid < length rs" using less.prems by (auto simp: mid_def)
    have "offset rs (Suc mid) \<le> offset rs (length rs)" using mid by (intro offset_mono) simp
    then have "ci_index (snd (es ! mid)) + ci_count (snd (es ! mid)) \<le> i"
      using entry_end[OF ok mid(3)] out by (simp add: word_le_nat_alt)
    then show ?thesis using True mid less
      by (subst index_loop.simps) (auto simp: Let_def mid_def[symmetric])
  qed (simp add: index_loop.simps)
qed

lemma compile_table:
  assumes "ascending (inner rs)"
  shows "table_ok (inner rs) (inner (compile rs))"
    and "unat (count (compile rs)) = length (addresses (inner rs))"
proof -
  have "\<forall>r\<in>set (inner rs). r_start (fst r) \<le> r_last (fst r)"
    using assms by (simp add: ascending_def)
  moreover have "unat (0 :: usize) + length (addresses (inner rs)) < 2 ^ 64"
    using length_addresses_le[OF assms] by simp
  ultimately have "unat (snd (compile_loop (inner rs) 0)) = unat (0 :: usize) + length (addresses (inner rs))
    \<and> length (fst (compile_loop (inner rs) 0)) = length (inner rs)
    \<and> (\<forall>j < length (inner rs). entry_ok (inner rs) (unat (0 :: usize)) j (fst (compile_loop (inner rs) 0) ! j))"
    by (rule compile_loop_spec)
  then show "table_ok (inner rs) (inner (compile rs))"
    and "unat (count (compile rs)) = length (addresses (inner rs))"
    using length_addresses_le[OF assms]
    by (simp_all add: table_ok_def compile_def split_beta)
qed

section \<open>The interface to the address strategy\<close>

text \<open>
  What \<^verbatim>\<open>strategy/ip/pmap.rs\<close> relies on: the positions below the count are in bijection with the
  addresses in scope. Swept through any permutation of the positions, the table yields every address
  in scope exactly once.
\<close>

locale address_table =
  fixes invar :: "'t \<Rightarrow> bool" and size_of :: "'t \<Rightarrow> usize"
    and at :: "'t \<Rightarrow> usize \<Rightarrow> u32 option" and elems :: "'t \<Rightarrow> u32 set"
  assumes at_Some: "invar t \<Longrightarrow> i < size_of t \<Longrightarrow> \<exists>a\<in>elems t. at t i = Some a"
    and at_None: "invar t \<Longrightarrow> \<not> i < size_of t \<Longrightarrow> at t i = None"
    and at_inj: "invar t \<Longrightarrow> i < size_of t \<Longrightarrow> j < size_of t \<Longrightarrow> at t i = at t j \<Longrightarrow> i = j"
    and at_surj: "invar t \<Longrightarrow> a \<in> elems t \<Longrightarrow> \<exists>i. i < size_of t \<and> at t i = Some a"
begin

lemma at_elem: "invar t \<Longrightarrow> at t i = Some a \<Longrightarrow> i < size_of t \<and> a \<in> elems t"
  by (metis at_Some at_None option.distinct(1) option.sel)

lemma sweep_bij:
  assumes "invar t" and p: "bij_betw p {i. i < size_of t} {i. i < size_of t}"
  shows "bij_betw (\<lambda>i. the (at t (p i))) {i. i < size_of t} (elems t)"
proof -
  have "bij_betw (\<lambda>i. the (at t i)) {i. i < size_of t} (elems t)"
  proof (rule bij_betw_imageI)
    show "inj_on (\<lambda>i. the (at t i)) {i. i < size_of t}"
    proof (rule inj_onI)
      fix i j assume ij: "i \<in> {i. i < size_of t}" "j \<in> {i. i < size_of t}"
        and eq: "the (at t i) = the (at t j)"
      then obtain a b where "at t i = Some a" "at t j = Some b"
        using at_Some[OF assms(1)] by blast
      with ij eq show "i = j" by (intro at_inj[OF assms(1)]) auto
    qed
    show "(\<lambda>i. the (at t i)) ` {i. i < size_of t} = elems t"
    proof
      show "(\<lambda>i. the (at t i)) ` {i. i < size_of t} \<subseteq> elems t"
        using at_Some[OF assms(1)] by (metis (mono_tags) image_subsetI mem_Collect_eq option.sel)
      show "elems t \<subseteq> (\<lambda>i. the (at t i)) ` {i. i < size_of t}"
        using at_surj[OF assms(1)] by (metis (mono_tags) image_eqI mem_Collect_eq option.sel subsetI)
    qed
  qed
  from bij_betw_trans[OF p this] show ?thesis by (simp add: comp_def)
qed

end

lemma fst_compile_loop: "map fst (fst (compile_loop rs i)) = map fst rs"
  by (induction rs arbitrary: i) (auto simp: compile_loop_Cons Let_def)

lemma ranges_set_fst: "ranges_set xs = \<Union> (range_set ` set (map fst xs))"
  by (auto simp: ranges_set_def)

lemma ranges_set_compile: "ranges_set (inner (compile rs)) = ranges_set (inner rs)"
  by (simp add: ranges_set_fst compile_def split_beta fst_compile_loop del: set_map)

definition compiled :: "compiled_ranges \<Rightarrow> bool" where
  "compiled c \<longleftrightarrow> (\<exists>rs. ascending (inner rs) \<and> c = compile rs)"

lemma index_compiled:
  assumes "ascending (inner rs)"
  shows "index (compile rs) i
      = (if i < count (compile rs) then Some (addresses (inner rs) ! unat i) else None)"
  using index_loop_in_bounds[OF compile_table(1)[OF assms], of "length (inner rs)" 0 i]
    index_loop_out_of_bounds[OF compile_table(1)[OF assms], of i "length (inner rs)" 0]
    compile_table[OF assms]
  by (simp add: index_def word_less_nat_alt table_ok_def)

interpretation ctab: address_table compiled count index "\<lambda>c. ranges_set (inner c)"
proof
  fix t :: compiled_ranges and i j :: usize and a :: u32
  assume "compiled t"
  then obtain rs where asc: "ascending (inner rs)" and t: "t = compile rs"
    by (auto simp: compiled_def)
  note idx = index_compiled[OF asc] and cnt = compile_table(2)[OF asc]
  have set: "ranges_set (inner t) = set (addresses (inner rs))"
    by (simp add: t ranges_set_compile)
  show "\<exists>a\<in>ranges_set (inner t). index t i = Some a" if "i < count t"
    using that cnt nth_mem[of "unat i" "addresses (inner rs)"]
    by (auto simp: t idx word_less_nat_alt ranges_set_compile)
  show "index t i = None" if "\<not> i < count t"
    using that by (simp add: t idx)
  show "i = j" if "i < count t" "j < count t" "index t i = index t j"
    using that cnt distinct_addresses[OF asc]
    by (auto simp: t idx word_less_nat_alt nth_eq_iff_index_eq intro: unsigned_word_eqI)
  show "\<exists>i. i < count t \<and> index t i = Some a" if "a \<in> ranges_set (inner t)"
  proof -
    from that obtain n where n: "n < length (addresses (inner rs))" "addresses (inner rs) ! n = a"
      unfolding set by (auto simp only: in_set_conv_nth)
    then have "unat (word_of_nat n :: usize) = n"
      using length_addresses_le[OF asc] by (simp add: unat_of_nat)
    with n cnt show ?thesis
      by (intro exI[of _ "word_of_nat n"]) (auto simp: t idx word_less_nat_alt)
  qed
qed


section \<open>The theorems\<close>

lemma exclude_minus:
  assumes "ascending (inner scan)" and "by_start (inner excl)"
  shows "minus_spec (inner (exclude scan excl)) (ranges_set (inner scan) - ranges_set (inner excl)) []"
proof (cases "inner excl = [] \<or> inner scan = []")
  case True
  then show ?thesis using assms by (auto simp: exclude_def ascending_def minus_spec_def split: list.splits)
next
  case False
  then obtain s ss e es where "inner scan = (s, ()) # ss" "inner excl = (e, ()) # es"
    by (metis (full_types) list.exhaust old.prod.exhaust old.unit.exhaust)
  with assms exclude_loop_correct[of "[]" s ss e es] show ?thesis
    by (simp add: exclude_def)
qed

text \<open>C10. Subtracting the exclude list: when the scan ranges are in ascending, disjoint order and the
  exclude ranges are sorted by their start (they may overlap or nest, as the parsed file's do), the
  result is again ascending and covers exactly the scanned addresses that no exclude range holds.\<close>

theorem exclude_correct:
  assumes "ascending (inner scan)" and "by_start (inner excl)"
  shows "ascending (inner (exclude scan excl))
    \<and> ranges_set (inner (exclude scan excl)) = ranges_set (inner scan) - ranges_set (inner excl)"
  using exclude_minus[OF assms] by (simp add: minus_spec_def)

theorem exclude_correct_witness:
  "ascending [(\<lparr>r_start = 10, r_last = (90 :: ipv4)\<rparr>, ())]
   \<and> by_start [(\<lparr>r_start = 20, r_last = (50 :: ipv4)\<rparr>, ()), (\<lparr>r_start = 30, r_last = 40\<rparr>, ())]
   \<and> ranges_set (inner (exclude (from_range \<lparr>r_start = 10, r_last = 90\<rparr>)
        (from_range_vec [\<lparr>r_start = 20, r_last = 50\<rparr>, \<lparr>r_start = 30, r_last = 40\<rparr>])))
     = {10..90} - {20..50}"
proof -
  have h: "ascending (inner (from_range \<lparr>r_start = 10, r_last = (90 :: ipv4)\<rparr>))"
    "by_start (inner (from_range_vec [\<lparr>r_start = 20, r_last = (50 :: ipv4)\<rparr>, \<lparr>r_start = 30, r_last = 40\<rparr>]))"
    by (simp_all add: ascending_def by_start_def from_range_def from_range_vec_def)
  have u: "{20..50} \<union> {30..40} = {20..50 :: ipv4}"
    by (rule Un_absorb2) simp
  show ?thesis using h exclude_correct[OF h] u
    by (simp add: from_range_def from_range_vec_def range_set_def)
qed

text \<open>C11. Indexing a compiled table: position \<open>i\<close> below the count yields the \<open>i\<close>-th address of the
  ranges laid end to end, and any other position is the panic of the code; the count is the number of
  addresses. Neither the offsets nor the address arithmetic wrap.\<close>

theorem index_correct:
  assumes "ascending (inner rs)"
  shows "index (compile rs) i
      = (if i < count (compile rs) then Some (addresses (inner rs) ! unat i) else None)
    \<and> unat (count (compile rs)) = length (addresses (inner rs))"
  using index_compiled[OF assms] compile_table(2)[OF assms] by simp

theorem index_correct_witness:
  "ascending [(\<lparr>r_start = 5, r_last = (6 :: ipv4)\<rparr>, ()), (\<lparr>r_start = 9, r_last = 9\<rparr>, ())]
   \<and> index (compile (from_range_vec [\<lparr>r_start = 5, r_last = 6\<rparr>, \<lparr>r_start = 9, r_last = 9\<rparr>])) 2 = Some 9
   \<and> index (compile (from_range_vec [\<lparr>r_start = 5, r_last = 6\<rparr>, \<lparr>r_start = 9, r_last = 9\<rparr>])) 3 = None"
proof -
  let ?rs = "from_range_vec [\<lparr>r_start = 5, r_last = 6\<rparr>, \<lparr>r_start = 9, r_last = (9 :: ipv4)\<rparr>]"
  have h: "ascending (inner ?rs)"
    by (simp add: ascending_def from_range_vec_def)
  have c: "count (compile ?rs) = 3" "addresses (inner ?rs) = [5, 6, 9]"
    by (simp_all add: from_range_vec_def compile_def range_list_def upt_rec)
  show ?thesis
    using h index_correct[OF h, of 2] index_correct[OF h, of 3] c
    by (simp add: from_range_vec_def)
qed



end
