(* ===== verification/LazyHeap.thy ===== *)
theory LazyHeap
  imports Farsight_Prelude "HOL-Library.Multiset" "HOL-Library.Product_Lexorder"
begin

text \<open>
  The heaps with lazy deletion of \<^verbatim>\<open>src/farsight/src/controller/strategy/pmap/heap.rs\<close>. A \<^verbatim>\<open>BinaryHeap\<close> is the
  multiset of its elements with its greatest element on top; pairs are ordered lexicographically, as Rust orders
  tuples. The values, \<^verbatim>\<open>OrderedFloat\<close> in the code, are any linearly ordered type.

  The lemmas rest on one invariant, \<open>lh_inv\<close>: the current heap is the stale heap together with the live pairs. It
  makes the heap an instance of the interface \<open>priority_map\<close>, which is all that the strategies use. The
  concurrent heap has the same operations, in several atomic steps; the last section shows that interleaved updates of different keys
  are as good as atomic, and what goes wrong when updates of one key interleave.
\<close>

section \<open>Binary heaps\<close>

type_synonym 'a heap = "'a multiset"

definition heap_peek :: "'a::linorder heap \<Rightarrow> 'a option" where
  "heap_peek h = (if h = {#} then None else Some (Max_mset h))"

definition heap_push :: "'a \<Rightarrow> 'a heap \<Rightarrow> 'a heap" where
  "heap_push x h = add_mset x h"

definition heap_pop :: "'a::linorder heap \<Rightarrow> 'a option \<times> 'a heap" where
  "heap_pop h = (case heap_peek h of None \<Rightarrow> (None, h) | Some x \<Rightarrow> (Some x, h - {#x#}))"

lemma heap_peek_Some: "heap_peek h = Some x \<longleftrightarrow> x \<in># h \<and> (\<forall>y \<in># h. y \<le> x)"
  by (auto simp: heap_peek_def intro: Max_eqI)

lemma heap_peek_None: "heap_peek h = None \<longleftrightarrow> h = {#}"
  by (simp add: heap_peek_def)

lemma heap_peek_empty [simp]: "heap_peek {#} = None"
  by (simp add: heap_peek_def)

lemma heap_pop_simps [simp]:
  "heap_peek h = None \<Longrightarrow> heap_pop h = (None, h)"
  "heap_peek h = Some x \<Longrightarrow> heap_pop h = (Some x, h - {#x#})"
  by (simp_all add: heap_pop_def)

lemma size_heap_pop: "heap_peek h = Some x \<Longrightarrow> size (snd (heap_pop h)) < size h"
  by (simp add: heap_peek_Some size_Diff1_less)

section \<open>The lazy heap\<close>

record ('v, 'k) lazy_heap =
  hvalues :: "'k \<rightharpoonup> 'v"
  current :: "('v \<times> 'k) heap"
  stale :: "('v \<times> 'k) heap"

definition lh_default :: "('v::linorder, 'k::linorder) lazy_heap" where
  "lh_default = \<lparr>hvalues = Map.empty, current = {#}, stale = {#}\<rparr>"

function lh_clean :: "('v::linorder, 'k::linorder) lazy_heap \<Rightarrow> ('v, 'k) lazy_heap" where
  "lh_clean h =
     (case (heap_peek (current h), heap_peek (stale h)) of
        (Some a, Some b) \<Rightarrow>
          if a = b then lh_clean (h\<lparr>current := snd (heap_pop (current h)), stale := snd (heap_pop (stale h))\<rparr>)
          else h
      | _ \<Rightarrow> h)"
  by pat_completeness auto
termination
  by (relation "measure (\<lambda>h. size (stale h))") (auto intro: size_heap_pop dest: sym)

declare lh_clean.simps [simp del]

definition lh_top :: "('v::linorder, 'k::linorder) lazy_heap \<Rightarrow> 'k option \<times> ('v, 'k) lazy_heap" where
  "lh_top h = (let h' = lh_clean h in (map_option snd (heap_peek (current h')), h'))"

definition lh_pop :: "('v::linorder, 'k::linorder) lazy_heap \<Rightarrow> ('v, 'k) lazy_heap" where
  "lh_pop h =
     (let h' = lh_clean h in
      case heap_pop (current h') of
        (Some (_, k), c) \<Rightarrow> h'\<lparr>current := c, hvalues := (hvalues h')(k := None)\<rparr>
      | (None, c) \<Rightarrow> h'\<lparr>current := c\<rparr>)"

definition lh_query :: "('v::linorder, 'k::linorder) lazy_heap \<Rightarrow> 'k \<Rightarrow> 'v option" where
  "lh_query h key = hvalues h key"

definition lh_update :: "('v::linorder, 'k::linorder) lazy_heap \<Rightarrow> 'k \<Rightarrow> 'v \<Rightarrow> ('v, 'k) lazy_heap" where
  "lh_update h key v =
     (let h1 = (case hvalues h key of
                  Some old \<Rightarrow> h\<lparr>stale := heap_push (old, key) (stale h)\<rparr>
                | None \<Rightarrow> h);
          h2 = h1\<lparr>hvalues := (hvalues h1)(key \<mapsto> v)\<rparr>
      in h2\<lparr>current := heap_push (v, key) (current h2)\<rparr>)"

definition lh_clear :: "('v::linorder, 'k::linorder) lazy_heap \<Rightarrow> ('v, 'k) lazy_heap" where
  "lh_clear h = h\<lparr>stale := {#}, current := {#}, hvalues := Map.empty\<rparr>"

section \<open>The invariant\<close>

definition live :: "('k \<rightharpoonup> 'v) \<Rightarrow> ('v::linorder \<times> 'k::linorder) multiset" where
  "live m = image_mset (\<lambda>k. (the (m k), k)) (mset_set (dom m))"

definition lh_inv :: "('v::linorder, 'k::linorder) lazy_heap \<Rightarrow> bool" where
  "lh_inv h \<longleftrightarrow> finite (dom (hvalues h)) \<and> current h = stale h + live (hvalues h)"

lemma in_live: "finite (dom m) \<Longrightarrow> (v, k) \<in># live m \<longleftrightarrow> m k = Some v"
  by (force simp: live_def)

lemma live_empty [simp]: "live Map.empty = {#}"
  by (simp add: live_def)

lemma live_remove:
  assumes "finite (dom m)" "m k = Some v"
  shows "live m = add_mset (v, k) (live (m(k := None)))"
proof -
  have d: "dom m = insert k (dom m - {k})" using assms by auto
  have "live m = add_mset (v, k) (image_mset (\<lambda>j. (the (m j), j)) (mset_set (dom m - {k})))"
    unfolding live_def by (subst d, subst mset_set.insert) (use assms in auto)
  also have "image_mset (\<lambda>j. (the (m j), j)) (mset_set (dom m - {k})) = live (m(k := None))"
    unfolding live_def using assms by (auto intro!: image_mset_cong)
  finally show ?thesis .
qed

lemma live_insert:
  assumes "finite (dom m)" "m k = None"
  shows "live (m(k \<mapsto> v)) = add_mset (v, k) (live m)"
  using live_remove[of "m(k \<mapsto> v)" k v] assms by (simp add: fun_upd_idem)

lemma lh_clean_step:
  assumes "lh_inv h" "heap_peek (current h) = Some a" "heap_peek (stale h) = Some a"
  shows "lh_inv (h\<lparr>current := current h - {#a#}, stale := stale h - {#a#}\<rparr>)"
  using assms by (auto simp: lh_inv_def heap_peek_Some)

lemma lh_clean_eq:
  "heap_peek (current h) = Some a \<Longrightarrow> heap_peek (stale h) = Some a \<Longrightarrow>
     lh_clean h = lh_clean (h\<lparr>current := current h - {#a#}, stale := stale h - {#a#}\<rparr>)"
  "heap_peek (current h) = None \<or> heap_peek (stale h) = None \<or> heap_peek (current h) \<noteq> heap_peek (stale h) \<Longrightarrow>
     lh_clean h = h"
  by (subst lh_clean.simps, simp, subst lh_clean.simps, auto split: option.split)

lemma lh_clean_inv: "lh_inv h \<Longrightarrow> lh_inv (lh_clean h) \<and> hvalues (lh_clean h) = hvalues h"
proof (induction h rule: lh_clean.induct)
  case (1 h)
  show ?case
  proof (cases "heap_peek (current h) \<noteq> None \<and> heap_peek (current h) = heap_peek (stale h)")
    case True
    then obtain a where a1: "heap_peek (current h) = Some a" by blast
    with True have a: "heap_peek (current h) = Some a" "heap_peek (stale h) = Some a" by simp_all
    then show ?thesis
      using 1(1)[OF refl a(1) a(2) refl] lh_clean_step[OF 1(2) a] lh_clean_eq(1)[OF a] by simp
  next
    case False
    then have "lh_clean h = h" by (intro lh_clean_eq(2)) auto
    then show ?thesis using 1(2) by simp
  qed
qed

lemma lh_clean_done: "heap_peek (current (lh_clean h)) = None \<or> heap_peek (current (lh_clean h)) \<noteq> heap_peek (stale (lh_clean h))"
proof (induction h rule: lh_clean.induct)
  case (1 h)
  show ?case
  proof (cases "heap_peek (current h) \<noteq> None \<and> heap_peek (current h) = heap_peek (stale h)")
    case True
    then obtain a where a1: "heap_peek (current h) = Some a" by blast
    with True have a: "heap_peek (current h) = Some a" "heap_peek (stale h) = Some a" by simp_all
    then show ?thesis
      using 1(1)[OF refl a(1) a(2) refl] lh_clean_eq(1)[OF a] by simp
  next
    case False
    then have "lh_clean h = h" by (intro lh_clean_eq(2)) auto
    then show ?thesis using False by auto
  qed
qed

lemma lh_clean_idem [simp]: "lh_clean (lh_clean h) = lh_clean h"
  using lh_clean_done[of h] by (intro lh_clean_eq(2)) auto

lemma size_lh_clean: "size (current (lh_clean h)) \<le> size (current h)"
proof (induction h rule: lh_clean.induct)
  case (1 h)
  show ?case
  proof (cases "heap_peek (current h) \<noteq> None \<and> heap_peek (current h) = heap_peek (stale h)")
    case True
    then obtain a where a1: "heap_peek (current h) = Some a" by blast
    with True have a: "heap_peek (current h) = Some a" "heap_peek (stale h) = Some a" by simp_all
    then have "size (current h - {#a#}) \<le> size (current h)" by (simp add: size_Diff1_le)
    then show ?thesis
      using 1(1)[OF refl a(1) a(2) refl] lh_clean_eq(1)[OF a] a by simp
  next
    case False
    then have "lh_clean h = h" by (intro lh_clean_eq(2)) auto
    then show ?thesis by simp
  qed
qed

lemma lh_clean_peek:
  assumes "lh_inv h"
  shows "heap_peek (current (lh_clean h)) = heap_peek (live (hvalues h))"
proof -
  let ?h = "lh_clean h"
  have i: "lh_inv ?h" "hvalues ?h = hvalues h"
    and ne: "heap_peek (current ?h) = None \<or> heap_peek (current ?h) \<noteq> heap_peek (stale ?h)"
    using lh_clean_inv[OF assms] lh_clean_done[of h] by auto
  have c: "current ?h = stale ?h + live (hvalues h)" using i by (simp add: lh_inv_def)
  show ?thesis
  proof (cases "heap_peek (current ?h)")
    case None
    then show ?thesis using c by (simp add: heap_peek_None)
  next
    case (Some x)
    then have x: "x \<in># current ?h" "\<forall>y \<in># current ?h. y \<le> x" by (auto simp: heap_peek_Some)
    have "x \<notin># stale ?h"
    proof
      assume "x \<in># stale ?h"
      then have "heap_peek (stale ?h) = Some x" using x c by (auto simp: heap_peek_Some)
      then show False using ne Some by simp
    qed
    then have "heap_peek (live (hvalues h)) = Some x" using x c by (auto simp: heap_peek_Some)
    then show ?thesis using Some by simp
  qed
qed

lemma live_empty_iff: "finite (dom m) \<Longrightarrow> live m = {#} \<longleftrightarrow> m = Map.empty"
  by (auto simp: live_def mset_set_empty_iff)

section \<open>Priority maps\<close>

text \<open>
  What the strategies rely on: a map from keys to values with the key of the greatest pair at hand.
\<close>

locale priority_map =
  fixes inv :: "'h \<Rightarrow> bool"
    and abs_map :: "'h \<Rightarrow> ('k::linorder \<rightharpoonup> 'v::linorder)"
    and top_key :: "'h \<Rightarrow> 'k option \<times> 'h"
    and pop_top :: "'h \<Rightarrow> 'h"
    and upd :: "'h \<Rightarrow> 'k \<Rightarrow> 'v \<Rightarrow> 'h"
  assumes fin: "inv h \<Longrightarrow> finite (dom (abs_map h))"
    and inv_upd: "inv h \<Longrightarrow> inv (upd h k v)"
    and abs_upd: "inv h \<Longrightarrow> abs_map (upd h k v) = (abs_map h)(k \<mapsto> v)"
    and inv_top: "inv h \<Longrightarrow> inv (snd (top_key h))"
    and abs_top: "inv h \<Longrightarrow> abs_map (snd (top_key h)) = abs_map h"
    and top_None: "inv h \<Longrightarrow> fst (top_key h) = None \<longleftrightarrow> abs_map h = Map.empty"
    and top_Some: "inv h \<Longrightarrow> fst (top_key h) = Some k \<Longrightarrow>
      \<exists>v. abs_map h k = Some v \<and> (\<forall>k' v'. abs_map h k' = Some v' \<longrightarrow> (v', k') \<le> (v, k))"
    and inv_pop: "inv h \<Longrightarrow> inv (pop_top h)"
    and abs_pop: "inv h \<Longrightarrow> abs_map (pop_top h) =
      (case fst (top_key h) of None \<Rightarrow> abs_map h | Some k \<Rightarrow> (abs_map h)(k := None))"
begin

lemma top_in_dom: "inv h \<Longrightarrow> fst (top_key h) = Some k \<Longrightarrow> k \<in> dom (abs_map h)"
  using top_Some by blast

lemma top_greatest:
  assumes "inv h" "abs_map h k = Some v"
    and "\<And>k' v'. abs_map h k' = Some v' \<Longrightarrow> (v', k') \<le> (v, k)"
  shows "fst (top_key h) = Some k"
proof (cases "fst (top_key h)")
  case None
  then show ?thesis using top_None[OF assms(1)] assms(2) by simp
next
  case (Some j)
  from top_Some[OF assms(1) Some] obtain w where
    w: "abs_map h j = Some w" "\<And>k' v'. abs_map h k' = Some v' \<Longrightarrow> (v', k') \<le> (w, j)" by blast
  have "(v, k) = (w, j)" using w(2)[OF assms(2)] assms(3)[OF w(1)] by (rule order.antisym)
  then show ?thesis using Some by simp
qed

lemma inv_pops: "inv h \<Longrightarrow> inv ((pop_top ^^ n) h)"
  by (induction n) (auto simp: inv_pop)

lemma card_pop: "inv h \<Longrightarrow> card (dom (abs_map (pop_top h))) = card (dom (abs_map h)) - 1"
  using fin[of h] top_in_dom[of h] top_None[of h]
  by (cases "fst (top_key h)") (auto simp: abs_pop dom_fun_upd)

lemma drain:
  assumes "inv h"
  shows "abs_map ((pop_top ^^ card (dom (abs_map h))) h) = Map.empty"
proof -
  have "card (dom (abs_map ((pop_top ^^ n) h))) = card (dom (abs_map h)) - n" for n
    by (induction n) (auto simp: card_pop inv_pops assms)
  then have "card (dom (abs_map ((pop_top ^^ card (dom (abs_map h))) h))) = 0" by simp
  then show ?thesis using fin[OF inv_pops[OF assms]] by simp
qed

end

lemma live_update:
  "finite (dom m) \<Longrightarrow> live (m(k \<mapsto> v)) = add_mset (v, k) (live (m(k := None)))"
  using live_insert[of "m(k := None)" k v] by simp

lemma lh_update_inv: "lh_inv h \<Longrightarrow> lh_inv (lh_update h k v)"
  by (cases "hvalues h k")
    (auto simp: lh_inv_def lh_update_def heap_push_def live_insert live_remove[of "hvalues h" k] live_update)

lemma lh_pop_eq:
  "lh_pop h = (case heap_peek (current (lh_clean h)) of
     None \<Rightarrow> lh_clean h
   | Some (v, k) \<Rightarrow> (lh_clean h)\<lparr>current := current (lh_clean h) - {#(v, k)#}, hvalues := (hvalues (lh_clean h))(k := None)\<rparr>)"
  by (auto simp: lh_pop_def Let_def heap_pop_def split: option.split)

lemma size_lh_pop:
  assumes "lh_top h = (Some k, h')"
  shows "size (current (lh_pop h')) < size (current h)"
proof -
  have h': "h' = lh_clean h" using assms by (simp add: lh_top_def Let_def)
  obtain v where p: "heap_peek (current h') = Some (v, k)"
    using assms by (auto simp: lh_top_def Let_def)
  then have "(v, k) \<in># current h'" by (simp add: heap_peek_Some)
  then have "size (current h' - {#(v, k)#}) < size (current h')" by (rule size_Diff1_less)
  then show ?thesis using p size_lh_clean[of h] by (simp add: h' lh_pop_eq)
qed

lemma lh_pop_inv:
  assumes "lh_inv h"
  shows "lh_inv (lh_pop h)"
proof (cases "heap_peek (current (lh_clean h))")
  case None
  then show ?thesis using lh_clean_inv[OF assms] by (simp add: lh_pop_eq)
next
  case (Some x)
  obtain v k where x: "x = (v, k)" by (cases x)
  have i: "lh_inv (lh_clean h)" "hvalues (lh_clean h) = hvalues h" using lh_clean_inv[OF assms] by auto
  have fin: "finite (dom (hvalues h))" using assms by (simp add: lh_inv_def)
  have "hvalues h k = Some v"
    using Some lh_clean_peek[OF assms] in_live[OF fin] by (simp add: x heap_peek_Some)
  then show ?thesis using i Some x live_remove[OF fin, of k v] fin by (simp add: lh_pop_eq lh_inv_def)
qed

interpretation lazy: priority_map lh_inv hvalues lh_top lh_pop lh_update
proof (unfold_locales, goal_cases)
  case (6 h)
  then show ?case using lh_clean_peek[of h] live_empty_iff[of "hvalues h"]
    by (simp add: lh_top_def Let_def lh_inv_def heap_peek_None)
next
  case (7 h k)
  then obtain v where "heap_peek (live (hvalues h)) = Some (v, k)"
    using lh_clean_peek[of h] by (auto simp: lh_top_def Let_def)
  then have "(v, k) \<in># live (hvalues h)" "\<And>y. y \<in># live (hvalues h) \<Longrightarrow> y \<le> (v, k)"
    by (auto simp: heap_peek_Some)
  moreover have "finite (dom (hvalues h))" using 7(1) by (simp add: lh_inv_def)
  ultimately show ?case using in_live by metis
next
  case (2 h k v)
  then show ?case by (rule lh_update_inv)
next
  case (8 h)
  then show ?case by (rule lh_pop_inv)
qed (auto simp: lh_clean_inv lh_top_def Let_def lh_update_def lh_pop_eq
       split: option.splits dest: lh_inv_def[THEN iffD1])

lemma lh_inv_default: "lh_inv lh_default"
  by (simp add: lh_inv_def lh_default_def)

lemma lh_clear_inv: "lh_inv (lh_clear h)" "hvalues (lh_clear h) = Map.empty"
  by (simp_all add: lh_inv_def lh_clear_def)

section \<open>Sequences of operations\<close>

datatype ('v, 'k) heap_op = Update 'k 'v | Top | Pop | Clear

fun lh_do :: "('v::linorder, 'k::linorder) lazy_heap \<Rightarrow> ('v, 'k) heap_op \<Rightarrow> ('v, 'k) lazy_heap" where
  "lh_do h (Update k v) = lh_update h k v"
| "lh_do h Top = snd (lh_top h)"
| "lh_do h Pop = lh_pop h"
| "lh_do h Clear = lh_clear h"

lemma lh_do_inv: "lh_inv h \<Longrightarrow> lh_inv (lh_do h op)"
  by (cases op) (auto simp: lh_clear_inv intro: lazy.inv_upd lazy.inv_top lazy.inv_pop)

lemma lh_run_inv: "lh_inv h \<Longrightarrow> lh_inv (foldl lh_do h ops)"
  by (induction ops arbitrary: h) (auto simp: lh_do_inv)

text \<open>
  C31. The lazy heap is a priority map: after any sequence of updates, queries of the top, removals and clears, the
  top is the key of the greatest live pair, it is missing exactly when no key is live, and removing it removes
  exactly that key; entries that were superseded by an update are never returned.
\<close>
theorem lazy_heap_top:
  fixes ops :: "('v::linorder, 'k::linorder) heap_op list"
  defines "h \<equiv> foldl lh_do lh_default ops"
  shows "case fst (lh_top h) of
     None \<Rightarrow> hvalues h = Map.empty \<and> hvalues (lh_pop h) = Map.empty
   | Some k \<Rightarrow> (\<exists>v. hvalues h k = Some v \<and> (\<forall>k' v'. hvalues h k' = Some v' \<longrightarrow> (v', k') \<le> (v, k)))
       \<and> hvalues (lh_pop h) = (hvalues h)(k := None)"
proof -
  have i: "lh_inv h" unfolding h_def by (rule lh_run_inv[OF lh_inv_default])
  show ?thesis
  proof (cases "fst (lh_top h)")
    case None
    then show ?thesis using lazy.top_None[OF i] lazy.abs_pop[OF i] by simp
  next
    case (Some k)
    then show ?thesis using lazy.top_Some[OF i Some] lazy.abs_pop[OF i] by simp
  qed
qed

definition demo_ops :: "(nat, nat) heap_op list" where
  "demo_ops = [Update 1 5, Update 2 4, Update 1 3]"

theorem lazy_heap_top_witness:
  "fst (lh_top (foldl lh_do lh_default demo_ops)) = Some 2
     \<and> hvalues (lh_pop (foldl lh_do lh_default demo_ops)) = [1 \<mapsto> 3]"
proof -
  have v: "hvalues (foldl lh_do lh_default demo_ops) = [1 \<mapsto> 3, 2 \<mapsto> 4]"
    by (auto simp: demo_ops_def lh_update_def lh_default_def)
  from lazy_heap_top[of demo_ops] show ?thesis
    by (cases "fst (lh_top (foldl lh_do lh_default demo_ops))") (auto simp: v split: if_splits)
qed

section \<open>The concurrent heap\<close>

text \<open>
  \<^verbatim>\<open>ConcurrentLazyHeap\<close> holds the same data behind two mutexes and a concurrent map. Its operations have the bodies
  of the sequential ones, but \<^verbatim>\<open>update\<close> takes its locks one after the other: it is three atomic steps, which
  may be separated by steps of other threads.
\<close>

definition cl_mark_stale :: "('v::linorder, 'k::linorder) lazy_heap \<Rightarrow> 'k \<Rightarrow> ('v, 'k) lazy_heap" where
  "cl_mark_stale h key =
     (case hvalues h key of
        Some old \<Rightarrow> h\<lparr>stale := heap_push (old, key) (stale h)\<rparr>
      | None \<Rightarrow> h)"

definition cl_insert :: "('v::linorder, 'k::linorder) lazy_heap \<Rightarrow> 'k \<Rightarrow> 'v \<Rightarrow> ('v, 'k) lazy_heap" where
  "cl_insert h key v = h\<lparr>hvalues := (hvalues h)(key \<mapsto> v)\<rparr>"

definition cl_push :: "('v::linorder, 'k::linorder) lazy_heap \<Rightarrow> 'k \<Rightarrow> 'v \<Rightarrow> ('v, 'k) lazy_heap" where
  "cl_push h key v = h\<lparr>current := heap_push (v, key) (current h)\<rparr>"

definition cl_update :: "('v::linorder, 'k::linorder) lazy_heap \<Rightarrow> 'k \<Rightarrow> 'v \<Rightarrow> ('v, 'k) lazy_heap" where
  "cl_update h key v = cl_push (cl_insert (cl_mark_stale h key) key v) key v"

definition cl_top :: "('v::linorder, 'k::linorder) lazy_heap \<Rightarrow> 'k option \<times> ('v, 'k) lazy_heap" where
  "cl_top h = (let h' = lh_clean h in (map_option snd (heap_peek (current h')), h'))"

text \<open>\<^verbatim>\<open>pop\<close> holds the lock of the current heap, but removes the value from the map in a step of its own.\<close>

definition cl_take :: "('v::linorder, 'k::linorder) lazy_heap \<Rightarrow> 'k option \<times> ('v, 'k) lazy_heap" where
  "cl_take h = (let h' = lh_clean h in case heap_pop (current h') of (x, c) \<Rightarrow> (map_option snd x, h'\<lparr>current := c\<rparr>))"

definition cl_remove :: "('v::linorder, 'k::linorder) lazy_heap \<Rightarrow> 'k \<Rightarrow> ('v, 'k) lazy_heap" where
  "cl_remove h key = h\<lparr>hvalues := (hvalues h)(key := None)\<rparr>"

definition cl_pop :: "('v::linorder, 'k::linorder) lazy_heap \<Rightarrow> ('v, 'k) lazy_heap" where
  "cl_pop h = (case cl_take h of (Some k, h') \<Rightarrow> cl_remove h' k | (None, h') \<Rightarrow> h')"

definition cl_query :: "('v::linorder, 'k::linorder) lazy_heap \<Rightarrow> 'k \<Rightarrow> 'v option" where
  "cl_query h key = hvalues h key"

definition cl_clear :: "('v::linorder, 'k::linorder) lazy_heap \<Rightarrow> ('v, 'k) lazy_heap" where
  "cl_clear h =
     (let h = h\<lparr>stale := {#}\<rparr>;
          h = h\<lparr>current := {#}\<rparr>
      in h\<lparr>hvalues := Map.empty\<rparr>)"

lemma cl_sequential:
  "cl_update h k v = lh_update h k v" "cl_top h = lh_top h" "cl_pop h = lh_pop h" "cl_query h k = lh_query h k" "cl_clear h = lh_clear h"
  by (simp_all add: cl_update_def cl_push_def cl_insert_def cl_mark_stale_def lh_update_def cl_top_def lh_top_def cl_pop_def cl_take_def
      cl_remove_def lh_pop_def cl_query_def lh_query_def cl_clear_def lh_clear_def Let_def split: option.split prod.split)

datatype ('v, 'k) cl_step = Mark_stale 'k | Insert 'k 'v | Push 'k 'v

fun cl_do :: "('v::linorder, 'k::linorder) lazy_heap \<Rightarrow> ('v, 'k) cl_step \<Rightarrow> ('v, 'k) lazy_heap" where
  "cl_do h (Mark_stale k) = cl_mark_stale h k"
| "cl_do h (Insert k v) = cl_insert h k v"
| "cl_do h (Push k v) = cl_push h k v"

fun step_key :: "('v, 'k) cl_step \<Rightarrow> 'k" where
  "step_key (Mark_stale k) = k"
| "step_key (Insert k v) = k"
| "step_key (Push k v) = k"

definition update_steps :: "'k \<times> 'v \<Rightarrow> ('v, 'k) cl_step list" where
  "update_steps kv = [Mark_stale (fst kv), Insert (fst kv) (snd kv), Push (fst kv) (snd kv)]"

lemma cl_steps_commute: "step_key x \<noteq> step_key y \<Longrightarrow> cl_do (cl_do h x) y = cl_do (cl_do h y) x"
  by (cases x; cases y) (auto simp: cl_mark_stale_def cl_insert_def cl_push_def heap_push_def add_mset_commute fun_upd_twist split: option.split)

lemma cl_do_past: "\<forall>x \<in> set xs. step_key x \<noteq> step_key y \<Longrightarrow> foldl cl_do (cl_do h y) xs = cl_do (foldl cl_do h xs) y"
proof (induction xs arbitrary: h)
  case (Cons x xs)
  have "cl_do (cl_do h y) x = cl_do (cl_do h x) y" using Cons(2) cl_steps_commute[of x y h] by simp
  then show ?case using Cons by simp
qed simp

lemma cl_shuffle:
  assumes "zs \<in> shuffles xs ys" "step_key ` set xs \<inter> step_key ` set ys = {}"
  shows "foldl cl_do h zs = foldl cl_do (foldl cl_do h xs) ys"
  using assms
proof (induction xs ys arbitrary: zs h rule: shuffles.induct)
  case (3 x xs y ys)
  then consider zs' where "zs = x # zs'" "zs' \<in> shuffles xs (y # ys)" | zs' where "zs = y # zs'" "zs' \<in> shuffles (x # xs) ys" by auto
  then show ?case
  proof cases
    case 1
    then show ?thesis using 3(1)[of zs'] 3(4) by auto
  next
    case 2
    have "foldl cl_do (cl_do h y) (x # xs) = cl_do (foldl cl_do h (x # xs)) y" by (rule cl_do_past) (use 3(4) in \<open>auto dest: sym\<close>)
    then show ?thesis using 2 3(2)[of zs' "cl_do h y"] 3(4) by auto
  qed
qed simp_all

text \<open>
  C32. Concurrent updates of different keys are as good as atomic: however the steps of one thread's updates and those of
  another thread's interleave, if no key is updated by both, the heap afterwards is the one that the updates of the first
  and then those of the second leave behind.
\<close>
theorem cl_updates_atomic:
  assumes "fst ` set us \<inter> fst ` set vs = {}" "zs \<in> shuffles (concat (map update_steps us)) (concat (map update_steps vs))"
  shows "foldl cl_do h zs = foldl (\<lambda>h (k, v). lh_update h k v) (foldl (\<lambda>h (k, v). lh_update h k v) h us) vs"
proof -
  have k: "step_key ` set (concat (map update_steps ws)) = fst ` set ws" for ws :: "('a \<times> 'b) list"
    by (force simp: update_steps_def)
  have s: "foldl cl_do h (concat (map update_steps ws)) = foldl (\<lambda>h (k, v). lh_update h k v) h ws" for h ws
    by (induction ws arbitrary: h) (auto simp: update_steps_def cl_sequential(1)[symmetric] cl_update_def)
  show ?thesis using cl_shuffle[OF assms(2)] assms(1) unfolding k s by blast
qed

theorem cl_updates_atomic_witness:
  "hvalues (foldl cl_do lh_default [Mark_stale 1, Mark_stale (2 :: nat), Insert 2 (7 :: nat), Insert 1 5, Push 1 5, Push 2 7]) = [1 \<mapsto> 5, 2 \<mapsto> 7]"
proof -
  have "[Mark_stale 1, Mark_stale (2 :: nat), Insert 2 (7 :: nat), Insert 1 5, Push 1 5, Push 2 7]
      \<in> shuffles (concat (map update_steps [(1, 5)])) (concat (map update_steps [(2, 7)]))"
    by (simp add: update_steps_def)
  from cl_updates_atomic[OF _ this, of lh_default] show ?thesis by (simp add: lh_update_def lh_default_def)
qed

text \<open>
  Concurrent updates of one key are not atomic: starting from a heap with one key, when two threads both run the
  first step of \<^verbatim>\<open>update\<close> before either runs the second, the heap keeps a pair that no update will ever supersede;
  after the key is removed, the top still returns it although a query finds no value.
\<close>
theorem cl_update_race:
  fixes k :: "'k::linorder" and v v1 v2 :: "'v::linorder"
  assumes "v1 < v" "v2 < v1"
  defines "h0 \<equiv> lh_update lh_default k v"
  defines "h1 \<equiv> cl_mark_stale (cl_mark_stale h0 k) k"
  defines "h2 \<equiv> cl_insert (cl_insert h1 k v1) k v2"
  defines "h3 \<equiv> cl_push (cl_push h2 k v1) k v2"
  shows "lh_query (lh_pop h3) k = None \<and> fst (lh_top (lh_pop h3)) = Some k"
proof -
  have h3: "h3 = \<lparr>hvalues = [k \<mapsto> v2], current = {#(v2, k), (v1, k), (v, k)#}, stale = {#(v, k), (v, k)#}\<rparr>"
    by (simp add: h3_def h2_def h1_def h0_def cl_push_def cl_insert_def cl_mark_stale_def lh_update_def
        lh_default_def heap_push_def)
  have top: "heap_peek (current h3) = Some (v, k)" "heap_peek (stale h3) = Some (v, k)"
    using assms(1,2) by (auto simp: h3 heap_peek_Some)
  define g where "g = \<lparr>hvalues = [k \<mapsto> v2], current = {#(v2, k), (v1, k)#}, stale = {#(v, k)#}\<rparr>"
  have g: "heap_peek (current g) = Some (v1, k)" "heap_peek (stale g) = Some (v, k)"
    using assms(1,2) by (auto simp: g_def heap_peek_Some)
  have "lh_clean h3 = lh_clean g" using lh_clean_eq(1)[OF top] by (simp add: h3 g_def)
  also have "lh_clean g = g" using g assms(1) by (intro lh_clean_eq(2)) simp
  finally have p: "lh_pop h3 = \<lparr>hvalues = Map.empty, current = {#(v2, k)#}, stale = {#(v, k)#}\<rparr>" (is "_ = ?p")
    using g by (simp add: lh_pop_eq) (simp add: g_def)
  have q: "heap_peek (current ?p) = Some (v2, k)" "heap_peek (stale ?p) = Some (v, k)"
    by (simp_all add: heap_peek_Some)
  then have "lh_clean ?p = ?p" using assms(1,2) by (intro lh_clean_eq(2)) simp
  then show ?thesis using p q by (simp add: lh_query_def lh_top_def)
qed

theorem cl_update_race_witness:
  "(2 :: nat) < 3 \<and> (1 :: nat) < 2 \<and>
   (let h1 = cl_mark_stale (cl_mark_stale (lh_update lh_default (7 :: nat) (3 :: nat)) 7) 7;
        h3 = cl_push (cl_push (cl_insert (cl_insert h1 7 2) 7 1) 7 2) 7 1
    in lh_query (lh_pop h3) 7 = None \<and> fst (lh_top (lh_pop h3)) = Some 7)"
  using cl_update_race[of "2 :: nat" 3 1 "7 :: nat"] by (simp add: Let_def)

end
