(* ===== verification/Prefix.thy ===== *)
theory Prefix
  imports Farsight_Prelude
begin

text \<open>
  The per-prefix state of the address strategy, \<^verbatim>\<open>src/farsight/src/controller/strategy/pmap/graph/prefix.rs\<close>: the
  historical score of a /24 prefix, and the bitmap with which its 256 addresses are handed out once each. The
  generator behind \<^verbatim>\<open>random_range\<close> is a parameter on an explicit generator state; nothing is assumed of it.

  \<open>scanned\<close> reads the bitmap as a set of offsets; the lemmas show that marking inserts into it, that the counter
  is its complement's size and that a free offset is found whenever there is one.
\<close>

section \<open>Historical hits\<close>

record prefix_graph =
  historical_hits :: "u32 \<rightharpoonup> u64"

definition prefix_from_counts :: "(u32 \<rightharpoonup> u64) \<Rightarrow> prefix_graph" where
  "prefix_from_counts hits = \<lparr>historical_hits = hits\<rparr>"

definition historical_score :: "prefix_graph \<Rightarrow> u32 \<Rightarrow> u64" where
  "historical_score self prefix_id = (case historical_hits self prefix_id of Some n \<Rightarrow> n | None \<Rightarrow> 0)"

section \<open>The bitmap of one /24 prefix\<close>

record prefix_state =
  bitmap :: bytes
  remaining :: u16

definition prefix_state_new :: prefix_state where
  "prefix_state_new = \<lparr>bitmap = replicate 32 0, remaining = 256\<rparr>"

definition is_unscanned :: "prefix_state \<Rightarrow> u8 \<Rightarrow> bool" where
  "is_unscanned self off \<longleftrightarrow> drop_bit (unat (off mod 8)) (bitmap self ! unat (off div 8)) AND 1 \<noteq> 1"

definition mark_scanned :: "prefix_state \<Rightarrow> u8 \<Rightarrow> bool \<times> prefix_state" where
  "mark_scanned self off =
     (let byte = bitmap self ! unat (off div 8); b = push_bit (unat (off mod 8)) 1 in
      if byte AND b \<noteq> 0 then (True, self)
      else (False, self\<lparr>bitmap := (bitmap self)[unat (off div 8) := byte OR b],
                       remaining := remaining self - 1\<rparr>))"

fun pick_random :: "('g \<Rightarrow> u16 \<times> 'g) \<Rightarrow> nat \<Rightarrow> prefix_state \<Rightarrow> 'g \<Rightarrow> u8 option \<times> 'g" where
  "pick_random random_range 0 self rng = (None, rng)"
| "pick_random random_range (Suc n) self rng =
     (let (r, rng') = random_range rng; candidate = ucast r in
      if is_unscanned self candidate then (Some candidate, rng')
      else pick_random random_range n self rng')"

definition fetch_unscanned :: "('g \<Rightarrow> u16 \<times> 'g) \<Rightarrow> prefix_state \<Rightarrow> 'g \<Rightarrow> u8 option \<times> 'g" where
  "fetch_unscanned random_range self rng =
     (if remaining self = 0 then (None, rng)
      else (case pick_random random_range 50 self rng of
              (Some candidate, rng') \<Rightarrow> (Some candidate, rng')
            | (None, rng') \<Rightarrow> (find (is_unscanned self) (map word_of_nat [0..<256]), rng')))"

section \<open>The set of scanned offsets\<close>

definition scanned :: "prefix_state \<Rightarrow> u8 set" where
  "scanned s = {off. \<not> is_unscanned s off}"

definition prefix_wf :: "prefix_state \<Rightarrow> bool" where
  "prefix_wf s \<longleftrightarrow> length (bitmap s) = 32 \<and> unat (remaining s) + card (scanned s) = 256"

lemma unat_div8: "unat (off div 8 :: u8) = unat off div 8" "unat (off mod 8 :: u8) = unat off mod 8"
  by (simp_all add: unat_div unat_mod)

lemma div8_less: "unat (off :: u8) div 8 < 32"
  using unat_bounds(1)[of off] by simp

lemma is_unscanned_bit: "is_unscanned s off \<longleftrightarrow> \<not> bit (bitmap s ! (unat off div 8)) (unat off mod 8)"
  by (simp add: is_unscanned_def unat_div8 and_one_eq bit_iff_odd_drop_bit mod2_eq_if)

lemma mark_bit: "(byte :: u8) AND push_bit n 1 \<noteq> 0 \<longleftrightarrow> n < 8 \<and> bit byte n"
proof -
  have "byte AND push_bit n 1 \<noteq> 0 \<longleftrightarrow> (\<exists>i. bit (byte AND push_bit n 1) i)"
    by (metis bit_0_eq bit_eqI bot_apply bot_bool_def)
  then show ?thesis by (auto simp: bit_simps)
qed

lemma mark_scanned_fst: "fst (mark_scanned s off) \<longleftrightarrow> off \<in> scanned s"
  by (auto simp: mark_scanned_def Let_def scanned_def is_unscanned_bit mark_bit[simplified] unat_div8)

lemma same_offset: "unat (a :: u8) div 8 = unat (b :: u8) div 8 \<Longrightarrow> unat a mod 8 = unat b mod 8 \<Longrightarrow> a = b"
  by (metis mult_div_mod_eq unsigned_word_eqI)

lemma scanned_mark:
  assumes "length (bitmap s) = 32"
  shows "scanned (snd (mark_scanned s off)) = insert off (scanned s)"
proof (cases "off \<in> scanned s")
  case True
  then show ?thesis using mark_scanned_fst[of s off] by (auto simp: mark_scanned_def Let_def split: if_splits)
next
  case False
  then have s: "snd (mark_scanned s off) = s\<lparr>bitmap := (bitmap s)[unat off div 8 :=
      bitmap s ! (unat off div 8) OR push_bit (unat off mod 8) 1], remaining := remaining s - 1\<rparr>"
    using mark_scanned_fst[of s off] by (auto simp: mark_scanned_def Let_def unat_div8 split: if_splits)
  have "x \<in> scanned (snd (mark_scanned s off)) \<longleftrightarrow> x = off \<or> x \<in> scanned s" for x
    using assms div8_less[of off] same_offset[of x off]
    by (cases "unat x div 8 = unat off div 8") (auto simp: s scanned_def is_unscanned_bit bit_simps)
  then show ?thesis by auto
qed

lemma mark_scanned_wf:
  assumes "prefix_wf s"
  shows "prefix_wf (snd (mark_scanned s off))"
proof (cases "off \<in> scanned s")
  case True
  then have "snd (mark_scanned s off) = s"
    using mark_scanned_fst[of s off] by (auto simp: mark_scanned_def Let_def split: if_splits)
  then show ?thesis using assms by simp
next
  case False
  have l: "length (bitmap s) = 32" using assms by (simp add: prefix_wf_def)
  have c: "card (insert off (scanned s)) = Suc (card (scanned s))" using False by simp
  then have "card (scanned s) < 256"
    using card_mono[of UNIV "insert off (scanned s)"] by (simp add: card_word)
  then have "unat (remaining s) \<noteq> 0" using assms by (simp add: prefix_wf_def)
  then have "unat (remaining s - 1) = unat (remaining s) - 1" by (simp add: unat_minus_one unat_eq_zero)
  moreover have "remaining (snd (mark_scanned s off)) = remaining s - 1"
    "length (bitmap (snd (mark_scanned s off))) = 32"
    using False mark_scanned_fst[of s off] l by (auto simp: mark_scanned_def Let_def split: if_splits)
  ultimately show ?thesis
    using assms scanned_mark[OF l, of off] c \<open>unat (remaining s) \<noteq> 0\<close> by (simp add: prefix_wf_def)
qed

lemma prefix_state_new_wf: "prefix_wf prefix_state_new" "scanned prefix_state_new = {}"
proof -
  show s: "scanned prefix_state_new = {}"
    using div8_less by (auto simp: scanned_def is_unscanned_bit prefix_state_new_def)
  show "prefix_wf prefix_state_new" by (simp add: prefix_wf_def s) (simp add: prefix_state_new_def)
qed

lemma remaining_zero: "prefix_wf s \<Longrightarrow> remaining s = 0 \<longleftrightarrow> scanned s = UNIV"
proof -
  assume "prefix_wf s"
  then have "remaining s = 0 \<longleftrightarrow> card (scanned s) = card (UNIV :: u8 set)"
    by (auto simp: prefix_wf_def card_word simp flip: unat_eq_zero)
  then show ?thesis by (metis card_subset_eq finite subset_UNIV)
qed

lemma pick_random_unscanned: "pick_random rr n s rng = (Some off, rng') \<Longrightarrow> is_unscanned s off"
  by (induction n arbitrary: rng) (auto simp: Let_def split: prod.splits if_splits)

lemma all_offsets: "off \<in> set (map word_of_nat [0..<256] :: u8 list)"
proof -
  have "off = word_of_nat (unat off)" by simp
  moreover have "unat off \<in> set [0..<256]" using unat_bounds(1)[of off] by simp
  ultimately show ?thesis by (metis (no_types) image_eqI set_map)
qed

lemma fetch_unscanned_spec:
  assumes "prefix_wf s"
  shows "case fst (fetch_unscanned rr s rng) of
     None \<Rightarrow> remaining s = 0
   | Some off \<Rightarrow> off \<notin> scanned s \<and> remaining s \<noteq> 0"
proof (cases "remaining s = 0")
  case False
  then obtain o' where "is_unscanned s o'"
    using remaining_zero[OF assms] by (auto simp: scanned_def)
  then have "find (is_unscanned s) (map word_of_nat [0..<256]) \<noteq> None"
    using all_offsets[of o'] unfolding find_None_iff by blast
  then obtain p where f: "find (is_unscanned s) (map word_of_nat [0..<256]) = Some p" by blast
  then have "is_unscanned s p" unfolding find_Some_iff by blast
  then show ?thesis using False f
    by (auto simp: fetch_unscanned_def scanned_def dest: pick_random_unscanned split: prod.split option.split)
qed (simp add: fetch_unscanned_def)


lemma marks_spec:
  "prefix_wf s \<Longrightarrow> prefix_wf (foldl (\<lambda>s off. snd (mark_scanned s off)) s offs)
     \<and> scanned (foldl (\<lambda>s off. snd (mark_scanned s off)) s offs) = scanned s \<union> set offs"
proof (induction offs arbitrary: s)
  case (Cons off offs)
  have "length (bitmap s) = 32" using Cons(2) by (simp add: prefix_wf_def)
  then show ?case using Cons(1)[OF mark_scanned_wf[OF Cons(2)], of off] scanned_mark by auto
qed simp

text \<open>
  The bitmap of a prefix: after any sequence of marks, marking an offset reports whether it was marked before, the
  counter is 256 less the number of distinct marked offsets, and a search for a free offset returns an unmarked
  one, whatever the random generator does, and fails only when all 256 are marked.
\<close>
theorem prefix_bitmap:
  fixes offs :: "u8 list"
  defines "s \<equiv> foldl (\<lambda>s off. snd (mark_scanned s off)) prefix_state_new offs"
  shows "(fst (mark_scanned s off) \<longleftrightarrow> off \<in> set offs)
     \<and> unat (remaining s) = 256 - card (set offs)
     \<and> (case fst (fetch_unscanned random_range s rng) of
          None \<Rightarrow> set offs = UNIV
        | Some off \<Rightarrow> off \<notin> set offs)"
proof -
  have s: "prefix_wf s" "scanned s = set offs"
    using marks_spec[OF prefix_state_new_wf(1), of offs] prefix_state_new_wf(2) by (auto simp: s_def)
  show ?thesis
    using fetch_unscanned_spec[OF s(1), of random_range rng] remaining_zero[OF s(1)] s
    by (auto simp: mark_scanned_fst prefix_wf_def split: option.splits)
qed

end
