(* ===== verification/IpStrategy.thy ===== *)
theory IpStrategy
  imports Ranges LazyHeap Prefix
begin

text \<open>
  The address strategy, \<^verbatim>\<open>src/farsight/src/controller/strategy/ip/pmap.rs\<close>: it hands out the addresses to probe, either
  the next one of a random permutation of the scope (\<^verbatim>\<open>next\<close>) or a fresh one of the most promising /24 prefix
  (\<^verbatim>\<open>try_pick\<close>). The state is the code's: the compiled ranges, the heap of prefixes and the bitmaps of the
  prefixes touched so far. The operations are run one at a time, as the comment in the code asks.

  \<open>ip_inv\<close> ties the bitmaps, the heap, the position of the sweep and the list of addresses handed out together. The
  heap is used only through the interface \<open>priority_map\<close> (the facts \<open>lazy.*\<close>), the table of addresses only
  through \<open>address_table\<close> (the facts \<open>ctab.*\<close>). The permutation of \<^verbatim>\<open>perfect_rand\<close> is assumed to be one.
\<close>

section \<open>The adapter\<close>

text \<open>
  What the adapter takes from outside: the draws of the random generator, the two operations on floating-point
  scores and the permutation of \<^verbatim>\<open>PerfectRng\<close>.
\<close>

record ('g, 'v) ip_env =
  random_unit :: "'g \<Rightarrow> 'v \<times> 'g"
  random_256 :: "'g \<Rightarrow> u16 \<times> 'g"
  as_f64 :: "u64 \<Rightarrow> 'v"
  plus_one :: "'v \<Rightarrow> 'v"
  shuffle :: "u64 \<Rightarrow> u64"

record 'v ip_adapter =
  ip_ranges :: compiled_ranges
  graph :: prefix_graph
  ip_heap :: "('v, u32) lazy_heap"
  actives :: "u32 \<rightharpoonup> prefix_state"
  ip_epsilon :: 'v

definition ip_new :: "compiled_ranges \<Rightarrow> prefix_graph \<Rightarrow> 'v::linorder \<Rightarrow> 'v ip_adapter" where
  "ip_new rs gr eps = \<lparr>ip_ranges = rs, graph = gr, ip_heap = lh_default, actives = Map.empty, ip_epsilon = eps\<rparr>"

definition state_of :: "'v ip_adapter \<Rightarrow> u32 \<Rightarrow> prefix_state" where
  "state_of self prefix_id = (case actives self prefix_id of Some s \<Rightarrow> s | None \<Rightarrow> prefix_state_new)"

definition put_state :: "'v ip_adapter \<Rightarrow> u32 \<Rightarrow> prefix_state \<Rightarrow> 'v ip_adapter" where
  "put_state self prefix_id s = self\<lparr>actives := (actives self)(prefix_id \<mapsto> s)\<rparr>"

definition compose :: "u32 \<Rightarrow> u8 \<Rightarrow> ipv4" where
  "compose prefix_id off = push_bit 8 prefix_id OR ucast off"

function try_pick :: "('g, 'v::linorder) ip_env \<Rightarrow> 'v ip_adapter \<Rightarrow> 'g \<Rightarrow> ipv4 option \<times> 'v ip_adapter \<times> 'g" where
  "try_pick env self rng =
     (case lh_top (ip_heap self) of
        (None, h) \<Rightarrow> (None, self\<lparr>ip_heap := h\<rparr>, rng)
      | (Some prefix_id, h) \<Rightarrow>
          (let state = state_of self prefix_id;
               self1 = (put_state self prefix_id state)\<lparr>ip_heap := h\<rparr>
           in if remaining state = 0 then try_pick env (self1\<lparr>ip_heap := lh_pop h\<rparr>) rng
              else (case fetch_unscanned (random_256 env) state rng of
                      (Some off, rng') \<Rightarrow>
                        (let state' = snd (mark_scanned state off);
                             self2 = put_state self1 prefix_id state';
                             self3 = (if remaining state' = 0 then self2\<lparr>ip_heap := lh_pop h\<rparr> else self2)
                         in (Some (compose prefix_id off), self3, rng'))
                    | (None, rng') \<Rightarrow> try_pick env (self1\<lparr>ip_heap := lh_pop h\<rparr>) rng')))"
  by pat_completeness auto
termination
  by (relation "measure (\<lambda>(env, self, rng). size (current (ip_heap self)))") (auto simp: size_lh_pop[OF sym])

declare try_pick.simps [simp del]

lemma unat_diff_Suc_less: "(i :: u64) < c \<Longrightarrow> unat (c - (i + 1)) < unat (c - i)"
  by unat_arith

text \<open>\<^verbatim>\<open>next\<close>; the outer \<^const>\<open>None\<close> is the panic of an index out of the table.\<close>

function next_indexed :: "('g, 'v::linorder) ip_env \<Rightarrow> 'v ip_adapter \<Rightarrow> u64 \<Rightarrow> (ipv4 option \<times> 'v ip_adapter \<times> u64) option" where
  "next_indexed env self i =
     (if i \<ge> ranges.count (ip_ranges self) then Some (None, self, i)
      else (case index (ip_ranges self) (shuffle env i) of
              None \<Rightarrow> None
            | Some addr \<Rightarrow>
                (let prefix_id = drop_bit 8 addr;
                     off = ucast (addr AND 0xFF) :: u8;
                     (seen, state) = mark_scanned (state_of self prefix_id) off;
                     self1 = put_state self prefix_id state
                 in if seen then next_indexed env self1 (i + 1)
                    else (let self2 = (if remaining state > 0 \<and> lh_query (ip_heap self1) prefix_id = None
                                       then self1\<lparr>ip_heap := lh_update (ip_heap self1) prefix_id
                                              (as_f64 env (historical_score (graph self1) prefix_id))\<rparr>
                                       else self1)
                          in Some (Some addr, self2, i + 1)))))"
  by pat_completeness auto
termination
  by (relation "measure (\<lambda>(env, self, i). unat (ranges.count (ip_ranges self) - i))")
    (auto simp: put_state_def not_le unat_diff_Suc_less)

declare next_indexed.simps [simp del]

definition next_address :: "('g, 'v::linorder) ip_env \<Rightarrow> 'v ip_adapter \<Rightarrow> u64 \<Rightarrow> 'g
    \<Rightarrow> (ipv4 option \<times> 'v ip_adapter \<times> u64 \<times> 'g) option" where
  "next_address env self i rng =
     (let (x, rng1) = random_unit env rng;
          (picked, self1, rng2) = (if x \<ge> ip_epsilon self then try_pick env self rng1 else (None, self, rng1))
      in case picked of
           Some addr \<Rightarrow> Some (Some addr, self1, i, rng2)
         | None \<Rightarrow>
             (case next_indexed env self1 i of
                None \<Rightarrow> None
              | Some (Some addr, self2, i') \<Rightarrow> Some (Some addr, self2, i', rng2)
              | Some (None, self2, i') \<Rightarrow>
                  (let (r, self3, rng3) = try_pick env self2 rng2 in Some (r, self3, i', rng3))))"

definition on_result :: "('g, 'v::linorder) ip_env \<Rightarrow> 'v ip_adapter \<Rightarrow> ipv4 \<Rightarrow> 'v ip_adapter" where
  "on_result env self addr =
     (let prefix_id = drop_bit 8 addr;
          has_room = (case actives self prefix_id of Some s \<Rightarrow> remaining s > 0 | None \<Rightarrow> True)
      in if has_room
         then (let cur = (case lh_query (ip_heap self) prefix_id of
                            Some v \<Rightarrow> v
                          | None \<Rightarrow> as_f64 env (historical_score (graph self) prefix_id))
               in self\<lparr>ip_heap := lh_update (ip_heap self) prefix_id (plus_one env cur)\<rparr>)
         else self)"


section \<open>The invariant\<close>

abbreviation scope :: "'v ip_adapter \<Rightarrow> u32 set" where
  "scope self \<equiv> ranges_set (inner (ip_ranges self))"

abbreviation blocks :: "u32 set \<Rightarrow> u32 set" where
  "blocks S \<equiv> drop_bit 8 ` S"

definition scanned_addresses :: "'v ip_adapter \<Rightarrow> u32 set" where
  "scanned_addresses self = (\<Union>p. compose p ` scanned (state_of self p))"

definition ip_inv :: "('g, 'v::linorder) ip_env \<Rightarrow> 'v ip_adapter \<Rightarrow> u64 \<Rightarrow> ipv4 list \<Rightarrow> bool" where
  "ip_inv env self i ret \<longleftrightarrow>
     compiled (ip_ranges self) \<and> lh_inv (ip_heap self)
   \<and> (\<forall>p s. actives self p = Some s \<longrightarrow> prefix_wf s \<and> p \<in> blocks (scope self))
   \<and> dom (hvalues (ip_heap self)) \<subseteq> blocks (scope self)
   \<and> (\<forall>p s. actives self p = Some s \<and> remaining s \<noteq> 0 \<longrightarrow> p \<in> dom (hvalues (ip_heap self)))
   \<and> set ret = scanned_addresses self \<and> distinct ret
   \<and> i \<le> ranges.count (ip_ranges self)
   \<and> (\<forall>j < i. the (index (ip_ranges self) (shuffle env j)) \<in> set ret)"

lemma compose_prefix: "drop_bit 8 (compose (drop_bit 8 a) off) = drop_bit 8 a"
  by (intro bit_word_eqI) (auto simp: compose_def bit_simps dest: bit_imp_le_length)

lemma compose_offset: "ucast (compose p off AND 0xFF) = off"
proof -
  have m: "(0xFF :: u32) = mask 8" by (simp add: mask_eq_exp_minus_1)
  show ?thesis unfolding m by (intro bit_word_eqI) (auto simp: compose_def bit_simps)
qed

lemma compose_split: "compose (drop_bit 8 a) (ucast (a AND 0xFF)) = a"
proof -
  have m: "(0xFF :: u32) = mask 8" by (simp add: mask_eq_exp_minus_1)
  show ?thesis unfolding m compose_def
  proof (intro bit_word_eqI)
    fix n assume "n < LENGTH(32)"
    then show "bit (push_bit 8 (drop_bit 8 a) OR ucast (ucast (a AND mask 8) :: u8)) n = bit a n"
      by (cases "n < 8") (auto simp: bit_simps)
  qed
qed

lemma compose_inj:
  assumes "p \<in> blocks S" "q \<in> blocks S" "compose p a = compose q b"
  shows "p = q \<and> a = b"
proof -
  have "drop_bit 8 (compose p a) = p" "drop_bit 8 (compose q b) = q"
    using assms(1,2) compose_prefix by auto
  then show ?thesis using assms(3) compose_offset[of p a] compose_offset[of q b] by metis
qed

lemma put_state_fields [simp]:
  "ip_ranges (put_state self p s) = ip_ranges self" "graph (put_state self p s) = graph self"
  "ip_heap (put_state self p s) = ip_heap self"
  by (simp_all add: put_state_def)

lemma put_state_same_heap [simp]: "(put_state self p s)\<lparr>ip_heap := ip_heap self\<rparr> = put_state self p s"
  by (cases self) (simp add: put_state_def)

lemma state_of_put [simp]: "state_of (put_state self p s) q = (if q = p then s else state_of self q)"
  by (simp add: state_of_def put_state_def)

lemma state_of_heap [simp]: "state_of (self\<lparr>ip_heap := h\<rparr>) q = state_of self q"
  by (simp add: state_of_def)

lemma scanned_heap [simp]: "scanned_addresses (self\<lparr>ip_heap := h\<rparr>) = scanned_addresses self"
  by (simp add: scanned_addresses_def)

lemma scanned_split: "scanned_addresses self
    = compose p ` scanned (state_of self p) \<union> (\<Union>q\<in>-{p}. compose q ` scanned (state_of self q))"
  unfolding scanned_addresses_def by blast

lemma scanned_put_eq: "scanned_addresses (put_state self p s')
    = compose p ` scanned s' \<union> (\<Union>q\<in>-{p}. compose q ` scanned (state_of self q))"
  by (subst scanned_split[of _ p]) simp

lemma scanned_put:
  assumes "scanned s' = insert off (scanned (state_of self p))"
  shows "scanned_addresses (put_state self p s') = insert (compose p off) (scanned_addresses self)"
  using assms scanned_split[of self p] by (simp add: scanned_put_eq)

lemma in_scanned:
  assumes "\<forall>q s. actives self q = Some s \<longrightarrow> q \<in> blocks S" "p \<in> blocks S"
  shows "compose p off \<in> scanned_addresses self \<longleftrightarrow> off \<in> scanned (state_of self p)"
proof
  assume "compose p off \<in> scanned_addresses self"
  then obtain q x where q: "compose p off = compose q x" "x \<in> scanned (state_of self q)"
    unfolding scanned_addresses_def by blast
  then have "q \<in> blocks S"
    using assms(1) prefix_state_new_wf(2) by (cases "actives self q") (auto simp: state_of_def)
  then show "off \<in> scanned (state_of self p)" using compose_inj[OF assms(2) _ q(1)] q(2) by simp
qed (auto simp: scanned_addresses_def)

lemma ip_inv_state:
  assumes "ip_inv env self i ret"
  shows "prefix_wf (state_of self p)"
  using assms prefix_state_new_wf(1) by (auto simp: ip_inv_def state_of_def split: option.splits)

lemma ip_inv_heap:
  assumes "ip_inv env self i ret" and "lh_inv h" and "hvalues h = hvalues (ip_heap self)"
  shows "ip_inv env (self\<lparr>ip_heap := h\<rparr>) i ret"
  using assms by (auto simp: ip_inv_def)

lemma ip_inv_open:
  assumes "ip_inv env self i ret" and "p \<in> dom (hvalues (ip_heap self))"
  shows "ip_inv env (put_state self p (state_of self p)) i ret"
proof -
  have "scanned_addresses (put_state self p (state_of self p)) = scanned_addresses self"
    using scanned_split[of self p] by (simp add: scanned_put_eq)
  then show ?thesis using assms ip_inv_state[OF assms(1), of p]
    by (auto simp: ip_inv_def put_state_def)
qed

lemma ip_inv_close:
  assumes inv: "ip_inv env self i ret" and top: "fst (lh_top (ip_heap self)) = Some p"
    and "remaining (state_of self p) = 0" "p \<in> dom (actives self)"
  shows "ip_inv env (self\<lparr>ip_heap := lh_pop (ip_heap self)\<rparr>) i ret"
proof -
  have h: "lh_inv (ip_heap self)" using inv by (simp add: ip_inv_def)
  then have v: "hvalues (lh_pop (ip_heap self)) = (hvalues (ip_heap self))(p := None)"
    using lazy.abs_pop[OF h] top by simp
  show ?thesis unfolding ip_inv_def
  proof (intro conjI allI impI, goal_cases)
    case (6 q s)
    then show ?case using inv assms(3,4) v by (auto simp: ip_inv_def state_of_def)
  qed (use inv h v lazy.inv_pop in \<open>auto simp: ip_inv_def\<close>)
qed


lemma ip_inv_mark:
  assumes inv: "ip_inv env self i ret" and p: "p \<in> blocks (scope self)"
    and fresh: "off \<notin> scanned (state_of self p)"
  defines "s' \<equiv> snd (mark_scanned (state_of self p) off)"
  assumes h: "lh_inv h" "dom (hvalues h) \<subseteq> blocks (scope self)" "dom (hvalues (ip_heap self)) - {p} \<subseteq> dom (hvalues h)"
    and room: "remaining s' \<noteq> 0 \<longrightarrow> p \<in> dom (hvalues h)"
  shows "ip_inv env ((put_state self p s')\<lparr>ip_heap := h\<rparr>) i (ret @ [compose p off])"
proof -
  have wf: "prefix_wf (state_of self p)" using ip_inv_state[OF inv] .
  then have s': "scanned s' = insert off (scanned (state_of self p))" "prefix_wf s'"
    unfolding s'_def by (auto simp: scanned_mark mark_scanned_wf prefix_wf_def[of "state_of self p"])
  have b: "\<forall>q s. actives self q = Some s \<longrightarrow> q \<in> blocks (scope self)" using inv by (simp add: ip_inv_def)
  have keep: "\<And>q s. actives self q = Some s \<Longrightarrow> remaining s \<noteq> 0 \<Longrightarrow> q \<in> dom (hvalues (ip_heap self))"
    using inv unfolding ip_inv_def by blast
  have "compose p off \<notin> set ret" using in_scanned[OF b p] fresh inv by (simp add: ip_inv_def)
  moreover have "set (ret @ [compose p off]) = scanned_addresses (put_state self p s')"
    using scanned_put[OF s'(1)] inv by (simp add: ip_inv_def)
  ultimately show ?thesis unfolding ip_inv_def
  proof (intro conjI allI impI, goal_cases)
    case (6 q s)
    then show ?case using keep[of q s] h(3) room by (cases "q = p") (auto simp: put_state_def)
  qed (use inv h s' p in \<open>auto simp: ip_inv_def put_state_def split: if_splits\<close>)
qed

lemma ip_inv_hand_out:
  assumes inv: "ip_inv env self i ret" and p: "p \<in> dom (hvalues (ip_heap self))"
    and fresh: "off \<notin> scanned (state_of self p)"
    and h: "lh_inv h" "hvalues h = hvalues (ip_heap self)" and top: "fst (lh_top h) = Some p"
  defines "s' \<equiv> snd (mark_scanned (state_of self p) off)"
  defines "h' \<equiv> (if remaining s' = 0 then lh_pop h else h)"
  shows "ip_inv env ((put_state self p s')\<lparr>ip_heap := h'\<rparr>) i (ret @ [compose p off])"
proof -
  have pop: "hvalues (lh_pop h) = (hvalues h)(p := None)"
    using lazy.abs_pop[OF h(1)] top by simp
  have B: "dom (hvalues (ip_heap self)) \<subseteq> blocks (scope self)" using inv by (simp add: ip_inv_def)
  show ?thesis unfolding s'_def
  proof (rule ip_inv_mark[OF inv _ fresh])
    show "p \<in> blocks (scope self)" using p B by blast
    show "lh_inv h'" using h(1) lazy.inv_pop[OF h(1)] by (simp add: h'_def)
    show "dom (hvalues h') \<subseteq> blocks (scope self)" using B h(2) pop by (auto simp: h'_def)
    show "dom (hvalues (ip_heap self)) - {p} \<subseteq> dom (hvalues h')" using h(2) pop by (auto simp: h'_def)
    show "remaining (snd (mark_scanned (state_of self p) off)) \<noteq> 0 \<longrightarrow> p \<in> dom (hvalues h')"
      using p h(2) by (simp add: h'_def s'_def)
  qed
qed

lemma try_pick_inv:
  assumes "ip_inv env self i ret" "try_pick env self rng = (r, self', rng')"
  shows "(case r of None \<Rightarrow> ip_inv env self' i ret \<and> hvalues (ip_heap self') = Map.empty
                  | Some a \<Rightarrow> ip_inv env self' i (ret @ [a]))
     \<and> ip_ranges self' = ip_ranges self"
  using assms
proof (induction env self rng rule: try_pick.induct)
  case (1 env self rng)
  obtain k h where t: "lh_top (ip_heap self) = (k, h)" by (cases "lh_top (ip_heap self)")
  have inv: "lh_inv (ip_heap self)" using 1(3) by (simp add: ip_inv_def)
  have h: "lh_inv h" "hvalues h = hvalues (ip_heap self)"
    using lazy.inv_top[OF inv] lazy.abs_top[OF inv] t by auto
  show ?case
  proof (cases k)
    case None
    then have "hvalues h = Map.empty" using lazy.top_None[OF inv] t h by simp
    then show ?thesis using 1(3,4) t None h by (auto simp: try_pick.simps[of env self] ip_inv_heap)
  next
    case (Some p)
    let ?s = "state_of self p"
    let ?self1 = "(put_state self p ?s)\<lparr>ip_heap := h\<rparr>"
    have p: "p \<in> dom (hvalues (ip_heap self))" using lazy.top_in_dom[OF inv] t Some by simp
    have inv1: "ip_inv env ?self1 i ret"
      using ip_inv_heap[OF ip_inv_open[OF 1(3) p] h(1)] h(2) by (simp add: put_state_def)
    have top1: "fst (lh_top (ip_heap ?self1)) = Some p"
      using t Some by (auto simp: lh_top_def Let_def)
    have sp: "state_of ?self1 p = ?s" "p \<in> dom (actives ?self1)" by (simp, simp add: put_state_def)
    show ?thesis
    proof (cases "remaining ?s = 0")
      case True
      have "ip_inv env (?self1\<lparr>ip_heap := lh_pop h\<rparr>) i ret"
        using ip_inv_close[OF inv1 top1 _ sp(2)] True sp(1) by simp
      from 1(1)[OF t[symmetric] Some refl refl True this] 1(4) t Some True show ?thesis
        by (simp add: try_pick.simps[of env self] put_state_def)
    next
      case False
      have wf: "prefix_wf ?s" using ip_inv_state[OF 1(3)] .
      obtain off rng1 where f: "fetch_unscanned (random_256 env) ?s rng = (Some off, rng1)"
        and fresh: "off \<notin> scanned ?s"
        using fetch_unscanned_spec[OF wf, of "random_256 env" rng] False
        by (cases "fetch_unscanned (random_256 env) ?s rng") (auto split: option.splits)
      define s' where "s' = snd (mark_scanned ?s off)"
      define h' where "h' = (if remaining s' = 0 then lh_pop h else h)"
      have "ip_inv env ((put_state self p s')\<lparr>ip_heap := h'\<rparr>) i (ret @ [compose p off])"
        using ip_inv_hand_out[OF 1(3) p fresh h] top1 unfolding h'_def s'_def by simp
      moreover have "r = Some (compose p off)" "self' = (put_state self p s')\<lparr>ip_heap := h'\<rparr>"
        using 1(4) t Some False f
        by (auto simp: try_pick.simps[of env self] Let_def put_state_def h'_def s'_def split: if_splits)
      ultimately show ?thesis by (simp add: put_state_def)
    qed
  qed
qed


definition permutes_below :: "('g, 'v) ip_env \<Rightarrow> u64 \<Rightarrow> bool" where
  "permutes_below env n \<longleftrightarrow> bij_betw (shuffle env) {i. i < n} {i. i < n}"

lemma indexed_address:
  assumes "compiled c" "permutes_below env (ranges.count c)" "i < ranges.count c"
  shows "\<exists>a. index c (shuffle env i) = Some a \<and> a \<in> ranges_set (inner c)"
proof -
  have "shuffle env i < ranges.count c"
    using assms(2,3) unfolding permutes_below_def bij_betw_def by blast
  then show ?thesis using ctab.at_Some[OF assms(1)] by blast
qed

lemma less_Suc_word: "(i :: u64) < n \<Longrightarrow> j < i + 1 \<longleftrightarrow> j = i \<or> j < i"
  by unat_arith

lemma ip_inv_advance:
  assumes "ip_inv env self i ret" "i < ranges.count (ip_ranges self)"
    and "the (index (ip_ranges self) (shuffle env i)) \<in> set ret"
  shows "ip_inv env self (i + 1) ret"
proof -
  have "i + 1 \<le> ranges.count (ip_ranges self)" using assms(2) by unat_arith
  then show ?thesis using assms less_Suc_word[OF assms(2)] unfolding ip_inv_def by auto
qed

lemma mark_seen: "fst (mark_scanned s off) \<Longrightarrow> snd (mark_scanned s off) = s"
  by (auto simp: mark_scanned_def Let_def split: if_splits)

lemma ip_inv_seen:
  assumes inv: "ip_inv env self i ret" and i: "i < ranges.count (ip_ranges self)"
    and a: "index (ip_ranges self) (shuffle env i) = Some a" "a \<in> scope self"
    and seen: "ucast (a AND 0xFF) \<in> scanned (state_of self (drop_bit 8 a))"
  shows "ip_inv env (put_state self (drop_bit 8 a) (state_of self (drop_bit 8 a))) (i + 1) ret"
proof -
  have "actives self (drop_bit 8 a) \<noteq> None"
    using seen prefix_state_new_wf(2) by (cases "actives self (drop_bit 8 a)") (auto simp: state_of_def)
  then have same: "put_state self (drop_bit 8 a) (state_of self (drop_bit 8 a)) = self"
    by (cases self) (auto simp: put_state_def state_of_def map_upd_triv)
  have b: "\<forall>q s. actives self q = Some s \<longrightarrow> q \<in> blocks (scope self)" using inv by (simp add: ip_inv_def)
  have "a \<in> set ret"
    using in_scanned[OF b, of "drop_bit 8 a" "ucast (a AND 0xFF)"] a(2) seen inv
    by (simp add: compose_split ip_inv_def)
  then show ?thesis using ip_inv_advance[OF inv i] a(1) same by simp
qed

lemma ip_inv_fresh:
  fixes v :: "'v::linorder"
  assumes inv: "ip_inv env self i ret" and i: "i < ranges.count (ip_ranges self)"
    and a: "index (ip_ranges self) (shuffle env i) = Some a" "a \<in> scope self"
  defines "p \<equiv> drop_bit 8 a" and "off \<equiv> ucast (a AND 0xFF) :: u8"
  assumes fresh: "off \<notin> scanned (state_of self p)"
  defines "s' \<equiv> snd (mark_scanned (state_of self p) off)"
  assumes h': "h' = (if remaining s' > 0 \<and> lh_query (ip_heap self) p = None
      then lh_update (ip_heap self) p v else ip_heap self)"
  shows "ip_inv env ((put_state self p s')\<lparr>ip_heap := h'\<rparr>) (i + 1) (ret @ [a])"
proof -
  have p: "p \<in> blocks (scope self)" using a(2) by (simp add: p_def)
  have h: "lh_inv (ip_heap self)" "dom (hvalues (ip_heap self)) \<subseteq> blocks (scope self)"
    using inv by (auto simp: ip_inv_def)
  have "ip_inv env ((put_state self p s')\<lparr>ip_heap := h'\<rparr>) i (ret @ [compose p off])"
    unfolding s'_def
  proof (rule ip_inv_mark[OF inv p fresh])
    show "lh_inv h'" using h(1) lazy.inv_upd[OF h(1)] by (simp add: h')
    show "dom (hvalues h') \<subseteq> blocks (scope self)" "dom (hvalues (ip_heap self)) - {p} \<subseteq> dom (hvalues h')"
      using h p lazy.abs_upd[OF h(1)] by (auto simp: h' split: if_splits)
    show "remaining (snd (mark_scanned (state_of self p) off)) \<noteq> 0 \<longrightarrow> p \<in> dom (hvalues h')"
      using lazy.abs_upd[OF h(1)]
      by (auto simp: h' s'_def[symmetric] lh_query_def word_gt_0)
  qed
  then show ?thesis
    using ip_inv_advance[of env "(put_state self p s')\<lparr>ip_heap := h'\<rparr>" i "ret @ [a]"] i a(1)
    by (simp add: p_def off_def compose_split)
qed

lemma next_indexed_inv:
  assumes "ip_inv env self i ret" "permutes_below env (ranges.count (ip_ranges self))"
  shows "case next_indexed env self i of
       None \<Rightarrow> False
     | Some (None, self', i') \<Rightarrow> ip_inv env self' i' ret \<and> i' = ranges.count (ip_ranges self) \<and> ip_ranges self' = ip_ranges self
     | Some (Some a, self', i') \<Rightarrow> ip_inv env self' i' (ret @ [a]) \<and> ip_ranges self' = ip_ranges self"
  using assms
proof (induction env self i rule: next_indexed.induct)
  case (1 env self i)
  show ?case
  proof (cases "i \<ge> ranges.count (ip_ranges self)")
    case True
    moreover from this have "i = ranges.count (ip_ranges self)" using 1(2) by (simp add: ip_inv_def)
    ultimately show ?thesis using 1(2) by (simp add: next_indexed.simps)
  next
    case False
    then have i: "i < ranges.count (ip_ranges self)" by simp
    have c: "compiled (ip_ranges self)" using 1(2) by (simp add: ip_inv_def)
    obtain a where a: "index (ip_ranges self) (shuffle env i) = Some a" "a \<in> scope self"
      using indexed_address[OF c 1(3) i] by blast
    let ?p = "drop_bit 8 a" and ?off = "ucast (a AND 0xFF) :: u8"
    obtain seen s' where m: "mark_scanned (state_of self ?p) ?off = (seen, s')"
      by (cases "mark_scanned (state_of self ?p) ?off")
    show ?thesis
    proof (cases seen)
      case True
      have s': "s' = state_of self ?p" "?off \<in> scanned (state_of self ?p)"
        using m True mark_seen[of "state_of self ?p" ?off] mark_scanned_fst[of "state_of self ?p" ?off] by auto
      have "ip_inv env (put_state self ?p s') (i + 1) ret"
        using ip_inv_seen[OF 1(2) i a s'(2)] s'(1) by simp
      then show ?thesis
        using 1(1)[OF False a(1) refl refl m[symmetric] refl refl True, unfolded put_state_fields] 1(3) False a(1) m True
        by (simp add: next_indexed.simps[of env self i])
    next
      case False
      have fresh: "?off \<notin> scanned (state_of self ?p)" and s': "s' = snd (mark_scanned (state_of self ?p) ?off)"
        using m False mark_scanned_fst[of "state_of self ?p" ?off] by auto
      show ?thesis
        using ip_inv_fresh[OF 1(2) i a fresh refl, folded s',
            where v = "as_f64 env (historical_score (graph self) ?p)"] i a(1) m False
        by (auto simp: next_indexed.simps[of env self i] Let_def split: if_splits)
    qed
  qed
qed


lemma next_address_inv:
  assumes inv: "ip_inv env self i ret" and sh: "permutes_below env (ranges.count (ip_ranges self))"
  shows "case next_address env self i rng of
       None \<Rightarrow> False
     | Some (None, self', i', rng') \<Rightarrow> ip_inv env self' i' ret \<and> i' = ranges.count (ip_ranges self')
         \<and> hvalues (ip_heap self') = Map.empty \<and> ip_ranges self' = ip_ranges self
     | Some (Some a, self', i', rng') \<Rightarrow> ip_inv env self' i' (ret @ [a]) \<and> ip_ranges self' = ip_ranges self"
proof -
  obtain x rng1 where x: "random_unit env rng = (x, rng1)" by (cases "random_unit env rng")
  obtain picked self1 rng2 where p: "(if x \<ge> ip_epsilon self then try_pick env self rng1 else (None, self, rng1)) = (picked, self1, rng2)"
    by (metis prod_cases3)
  show ?thesis
  proof (cases picked)
    case (Some a)
    then have "try_pick env self rng1 = (Some a, self1, rng2)" using p by (auto split: if_splits)
    from try_pick_inv[OF inv this] show ?thesis using x p Some by (simp add: next_address_def)
  next
    case None
    have i1: "ip_inv env self1 i ret" "ip_ranges self1 = ip_ranges self"
      using try_pick_inv[OF inv, of rng1 None self1 rng2] p None inv by (auto split: if_splits)
    obtain r self2 i' where n: "next_indexed env self1 i = Some (r, self2, i')"
      using next_indexed_inv[OF i1(1)] sh i1(2) by (cases "next_indexed env self1 i") auto
    show ?thesis
    proof (cases r)
      case (Some a)
      then show ?thesis
        using next_indexed_inv[OF i1(1)] sh i1(2) n x p None by (simp add: next_address_def)
    next
      case r: None
      then have i2: "ip_inv env self2 i' ret" "ip_ranges self2 = ip_ranges self" "i' = ranges.count (ip_ranges self)"
        using next_indexed_inv[OF i1(1)] sh i1(2) n by auto
      obtain r3 self3 rng3 where t: "try_pick env self2 rng2 = (r3, self3, rng3)" by (metis prod_cases3)
      from try_pick_inv[OF i2(1) t] i2 x p None n r t show ?thesis
        by (cases r3) (simp_all add: next_address_def)
    qed
  qed
qed

lemma on_result_inv:
  assumes inv: "ip_inv env self i ret" and a: "a \<in> set ret"
  shows "ip_inv env (on_result env self a) i ret \<and> ip_ranges (on_result env self a) = ip_ranges self"
proof -
  let ?p = "drop_bit 8 a"
  have h: "lh_inv (ip_heap self)" using inv by (simp add: ip_inv_def)
  have b: "\<forall>q s. actives self q = Some s \<longrightarrow> q \<in> blocks (scope self)" using inv by (simp add: ip_inv_def)
  obtain q off where q: "a = compose q off" "off \<in> scanned (state_of self q)"
    using a inv by (auto simp: ip_inv_def scanned_addresses_def)
  then have "q \<in> blocks (scope self)"
    using b prefix_state_new_wf(2) by (cases "actives self q") (auto simp: state_of_def)
  then have "?p \<in> blocks (scope self)" using q(1) compose_prefix by auto
  then have "ip_inv env (self\<lparr>ip_heap := lh_update (ip_heap self) ?p v\<rparr>) i ret" for v
    using inv lazy.inv_upd[OF h] lazy.abs_upd[OF h] by (auto simp: ip_inv_def)
  then show ?thesis using inv by (simp add: on_result_def Let_def)
qed

section \<open>Runs\<close>

text \<open>
  A run of the adapter: requests for an address and reports about addresses handed out, in any order. \<open>ret\<close> holds the
  addresses handed out so far; the state of the generator is arbitrary at every request.
\<close>

inductive ip_run :: "('g, 'v::linorder) ip_env \<Rightarrow> compiled_ranges \<Rightarrow> 'v ip_adapter \<Rightarrow> u64 \<Rightarrow> ipv4 list \<Rightarrow> bool"
  for env c where
  ir_start: "ip_run env c (ip_new c gr eps) 0 []"
| ir_some: "ip_run env c self i ret \<Longrightarrow> next_address env self i rng = Some (Some a, self', i', rng')
    \<Longrightarrow> ip_run env c self' i' (ret @ [a])"
| ir_none: "ip_run env c self i ret \<Longrightarrow> next_address env self i rng = Some (None, self', i', rng')
    \<Longrightarrow> ip_run env c self' i' ret"
| ir_result: "ip_run env c self i ret \<Longrightarrow> a \<in> set ret \<Longrightarrow> ip_run env c (on_result env self a) i ret"

lemma ip_run_inv:
  assumes "ip_run env c self i ret" "compiled c" "permutes_below env (ranges.count c)"
  shows "ip_inv env self i ret \<and> ip_ranges self = c"
  using assms
proof (induction rule: ip_run.induct)
  case (ir_start gr eps)
  then show ?case using prefix_state_new_wf(2)
    by (auto simp: ip_inv_def ip_new_def scanned_addresses_def state_of_def lh_default_def lh_inv_def)
next
  case (ir_some self i ret rng a self' i' rng')
  then show ?case using next_address_inv[of env self i ret rng] by simp
next
  case (ir_none self i ret rng self' i' rng')
  then show ?case using next_address_inv[of env self i ret rng] by auto
next
  case (ir_result self i ret a)
  then show ?case using on_result_inv[of env self i ret a] by simp
qed


section \<open>Properties\<close>

lemma ip_in_blocks:
  assumes inv: "ip_inv env self i ret" and a: "a \<in> set ret"
  shows "drop_bit 8 a \<in> blocks (scope self)"
proof -
  obtain q off where q: "a = compose q off" "off \<in> scanned (state_of self q)"
    using a inv by (auto simp: ip_inv_def scanned_addresses_def)
  then have "q \<in> blocks (scope self)"
    using inv prefix_state_new_wf(2) by (cases "actives self q") (auto simp: state_of_def ip_inv_def)
  then show ?thesis using q(1) compose_prefix by auto
qed

text \<open>
  C12. No address is probed twice: in every run of the address strategy, whatever the random generator and whichever
  results are reported, the addresses handed out are pairwise distinct, and each lies in a /24 prefix that holds
  an address in scope. A request never panics.
\<close>
theorem ip_no_repeats:
  assumes "ip_run env c self i ret" "compiled c" "permutes_below env (ranges.count c)"
  shows "distinct ret \<and> (\<forall>a \<in> set ret. drop_bit 8 a \<in> blocks (ranges_set (inner c)))
     \<and> next_address env self i rng \<noteq> None"
proof -
  note inv = ip_run_inv[OF assms]
  have "\<forall>a \<in> set ret. drop_bit 8 a \<in> blocks (ranges_set (inner c))"
    using inv ip_in_blocks by blast
  moreover have "next_address env self i rng \<noteq> None"
    using next_address_inv[of env self i ret rng] inv assms(3) by (cases "next_address env self i rng") auto
  ultimately show ?thesis using inv by (auto simp: ip_inv_def)
qed

lemma ip_exhausted:
  assumes "ip_run env c self i ret" "compiled c" "permutes_below env (ranges.count c)"
    and none: "next_address env self i rng = Some (None, self', i', rng')"
  shows "{a. drop_bit 8 a \<in> blocks (ranges_set (inner c))} \<subseteq> set ret"
proof
  fix a assume "a \<in> {a. drop_bit 8 a \<in> blocks (ranges_set (inner c))}"
  then obtain b where b: "b \<in> ranges_set (inner c)" "drop_bit 8 a = drop_bit 8 b" by auto
  have c: "ip_ranges self = c" and inv: "ip_inv env self' i' ret" and i': "i' = ranges.count c"
    and c': "ip_ranges self' = c" and empty: "hvalues (ip_heap self') = Map.empty"
    using next_address_inv[of env self i ret rng] ip_run_inv[OF assms(1-3)] none assms(3) by auto
  let ?f = "\<lambda>j. the (index c (shuffle env j))"
  have "bij_betw ?f {j. j < ranges.count c} (ranges_set (inner c))"
    using ctab.sweep_bij[OF assms(2)] assms(3) by (simp add: permutes_below_def)
  then obtain j where "j < ranges.count c" "b = ?f j" using b(1) unfolding bij_betw_def by blast
  then have "b \<in> set ret" using inv i' c' by (auto simp: ip_inv_def)
  then have "compose (drop_bit 8 b) (ucast (b AND 0xFF)) \<in> scanned_addresses self'"
    using inv by (simp add: compose_split ip_inv_def)
  moreover have bl: "\<forall>q s. actives self' q = Some s \<longrightarrow> q \<in> blocks (scope self')" using inv by (simp add: ip_inv_def)
  moreover have pb: "drop_bit 8 b \<in> blocks (scope self')" using b(1) c' by simp
  ultimately have "ucast (b AND 0xFF) \<in> scanned (state_of self' (drop_bit 8 b))" using in_scanned by blast
  then obtain s where s: "actives self' (drop_bit 8 b) = Some s"
    using prefix_state_new_wf(2) by (cases "actives self' (drop_bit 8 b)") (auto simp: state_of_def)
  then have "remaining s = 0" using inv empty by (auto simp: ip_inv_def)
  then have "scanned (state_of self' (drop_bit 8 b)) = UNIV"
    using inv s remaining_zero[of s] by (auto simp: ip_inv_def state_of_def)
  then have "compose (drop_bit 8 a) (ucast (a AND 0xFF)) \<in> scanned_addresses self'"
    using in_scanned[OF bl pb] b(2) by auto
  then show "a \<in> set ret" using inv by (simp add: compose_split ip_inv_def)
qed


text \<open>
  C13. Coverage: when the strategy reports that nothing is left, every address in scope has been handed out exactly once.
  It has handed out more than that: exactly the addresses of the /24 prefixes that meet the scope, so also those of
  such a prefix that are out of scope, for instance because the exclude list removed them.
\<close>
theorem ip_covers_prefixes:
  assumes "ip_run env c self i ret" "compiled c" "permutes_below env (ranges.count c)"
    and "next_address env self i rng = Some (None, self', i', rng')"
  shows "distinct ret \<and> ranges_set (inner c) \<subseteq> set ret
     \<and> set ret = {a. drop_bit 8 a \<in> blocks (ranges_set (inner c))}"
proof -
  have "set ret = {a. drop_bit 8 a \<in> blocks (ranges_set (inner c))}"
    using ip_exhausted[OF assms] ip_run_inv[OF assms(1-3)] ip_in_blocks[of env self i ret] by auto
  then show ?thesis using ip_run_inv[OF assms(1-3)] by (auto simp: ip_inv_def)
qed

lemma ip_run_finishes:
  assumes "ip_run env c self i ret" "compiled c" "permutes_below env (ranges.count c)"
  shows "\<exists>self1 i1 ret1 self2 i2 rng2. ip_run env c self1 i1 ret1
     \<and> next_address env self1 i1 rng = Some (None, self2, i2, rng2)"
  using assms(1)
proof (induction "2 ^ 32 - length ret" arbitrary: self i ret rule: less_induct)
  case less
  note inv = ip_run_inv[OF less(2) assms(2,3)]
  show ?case
  proof (cases "next_address env self i rng")
    case None
    then show ?thesis using next_address_inv[of env self i ret rng] inv assms(3) by simp
  next
    case (Some x)
    then obtain r self' i' rng' where x: "next_address env self i rng = Some (r, self', i', rng')"
      by (metis prod_cases4)
    show ?thesis
    proof (cases r)
      case None
      then show ?thesis using x less(2) by blast
    next
      case (Some a)
      then have run: "ip_run env c self' i' (ret @ [a])" using ir_some[OF less(2)] x by blast
      have "distinct (ret @ [a])" using ip_run_inv[OF run assms(2,3)] by (simp add: ip_inv_def)
      then have "length (ret @ [a]) \<le> 2 ^ 32"
        using card_mono[of "UNIV :: u32 set" "set (ret @ [a])"] distinct_card[of "ret @ [a]"] by (simp add: card_word)
      then show ?thesis using less(1)[OF _ run] by simp
    qed
  qed
qed


section \<open>A concrete scan\<close>

text \<open>A scope of one address, 10.0.0.7, with the identity as permutation and a constant generator.\<close>

definition demo_env :: "(unit, nat) ip_env" where
  "demo_env = \<lparr>random_unit = (\<lambda>g. (1, g)), random_256 = (\<lambda>g. (3, g)), as_f64 = unat, plus_one = Suc, shuffle = (\<lambda>i. i)\<rparr>"

definition demo_scope :: compiled_ranges where
  "demo_scope = compile (from_range \<lparr>r_start = 0x0A000007, r_last = 0x0A000007\<rparr>)"

lemma demo_scope_facts: "compiled demo_scope" "permutes_below demo_env n" "ranges_set (inner demo_scope) = {0x0A000007}"
proof -
  have "ascending (inner (from_range \<lparr>r_start = 0x0A000007, r_last = (0x0A000007 :: ipv4)\<rparr>))"
    by (simp add: ascending_def from_range_def)
  then show "compiled demo_scope" unfolding compiled_def demo_scope_def by blast
  show "permutes_below demo_env n" by (simp add: permutes_below_def demo_env_def bij_betw_def inj_on_def)
  show "ranges_set (inner demo_scope) = {0x0A000007}"
    by (simp add: demo_scope_def ranges_set_compile) (simp add: from_range_def range_set_def)
qed

definition demo_graph :: prefix_graph where "demo_graph = prefix_from_counts Map.empty"

lemma demo_start: "ip_run demo_env demo_scope (ip_new demo_scope demo_graph 0) 0 []"
  by (rule ir_start)


lemma demo_first: "\<exists>self i. ip_run demo_env demo_scope self i [0x0A000007]"
proof -
  let ?s = "ip_new demo_scope demo_graph (0 :: nat)"
  have t: "try_pick demo_env ?s () = (None, ?s, ())"
    by (subst try_pick.simps)
      (simp add: ip_new_def lh_top_def lh_default_def lh_clean.simps)
  have c: "ranges.count demo_scope = 1" "index demo_scope 0 = Some 0x0A000007"
    by (simp_all add: demo_scope_def compile_def from_range_def index_def index_loop.simps)
  have m: "\<not> fst (mark_scanned (state_of ?s (drop_bit 8 0x0A000007)) (ucast (0x0A000007 AND 0xFF :: u32)))"
    unfolding mark_scanned_fst by (simp add: state_of_def ip_new_def prefix_state_new_wf)
  have "\<exists>self i. next_indexed demo_env ?s 0 = Some (Some 0x0A000007, self, i)"
    using m c by (subst next_indexed.simps)
      (auto simp: ip_new_def demo_env_def Let_def split: prod.split)
  then have "\<exists>self i. next_address demo_env ?s 0 () = Some (Some 0x0A000007, self, i, ())"
    using t by (auto simp: next_address_def Let_def) (auto simp: demo_env_def ip_new_def)
  then show ?thesis using ir_some[OF demo_start] by fastforce
qed

theorem ip_no_repeats_witness:
  "\<exists>self i. ip_run demo_env demo_scope self i [0x0A000007] \<and> next_address demo_env self i () \<noteq> None"
proof -
  obtain self i where "ip_run demo_env demo_scope self i [0x0A000007]" using demo_first by blast
  then show ?thesis using ip_no_repeats[OF _ demo_scope_facts(1,2)] by blast
qed

theorem ip_covers_prefixes_witness:
  "\<exists>self i ret. ip_run demo_env demo_scope self i ret \<and> ranges_set (inner demo_scope) = {0x0A000007}
     \<and> set ret = {a. drop_bit 8 a = 0x0A0000} \<and> 0x0A000008 \<in> set ret"
proof -
  obtain self i ret self' i' where r: "ip_run demo_env demo_scope self i ret"
    "next_address demo_env self i () = Some (None, self', i', ())"
    using ip_run_finishes[OF demo_start demo_scope_facts(1,2), of "()"] by (metis (full_types) old.unit.exhaust)
  have b: "drop_bit 8 (0x0A000007 :: u32) = 0x0A0000" "drop_bit 8 (0x0A000008 :: u32) = 0x0A0000"
    by (simp_all add: drop_bit_eq_div)
  have "set ret = {a. drop_bit 8 a = 0x0A0000}"
    using ip_covers_prefixes[OF r(1) demo_scope_facts(1,2) r(2)] demo_scope_facts(3) b by simp
  then show ?thesis using r(1) demo_scope_facts(3) b by blast
qed

end
