(* ===== verification/PortStrategy.thy ===== *)
theory PortStrategy
  imports LazyHeap Tcp "HOL-Library.AList"
begin

text \<open>
  The port strategy: the graph of port statistics (\<^verbatim>\<open>controller/strategy/pmap/graph/banner.rs\<close>), the port ranges of the
  configuration (\<^verbatim>\<open>config.rs\<close>) and the adapter that decides which port of an address is probed next
  (\<^verbatim>\<open>controller/strategy/port/pmap.rs\<close>). The adapter's maps and queues are shared between threads; each method below is
  one access to them.

  The random generator and the conversion of counts to floating point are the fields of an environment. A loop
  that draws ports until it finds a new one may not end; then its value is \<open>None\<close>.
\<close>

section \<open>The environment\<close>

record ('f, 'r) port_env =
  pe_ratio :: "u64 \<Rightarrow> u64 \<Rightarrow> 'f"
  pe_unit :: "'r \<Rightarrow> 'f \<times> 'r"
  pe_range :: "u16 \<Rightarrow> u16 \<Rightarrow> 'r \<Rightarrow> u16 \<times> 'r"

text \<open>What the code relies on: a draw from an inclusive range lies in it, and quotients grow with the dividend.\<close>

definition range_ok :: "('f, 'r) port_env \<Rightarrow> bool" where
  "range_ok env \<longleftrightarrow> (\<forall>lo hi r. lo \<le> hi \<longrightarrow> lo \<le> fst (pe_range env lo hi r) \<and> fst (pe_range env lo hi r) \<le> hi)"

definition ratio_ok :: "('f::linorder, 'r) port_env \<Rightarrow> bool" where
  "ratio_ok env \<longleftrightarrow> (\<forall>a b t. a \<le> b \<longrightarrow> pe_ratio env a t \<le> pe_ratio env b t)"

section \<open>Port ranges\<close>

datatype port_range = Range u16 u16 | Single u16

fun as_vec :: "port_range \<Rightarrow> u16 list" where
  "as_vec (Range start end) = (if start \<le> end then map word_of_nat [unat start..<Suc (unat end)] else [])"
| "as_vec (Single port) = [port]"

fun sample :: "('f, 'r) port_env \<Rightarrow> port_range \<Rightarrow> 'r \<Rightarrow> u16 \<times> 'r" where
  "sample env (Range start end) r = pe_range env start end r"
| "sample env (Single port) r = (port, r)"

fun pr_start :: "port_range \<Rightarrow> u16" where
  "pr_start (Range start _) = start"
| "pr_start (Single port) = port"

fun pr_end :: "port_range \<Rightarrow> u16" where
  "pr_end (Range _ end) = end"
| "pr_end (Single port) = port"

section \<open>The graph of port statistics\<close>

text \<open>
  A hash map that is iterated over is the list of its entries in the order of the iteration. Entries of equal count
  may come in any order from the unstable sort, as they may from the iteration.
\<close>

record port_graph =
  singles :: "(u16 \<times> u64) list"
  doubles :: "u16 \<rightharpoonup> (u16 \<times> u64) list"
  g_total :: u64
  recommendations :: "u16 list"
  threshold :: u8

definition doubles_insert :: "(u16 \<times> u16) \<times> u64 \<Rightarrow> (u16 \<rightharpoonup> (u16 \<times> u64) list) \<Rightarrow> (u16 \<rightharpoonup> (u16 \<times> u64) list)" where
  "doubles_insert = (\<lambda>((i, j), n) d. d(i \<mapsto> AList.update j n (case d i of None \<Rightarrow> [] | Some m \<Rightarrow> m)))"

definition from_counts :: "(u16 \<times> u64) list \<Rightarrow> ((u16 \<times> u16) \<times> u64) list \<Rightarrow> u64 \<Rightarrow> u16 list \<Rightarrow> u8 \<Rightarrow> port_graph" where
  "from_counts ss co_banner_counts total_addresses seed_ports thr =
     (let ordered = sort_key (\<lambda>(_, c). - int (unat c)) ss;
          recs = map fst ordered
      in \<lparr>singles = ss, doubles = fold doubles_insert co_banner_counts Map.empty, g_total = max total_addresses 1,
          recommendations = recs @ filter (\<lambda>port. port \<notin> set recs) seed_ports, threshold = thr\<rparr>)"

definition open_count :: "port_graph \<Rightarrow> u16 \<Rightarrow> u64" where
  "open_count g port = (case map_of (singles g) port of None \<Rightarrow> 0 | Some c \<Rightarrow> c)"

definition base_prob :: "('f, 'r) port_env \<Rightarrow> port_graph \<Rightarrow> u16 \<Rightarrow> 'f" where
  "base_prob env g port = pe_ratio env (case map_of (singles g) port of None \<Rightarrow> 0 | Some c \<Rightarrow> c) (g_total g)"

definition co_occurring :: "port_graph \<Rightarrow> u16 \<Rightarrow> (u16 \<times> u64) list option" where
  "co_occurring g port = doubles g port"

definition recommend_at :: "port_graph \<Rightarrow> nat \<Rightarrow> u16 option" where
  "recommend_at g i = (if i < length (recommendations g) then Some (recommendations g ! i) else None)"

definition explore_empty :: "('f, 'r) port_env \<Rightarrow> 'r \<Rightarrow> u16 \<times> 'r" where
  "explore_empty env r = pe_range env 1 65535 r"

partial_function (option) explore_loop :: "('f, 'r) port_env \<Rightarrow> u16 set \<Rightarrow> 'r \<Rightarrow> (u16 \<times> 'r) option" where
  "explore_loop env tried r =
     (let (candidate, r') = explore_empty env r in
      if candidate \<notin> tried then Some (candidate, r') else explore_loop env tried r')"

definition explore :: "('f, 'r) port_env \<Rightarrow> u16 set \<Rightarrow> 'r \<Rightarrow> (u16 option \<times> 'r) option" where
  "explore env tried r =
     (if card tried \<ge> 65535 then Some (None, r)
      else map_option (\<lambda>(p, r'). (Some p, r')) (explore_loop env tried r))"

section \<open>The state of one address\<close>

record 'f port_state =
  tried_ports :: "u16 set"
  heap :: "('f, u16) lazy_heap"
  recommendation_index :: nat
  budget_remaining :: nat
  seen_responses :: "u64 \<rightharpoonup> u8"

definition port_state_default :: "'f::linorder port_state" where
  "port_state_default = \<lparr>tried_ports = {}, heap = lh_default, recommendation_index = 0, budget_remaining = 0,
     seen_responses = Map.empty\<rparr>"

definition ps_clear :: "nat \<Rightarrow> nat \<Rightarrow> 'f::linorder port_state \<Rightarrow> 'f port_state" where
  "ps_clear index budget s = s\<lparr>tried_ports := {}, heap := lh_clear (heap s), recommendation_index := index,
     budget_remaining := budget, seen_responses := Map.empty\<rparr>"

definition prob :: "('f::linorder, 'r) port_env \<Rightarrow> port_graph \<Rightarrow> 'f port_state \<Rightarrow> u16 \<Rightarrow> 'f" where
  "prob env g s port = (case lh_query (heap s) port of Some v \<Rightarrow> v | None \<Rightarrow> base_prob env g port)"

text \<open>The first loop of \<^verbatim>\<open>next_port\<close> moves the index past recommendations that were tried.\<close>

function skip_tried :: "port_graph \<Rightarrow> u16 set \<Rightarrow> nat \<Rightarrow> nat" where
  "skip_tried g tried i =
     (case recommend_at g i of
        Some port \<Rightarrow> if port \<notin> tried then i else skip_tried g tried (i + 1)
      | None \<Rightarrow> i)"
  by pat_completeness auto
termination
  by (relation "measure (\<lambda>(g, _, i). length (recommendations g) - i)") (auto simp: recommend_at_def split: if_splits)

text \<open>The second one removes tried ports from the top of the heap.\<close>

function pop_tried :: "u16 set \<Rightarrow> ('f::linorder, u16) lazy_heap \<Rightarrow> ('f, u16) lazy_heap" where
  "pop_tried tried h =
     (case lh_top h of
        (Some port, h') \<Rightarrow> if port \<in> tried then pop_tried tried (lh_pop h') else h'
      | (None, h') \<Rightarrow> h')"
  by pat_completeness auto
termination
  by (relation "measure (\<lambda>(_, h). size (current h))") (auto intro: size_lh_pop dest: sym)

declare skip_tried.simps [simp del] pop_tried.simps [simp del]

definition next_port :: "('f::linorder, 'r) port_env \<Rightarrow> port_graph \<Rightarrow> 'f port_state \<Rightarrow> u16 option \<times> 'f port_state" where
  "next_port env g s =
     (let s1 = s\<lparr>recommendation_index := skip_tried g (tried_ports s) (recommendation_index s)\<rparr>;
          s2 = s1\<lparr>heap := pop_tried (tried_ports s1) (heap s1)\<rparr>;
          (from_heap, h) = lh_top (heap s2);
          s3 = s2\<lparr>heap := h\<rparr>;
          from_list = recommend_at g (recommendation_index s3)
      in (case (from_heap, from_list) of
            (Some a, Some b) \<Rightarrow> if prob env g s3 a > prob env g s3 b then Some a else Some b
          | (Some a, None) \<Rightarrow> Some a
          | (None, Some b) \<Rightarrow> Some b
          | (None, None) \<Rightarrow> None, s3))"

definition raise_prob :: "('f::linorder, 'r) port_env \<Rightarrow> port_graph \<Rightarrow> u64 \<Rightarrow> u16 \<times> u64 \<Rightarrow> 'f port_state \<Rightarrow> 'f port_state" where
  "raise_prob env g base_count = (\<lambda>(other_port, n) s.
     let conditional_prob = pe_ratio env n base_count in
     if conditional_prob > prob env g s other_port
     then s\<lparr>heap := lh_update (heap s) other_port conditional_prob\<rparr> else s)"

definition ps_record_hit :: "('f::linorder, 'r) port_env \<Rightarrow> port_graph \<Rightarrow> u16 \<Rightarrow> u64 \<Rightarrow> 'f port_state \<Rightarrow> bool \<times> 'f port_state" where
  "ps_record_hit env g port hash s =
     (let s1 = s\<lparr>tried_ports := insert port (tried_ports s)\<rparr>;
          n = (case seen_responses s1 hash of None \<Rightarrow> 0 | Some c \<Rightarrow> c) + 1;
          s2 = s1\<lparr>seen_responses := (seen_responses s1)(hash \<mapsto> n)\<rparr>
      in if n \<ge> threshold g then (True, s2)
         else (case co_occurring g port of
                 None \<Rightarrow> (False, s2)
               | Some co \<Rightarrow>
                   let base_count = open_count g port in
                   if base_count = 0 then (False, s2) else (False, fold (raise_prob env g base_count) co s2)))"

definition ps_record_empty :: "u16 \<Rightarrow> 'f port_state \<Rightarrow> 'f port_state" where
  "ps_record_empty port s = s\<lparr>tried_ports := insert port (tried_ports s)\<rparr>"

section \<open>The adapter\<close>

record 'f port_adapter =
  states :: "ipv4 \<rightharpoonup> 'f port_state"
  allocated_states :: "'f port_state list"
  queue_capacity :: nat
  graph :: port_graph
  epsilon_port :: 'f
  budget_per_address :: nat
  source_port_range :: port_range

datatype port_error = Port_panic | Port_diverges

definition port_new :: "port_graph \<Rightarrow> nat \<Rightarrow> 'f::linorder \<Rightarrow> nat \<Rightarrow> port_range \<Rightarrow> 'f port_adapter" where
  "port_new g max_in_flight eps budget src =
     \<lparr>states = Map.empty, allocated_states = replicate max_in_flight port_state_default, queue_capacity = max_in_flight,
      graph = g, epsilon_port = eps, budget_per_address = budget, source_port_range = src\<rparr>"

text \<open>\<^verbatim>\<open>push(state).unwrap()\<close> on the bounded queue, and \<^verbatim>\<open>remove_state\<close>.\<close>

definition push_state :: "'f port_state \<Rightarrow> 'f port_adapter \<Rightarrow> 'f port_adapter option" where
  "push_state s a = (if length (allocated_states a) < queue_capacity a
     then Some (a\<lparr>allocated_states := allocated_states a @ [s]\<rparr>) else None)"

definition remove_state :: "ipv4 \<Rightarrow> 'f port_adapter \<Rightarrow> 'f port_adapter option" where
  "remove_state addr a = (case states a addr of
     None \<Rightarrow> Some a
   | Some s \<Rightarrow> push_state s (a\<lparr>states := (states a)(addr := None)\<rparr>))"

definition gen_guard :: "'f port_adapter \<Rightarrow> ('f port_state \<times> 'f port_adapter) option" where
  "gen_guard a = (case allocated_states a of [] \<Rightarrow> None | s # ss \<Rightarrow> Some (s, a\<lparr>allocated_states := ss\<rparr>))"

definition generate :: "('f::linorder, 'r) port_env \<Rightarrow> 'f port_state \<Rightarrow> ipv4 \<Rightarrow> 'r \<Rightarrow> 'f port_adapter
    \<Rightarrow> (packet_template \<times> 'r \<times> 'f port_adapter) option" where
  "generate env s addr r a =
     (let (u, r1) = pe_unit env r;
          exploit = (u \<ge> epsilon_port a);
          s1 = ps_clear (if exploit then 1 else 0) (budget_per_address a) s;
          (port, r2) = (if exploit
                        then (case recommend_at (graph a) 0 of Some p \<Rightarrow> (p, r1) | None \<Rightarrow> explore_empty env r1)
                        else explore_empty env r1);
          a1 = a\<lparr>states := (states a)(addr \<mapsto> s1)\<rparr>
      in case (case states a addr of Some old \<Rightarrow> push_state old a1 | None \<Rightarrow> Some a1) of
           None \<Rightarrow> None
         | Some a2 \<Rightarrow> (let (source, r3) = sample env (source_port_range a2) r2
                      in Some (packet_template_new source addr port, r3, a2)))"

definition drop_state :: "ipv4 \<Rightarrow> 'r \<Rightarrow> 'f port_adapter \<Rightarrow> port_error + packet_template option \<times> 'r \<times> 'f port_adapter" where
  "drop_state addr r a = (case remove_state addr a of None \<Rightarrow> Inl Port_panic | Some a' \<Rightarrow> Inr (None, r, a'))"

definition pick_next :: "('f::linorder, 'r) port_env \<Rightarrow> 'f port_adapter \<Rightarrow> 'f port_state \<Rightarrow> 'r \<Rightarrow> (u16 option \<times> 'r \<times> 'f port_state) option" where
  "pick_next env a s r =
     (let (u, r1) = pe_unit env r in
      if u < epsilon_port a then map_option (\<lambda>(p, r2). (p, r2, s)) (explore env (tried_ports s) r1)
      else (case next_port env (graph a) s of
              (Some p, s') \<Rightarrow> Some (Some p, r1, s')
            | (None, s') \<Rightarrow> map_option (\<lambda>(p, r2). (p, r2, s')) (explore env (tried_ports s') r1)))"

definition port_on_result :: "('f::linorder, 'r) port_env \<Rightarrow> ipv4 \<Rightarrow> u16 \<Rightarrow> u64 option \<Rightarrow> 'r \<Rightarrow> 'f port_adapter
    \<Rightarrow> port_error + packet_template option \<times> 'r \<times> 'f port_adapter" where
  "port_on_result env addr port hash r a =
     (case states a addr of
        None \<Rightarrow> Inr (None, r, a)
      | Some s \<Rightarrow>
          if port \<in> tried_ports s then Inr (None, r, a)
          else
            (let (honeypot, s1) = (case hash of
                     Some h \<Rightarrow> ps_record_hit env (graph a) port h s
                   | None \<Rightarrow> (False, ps_record_empty port s));
                 a1 = a\<lparr>states := (states a)(addr \<mapsto> s1)\<rparr>
             in if honeypot then drop_state addr r a1
                else
                  (let s2 = s1\<lparr>budget_remaining := budget_remaining s1 - 1\<rparr>;
                       a2 = a\<lparr>states := (states a)(addr \<mapsto> s2)\<rparr>
                   in if budget_remaining s2 = 0 then drop_state addr r a2
                      else (case pick_next env a2 s2 r of
                              None \<Rightarrow> Inl Port_diverges
                            | Some (None, r', s3) \<Rightarrow> drop_state addr r' (a2\<lparr>states := (states a2)(addr \<mapsto> s3)\<rparr>)
                            | Some (Some p, r', s3) \<Rightarrow>
                                (let (source, r'') = sample env (source_port_range a2) r' in
                                 Inr (Some (packet_template_new source addr p), r'', a2\<lparr>states := (states a2)(addr \<mapsto> s3)\<rparr>))))))"

text \<open>
  The expirer: \<open>pending\<close> is the entry read too early, the list is the queue of expiries from which it steals.
\<close>

fun port_expire :: "nat \<Rightarrow> nat \<Rightarrow> (nat \<times> ipv4) option \<Rightarrow> (nat \<times> ipv4) list \<Rightarrow> 'f port_adapter
    \<Rightarrow> ((nat \<times> ipv4) option \<times> (nat \<times> ipv4) list \<times> 'f port_adapter) option" where
  "port_expire now 0 pending q a = Some (pending, q, a)"
| "port_expire now (Suc n) pending q a =
     (case (case pending of Some e \<Rightarrow> Some (e, q) | None \<Rightarrow> (case q of [] \<Rightarrow> None | e # q' \<Rightarrow> Some (e, q'))) of
        None \<Rightarrow> Some (None, q, a)
      | Some ((expires_at, key), q') \<Rightarrow>
          if expires_at > now then Some (Some (expires_at, key), q', a)
          else (case remove_state key a of
                  None \<Rightarrow> None
                | Some a' \<Rightarrow> port_expire now n None q' a'))"


section \<open>Choosing the next port\<close>

lemma skip_tried_spec:
  "i \<le> skip_tried g tried i
   \<and> (\<forall>j. i \<le> j \<longrightarrow> j < skip_tried g tried i \<longrightarrow> (\<exists>p \<in> tried. recommend_at g j = Some p))
   \<and> (\<forall>p. recommend_at g (skip_tried g tried i) = Some p \<longrightarrow> p \<notin> tried)"
proof (induction g tried i rule: skip_tried.induct)
  case (1 g tried i)
  show ?case
  proof (cases "\<exists>p. recommend_at g i = Some p \<and> p \<in> tried")
    case True
    then obtain p where p: "recommend_at g i = Some p" "p \<in> tried" by blast
    have e: "skip_tried g tried i = skip_tried g tried (i + 1)" using p by (subst skip_tried.simps) simp
    have "\<exists>p \<in> tried. recommend_at g j = Some p" if "i \<le> j" "j < skip_tried g tried (i + 1)" for j
      using 1[OF p(1)] p that by (cases "j = i") auto
    then show ?thesis using 1[OF p(1)] p(2) e by auto
  next
    case False
    then have "skip_tried g tried i = i" by (subst skip_tried.simps) (auto split: option.split)
    then show ?thesis using False by auto
  qed
qed

lemma lh_top_again: "lh_top h = (x, h') \<Longrightarrow> lh_top h' = (x, h')"
  by (auto simp: lh_top_def Let_def)

lemma lh_top_keeps: "lh_inv h \<Longrightarrow> lh_top h = (x, h') \<Longrightarrow> lh_inv h' \<and> hvalues h' = hvalues h"
  using lazy.inv_top[of h] lazy.abs_top[of h] by simp

text \<open>Two heaps agree outside the tried ports, and the second has no other entries.\<close>

definition heap_agree :: "u16 set \<Rightarrow> ('f::linorder, u16) lazy_heap \<Rightarrow> ('f, u16) lazy_heap \<Rightarrow> bool" where
  "heap_agree tried h h' \<longleftrightarrow> (\<forall>k. hvalues h' k = hvalues h k \<or> k \<in> tried \<and> hvalues h' k = None)"

lemma pop_tried_spec:
  assumes "lh_inv h"
  shows "lh_inv (pop_tried tried h) \<and> heap_agree tried h (pop_tried tried h)
     \<and> (\<forall>k. fst (lh_top (pop_tried tried h)) = Some k \<longrightarrow> k \<notin> tried)"
  using assms
proof (induction tried h rule: pop_tried.induct)
  case (1 tried h)
  obtain x h' where t: "lh_top h = (x, h')" by (cases "lh_top h")
  have h': "lh_inv h'" "hvalues h' = hvalues h" using lh_top_keeps[OF 1(2) t] by auto
  note again = lh_top_again[OF t]
  show ?case
  proof (cases "\<exists>port. x = Some port \<and> port \<in> tried")
    case True
    then obtain port where x: "x = Some port" "port \<in> tried" by blast
    have e: "pop_tried tried h = pop_tried tried (lh_pop h')" using t x by (subst pop_tried.simps) simp
    have "hvalues (lh_pop h') = (hvalues h)(port := None)"
      using lazy.abs_pop[OF h'(1)] again x h'(2) by simp
    then show ?thesis
      using 1(1)[OF t[symmetric] x(1) x(2) lazy.inv_pop[OF h'(1)]] x(2) unfolding e heap_agree_def by (auto split: if_splits)
  next
    case False
    then have "pop_tried tried h = h'" using t by (subst pop_tried.simps) (auto split: option.split)
    then show ?thesis using False h' again by (auto simp: heap_agree_def)
  qed
qed

definition ps_inv :: "('f::linorder, 'r) port_env \<Rightarrow> port_graph \<Rightarrow> 'f port_state \<Rightarrow> bool" where
  "ps_inv env g s \<longleftrightarrow> lh_inv (heap s) \<and> finite (tried_ports s)
     \<and> (\<forall>k v. hvalues (heap s) k = Some v \<longrightarrow> base_prob env g k \<le> v)"

lemma ps_clear_inv: "ps_inv env g (ps_clear i b s)"
  by (simp add: ps_inv_def ps_clear_def lh_clear_inv)

lemma raise_prob_inv:
  assumes "ps_inv env g s"
  shows "ps_inv env g (raise_prob env g n x s) \<and> (\<exists>h. raise_prob env g n x s = s\<lparr>heap := h\<rparr>)"
proof -
  obtain q c where x: "x = (q, c)" by (cases x)
  have b: "base_prob env g q \<le> prob env g s q"
    using assms by (auto simp: ps_inv_def prob_def lh_query_def split: option.split)
  have "s = s\<lparr>heap := heap s\<rparr>" by simp
  then have "\<exists>h. s = s\<lparr>heap := h\<rparr>" by blast
  moreover have "ps_inv env g (s\<lparr>heap := lh_update (heap s) q v\<rparr>)" if "prob env g s q < v" for v
    using assms b that lazy.abs_upd[of "heap s" q] lazy.inv_upd[of "heap s" q] by (auto simp: ps_inv_def)
  ultimately show ?thesis using assms by (auto simp: raise_prob_def Let_def x)
qed

lemma raise_probs_inv:
  assumes "ps_inv env g s"
  shows "ps_inv env g (fold (raise_prob env g n) xs s) \<and> (\<exists>h. fold (raise_prob env g n) xs s = s\<lparr>heap := h\<rparr>)"
  using assms
proof (induction xs arbitrary: s)
  case Nil
  then show ?case by (auto intro: exI[of _ "heap s"])
next
  case (Cons x xs)
  obtain h where r: "raise_prob env g n x s = s\<lparr>heap := h\<rparr>" "ps_inv env g (s\<lparr>heap := h\<rparr>)"
    using raise_prob_inv[OF Cons(2), of n x] by auto
  then obtain h' where "fold (raise_prob env g n) xs (s\<lparr>heap := h\<rparr>) = s\<lparr>heap := h\<rparr>\<lparr>heap := h'\<rparr>"
    using Cons(1)[OF r(2)] by blast
  then show ?case using Cons(1)[OF r(2)] r(1) by auto
qed

lemma ps_record_hit_inv:
  assumes "ps_inv env g s" "ps_record_hit env g port hash s = (b, s')"
  shows "ps_inv env g s' \<and> tried_ports s' = insert port (tried_ports s) \<and> budget_remaining s' = budget_remaining s
     \<and> recommendation_index s' = recommendation_index s"
proof -
  define s2 where "s2 = s\<lparr>tried_ports := insert port (tried_ports s), seen_responses := (seen_responses s)(hash \<mapsto>
      (case seen_responses s hash of None \<Rightarrow> 0 | Some c \<Rightarrow> c) + 1)\<rparr>"
  have "ps_inv env g s2" using assms(1) by (simp add: ps_inv_def s2_def)
  moreover have "s' = s2 \<or> (\<exists>n co. s' = fold (raise_prob env g n) co s2)"
    using assms(2) by (auto simp: ps_record_hit_def Let_def s2_def split: if_splits option.splits)
  ultimately have "ps_inv env g s' \<and> (s' = s2 \<or> (\<exists>h. s' = s2\<lparr>heap := h\<rparr>))"
    using raise_probs_inv[of env g s2] by metis
  then show ?thesis by (auto simp: s2_def)
qed


lemma explore_loop_untried: "explore_loop env tried r = Some y \<Longrightarrow> fst y \<notin> tried"
  by (rule explore_loop.raw_induct[of "\<lambda>env tried r y. fst y \<notin> tried"]) (auto split: prod.splits if_splits)

lemma explore_untried: "explore env tried r = Some (Some p, r') \<Longrightarrow> p \<notin> tried"
  using explore_loop_untried[of env tried r] by (auto simp: explore_def split: if_splits)

text \<open>The ports that an address may still get by recommendation or from its heap.\<close>

definition candidates :: "port_graph \<Rightarrow> 'f::linorder port_state \<Rightarrow> u16 set" where
  "candidates g s = {q. q \<notin> tried_ports s \<and> (q \<in> dom (hvalues (heap s))
     \<or> (\<exists>i \<ge> recommendation_index s. recommend_at g i = Some q))}"

lemma next_port_parts:
  assumes inv: "ps_inv env g s" and e: "next_port env g s = (res, s')"
  obtains a i h where "s' = s\<lparr>recommendation_index := i, heap := h\<rparr>" "lh_inv h" "heap_agree (tried_ports s) (heap s) h"
    "fst (lh_top h) = a" "i = skip_tried g (tried_ports s) (recommendation_index s)"
    "\<And>k. a = Some k \<Longrightarrow> k \<notin> tried_ports s"
    "res = (case (a, recommend_at g i) of
            (Some a, Some b) \<Rightarrow> if prob env g s' a > prob env g s' b then Some a else Some b
          | (Some a, None) \<Rightarrow> Some a
          | (None, Some b) \<Rightarrow> Some b
          | (None, None) \<Rightarrow> None)"
proof -
  define h where "h = pop_tried (tried_ports s) (heap s)"
  obtain a h' where t: "lh_top h = (a, h')" by (cases "lh_top h")
  have p: "lh_inv h" "heap_agree (tried_ports s) (heap s) h" "\<And>k. a = Some k \<Longrightarrow> k \<notin> tried_ports s"
    using pop_tried_spec[of "heap s" "tried_ports s"] inv t by (auto simp: ps_inv_def h_def)
  have h': "lh_inv h'" "hvalues h' = hvalues h" "fst (lh_top h') = a"
    using lh_top_keeps[OF p(1) t] lh_top_again[OF t] by auto
  then show thesis
    using that[of h' "skip_tried g (tried_ports s) (recommendation_index s)" a] p(2,3) e t
    by (auto simp: next_port_def Let_def h_def[symmetric] heap_agree_def cong: option.case_cong if_cong)
qed

lemma next_port_inv:
  assumes inv: "ps_inv env g s" and e: "next_port env g s = (res, s')"
  shows "ps_inv env g s' \<and> tried_ports s' = tried_ports s \<and> budget_remaining s' = budget_remaining s
     \<and> seen_responses s' = seen_responses s \<and> (\<forall>p. res = Some p \<longrightarrow> p \<notin> tried_ports s)"
proof -
  obtain a i h where n: "s' = s\<lparr>recommendation_index := i, heap := h\<rparr>" "lh_inv h" "heap_agree (tried_ports s) (heap s) h"
    "i = skip_tried g (tried_ports s) (recommendation_index s)" "\<And>k. a = Some k \<Longrightarrow> k \<notin> tried_ports s"
    "res = (case (a, recommend_at g i) of
            (Some a, Some b) \<Rightarrow> if prob env g s' a > prob env g s' b then Some a else Some b
          | (Some a, None) \<Rightarrow> Some a | (None, Some b) \<Rightarrow> Some b | (None, None) \<Rightarrow> None)"
    by (rule next_port_parts[OF inv e]) blast
  have "ps_inv env g s'"
    using inv n(2,3) unfolding n(1) ps_inv_def heap_agree_def by simp (metis option.distinct(1))
  then show ?thesis
    using n(1,4,5,6) skip_tried_spec[of "recommendation_index s" g "tried_ports s"] by (auto split: option.splits if_splits)
qed


lemma base_prob_open: "base_prob env g p = pe_ratio env (open_count g p) (g_total g)"
  by (simp add: base_prob_def open_count_def)

lemma recommendations_sorted:
  assumes g: "g = from_counts ss co tot seeds thr" and d: "distinct (map fst ss)"
    and ij: "i \<le> j" and a: "recommend_at g i = Some a" and b: "recommend_at g j = Some b"
  shows "open_count g b \<le> open_count g a"
proof -
  define os where "os = sort_key (\<lambda>(_, c). - int (unat c)) ss"
  have recs: "recommendations g = map fst os @ filter (\<lambda>p. p \<notin> set (map fst os)) seeds"
    by (simp add: g from_counts_def Let_def os_def)
  have sg: "singles g = ss" by (simp add: g from_counts_def Let_def)
  have cnt: "open_count g (fst (os ! k)) = snd (os ! k)" if "k < length os" for k
  proof -
    have "os ! k \<in> set ss" using that nth_mem[of k os] by (simp add: os_def)
    then have "map_of ss (fst (os ! k)) = Some (snd (os ! k))" using d map_of_eq_Some_iff[of ss] by simp
    then show ?thesis by (simp add: open_count_def sg)
  qed
  have le: "snd (os ! l) \<le> snd (os ! k)" if "k \<le> l" "l < length os" for k l
  proof -
    have "sorted (map (\<lambda>(_, c). - int (unat c)) os)" by (simp add: os_def)
    from sorted_nth_mono[OF this that(1)] that show ?thesis by (simp add: split_beta word_le_def)
  qed
  show ?thesis
  proof (cases "j < length os")
    case True
    then have "a = fst (os ! i)" "b = fst (os ! j)"
      using a b ij by (auto simp: recommend_at_def recs nth_append split: if_splits)
    then show ?thesis using cnt le[OF ij True] True ij by simp
  next
    case False
    then have "b \<in> set (filter (\<lambda>p. p \<notin> set (map fst os)) seeds)"
      using b nth_mem[of "j - length os" "filter (\<lambda>p. p \<notin> set (map fst os)) seeds"]
      by (auto simp: recommend_at_def recs nth_append split: if_splits)
    then have "map_of ss b = None" by (auto simp: os_def map_of_eq_None_iff)
    then show ?thesis by (simp add: open_count_def sg)
  qed
qed

text \<open>
  C30. The next port is the best one: of the ports an address has not tried, the strategy picks one with the highest
  probability among those in its heap and those left in the recommendation list, where a port's probability is that
  raised by the ports found open or else the historical one; it gives up only when none is left.
\<close>
theorem next_port_best:
  assumes g: "g = from_counts ss co tot seeds thr" and d: "distinct (map fst ss)" and ok: "ratio_ok env"
    and inv: "ps_inv env g s" and e: "next_port env g s = (res, s')"
  shows "(case res of None \<Rightarrow> candidates g s = {}
     | Some p \<Rightarrow> p \<in> candidates g s \<and> (\<forall>q \<in> candidates g s. prob env g s q \<le> prob env g s p))"
proof -
  let ?T = "tried_ports s"
  obtain a i h where n: "s' = s\<lparr>recommendation_index := i, heap := h\<rparr>" "lh_inv h" "heap_agree ?T (heap s) h"
    "fst (lh_top h) = a" "i = skip_tried g ?T (recommendation_index s)" "\<And>k. a = Some k \<Longrightarrow> k \<notin> ?T"
    and res: "res = (case (a, recommend_at g i) of
            (Some a, Some b) \<Rightarrow> if prob env g s' a > prob env g s' b then Some a else Some b
          | (Some a, None) \<Rightarrow> Some a | (None, Some b) \<Rightarrow> Some b | (None, None) \<Rightarrow> None)"
    by (rule next_port_parts[OF inv e]) blast
  note sk = skip_tried_spec[of "recommendation_index s" g ?T, folded n(5)]
  have hv: "hvalues h q = hvalues (heap s) q" if "q \<notin> ?T" for q using n(3) that by (auto simp: heap_agree_def)
  have pr: "prob env g s' q = prob env g s q" if "q \<notin> ?T" for q using hv[OF that] by (simp add: n(1) prob_def lh_query_def)
  have top: "\<exists>k. a = Some k \<and> prob env g s q \<le> prob env g s k" if q: "q \<notin> ?T" "q \<in> dom (hvalues (heap s))" for q
  proof -
    obtain v where v: "hvalues h q = Some v" using hv[OF q(1)] q(2) by auto
    then obtain k where k: "a = Some k" using lazy.top_None[OF n(2)] n(4) by (cases a) auto
    obtain w where "hvalues h k = Some w" "(v, q) \<le> (w, k)" using lazy.top_Some[OF n(2), of k] n(4) k v by auto
    then show ?thesis using v k hv[of k] hv[of q] n(6) q(1) by (auto simp: prob_def lh_query_def less_eq_prod_def)
  qed
  have lst: "\<exists>b. recommend_at g i = Some b \<and> prob env g s q \<le> prob env g s b"
    if q: "q \<notin> ?T" "q \<notin> dom (hvalues (heap s))" "recommendation_index s \<le> j" "recommend_at g j = Some q" for q j
  proof -
    have j: "i \<le> j" using sk q by (metis le_less_linear option.inject)
    then obtain b where b: "recommend_at g i = Some b" using q(4) by (auto simp: recommend_at_def split: if_splits)
    have "base_prob env g q \<le> base_prob env g b"
      using recommendations_sorted[OF g d j b q(4)] ok by (simp add: base_prob_open ratio_ok_def)
    also have "\<dots> \<le> prob env g s b" using inv by (auto simp: prob_def lh_query_def ps_inv_def split: option.split)
    finally show ?thesis using b q(2) by (auto simp: prob_def lh_query_def domIff split: option.split)
  qed
  have ca: "k \<in> candidates g s" if "a = Some k" for k
    using lazy.top_in_dom[OF n(2), of k] n(4,6) hv[of k] that by (auto simp: candidates_def)
  have cb: "b \<in> candidates g s" if "recommend_at g i = Some b" for b using that sk by (auto simp: candidates_def)
  have best: "(\<exists>k. a = Some k \<and> prob env g s q \<le> prob env g s k) \<or> (\<exists>b. recommend_at g i = Some b \<and> prob env g s q \<le> prob env g s b)"
    if "q \<in> candidates g s" for q using that top lst unfolding candidates_def by blast
  show ?thesis
    using res best ca cb pr n(6) sk by (cases a; cases "recommend_at g i") (fastforce simp: not_less)+
qed


section \<open>The invariant of the adapter\<close>

text \<open>
  Every state is in the map, in the queue or held by a generation guard (the list \<open>gs\<close>), and there are never more
  than the queue has room for.
\<close>

definition adapter_inv :: "('f::linorder, 'r) port_env \<Rightarrow> 'f port_adapter \<Rightarrow> 'f port_state list \<Rightarrow> bool" where
  "adapter_inv env a gs \<longleftrightarrow> finite (dom (states a))
     \<and> card (dom (states a)) + length (allocated_states a) + length gs \<le> queue_capacity a
     \<and> (\<forall>addr s. states a addr = Some s \<longrightarrow> ps_inv env (graph a) s)"

definition same_conf :: "'f port_adapter \<Rightarrow> 'f port_adapter \<Rightarrow> bool" where
  "same_conf a a' \<longleftrightarrow> graph a' = graph a \<and> queue_capacity a' = queue_capacity a \<and> epsilon_port a' = epsilon_port a
     \<and> budget_per_address a' = budget_per_address a \<and> source_port_range a' = source_port_range a"

lemma port_new_inv: "adapter_inv env (port_new g m eps b src) []"
  by (simp add: adapter_inv_def port_new_def)

lemma adapter_inv_put:
  assumes "adapter_inv env a gs" "states a addr \<noteq> None" "ps_inv env (graph a) s"
  shows "adapter_inv env (a\<lparr>states := (states a)(addr \<mapsto> s)\<rparr>) gs"
proof -
  have "dom ((states a)(addr \<mapsto> s)) = dom (states a)" using assms(2) by auto
  then show ?thesis using assms by (auto simp: adapter_inv_def)
qed

lemma remove_state_inv:
  assumes inv: "adapter_inv env a gs"
  shows "\<exists>q. remove_state addr a = Some (a\<lparr>states := (states a)(addr := None), allocated_states := q\<rparr>)
     \<and> adapter_inv env (a\<lparr>states := (states a)(addr := None), allocated_states := q\<rparr>) gs"
proof (cases "states a addr")
  case None
  then have "(states a)(addr := None) = states a" by auto
  then show ?thesis using inv None by (intro exI[of _ "allocated_states a"]) (simp add: remove_state_def)
next
  case (Some s)
  have fin: "finite (dom (states a))" using inv by (simp add: adapter_inv_def)
  have "card (dom ((states a)(addr := None))) = card (dom (states a)) - 1"
    using fin Some by (simp add: domI)
  moreover have "0 < card (dom (states a))" using fin Some by (auto simp: card_gt_0_iff)
  ultimately show ?thesis
    using inv Some by (auto simp: remove_state_def push_state_def adapter_inv_def)
qed

lemma pick_next_inv:
  assumes "ps_inv env (graph a) s" "pick_next env a s r = Some (po, r', s')"
  shows "ps_inv env (graph a) s' \<and> tried_ports s' = tried_ports s \<and> budget_remaining s' = budget_remaining s
     \<and> seen_responses s' = seen_responses s \<and> (\<forall>p. po = Some p \<longrightarrow> p \<notin> tried_ports s)"
proof -
  obtain u r1 where u: "pe_unit env r = (u, r1)" by (cases "pe_unit env r")
  obtain q s1 where n: "next_port env (graph a) s = (q, s1)" by (cases "next_port env (graph a) s")
  note ni = next_port_inv[OF assms(1) n]
  show ?thesis
    using assms ni u n explore_untried by (cases q) (fastforce simp: pick_next_def split: if_splits)+
qed

lemma sampled: "sample env rg r = (x, r') \<Longrightarrow> x \<in> range (\<lambda>r. fst (sample env rg r))"
  by (metis fst_conv rangeI)

text \<open>What an answer does to the adapter.\<close>

definition on_result_ok :: "('f::linorder, 'r) port_env \<Rightarrow> 'f port_adapter \<Rightarrow> 'f port_state list \<Rightarrow> ipv4 \<Rightarrow> u16
    \<Rightarrow> packet_template option \<Rightarrow> 'f port_adapter \<Rightarrow> bool" where
  "on_result_ok env a gs addr port res a' \<longleftrightarrow> adapter_inv env a' gs \<and> same_conf a a'
     \<and> (\<forall>x. x \<noteq> addr \<longrightarrow> states a' x = states a x)
     \<and> (case res of None \<Rightarrow> states a' addr = None \<or> states a' = states a
        | Some t \<Rightarrow> (\<exists>s s'. states a addr = Some s \<and> states a' addr = Some s' \<and> port \<notin> tried_ports s
            \<and> tried_ports s' = insert port (tried_ports s) \<and> budget_remaining s' = budget_remaining s - 1
            \<and> 0 < budget_remaining s' \<and> pt_ip t = addr \<and> pt_destination_port t \<notin> tried_ports s'
            \<and> pt_source_port t \<in> range (\<lambda>r. fst (sample env (source_port_range a) r))))"

lemma drop_state_ok:
  assumes "adapter_inv env a gs" "adapter_inv env a1 gs" "same_conf a a1" "\<forall>x. x \<noteq> addr \<longrightarrow> states a1 x = states a x"
  shows "\<exists>a'. drop_state addr r a1 = Inr (None, r, a') \<and> on_result_ok env a gs addr port None a'"
  using remove_state_inv[OF assms(2), of addr] assms
  by (auto simp: drop_state_def on_result_ok_def same_conf_def)

lemma port_on_result_inv:
  assumes inv: "adapter_inv env a gs"
  shows "case port_on_result env addr port hash r a of
       Inl e \<Rightarrow> e = Port_diverges
     | Inr (res, r', a') \<Rightarrow> on_result_ok env a gs addr port res a'"
proof (cases "\<exists>s. states a addr = Some s \<and> port \<notin> tried_ports s")
  case False
  then show ?thesis using inv by (auto simp: port_on_result_def on_result_ok_def same_conf_def split: option.split)
next
  case True
  then obtain s where s: "states a addr = Some s" "port \<notin> tried_ports s" by blast
  have si: "ps_inv env (graph a) s" using inv s by (auto simp: adapter_inv_def)
  obtain hp s1 where h: "(case hash of Some h \<Rightarrow> ps_record_hit env (graph a) port h s
      | None \<Rightarrow> (False, ps_record_empty port s)) = (hp, s1)" by fastforce
  have s1: "ps_inv env (graph a) s1" "tried_ports s1 = insert port (tried_ports s)" "budget_remaining s1 = budget_remaining s"
    using si ps_record_hit_inv[OF si] h by (auto simp: ps_record_empty_def ps_inv_def split: option.splits)
  define s2 where "s2 = s1\<lparr>budget_remaining := budget_remaining s1 - 1\<rparr>"
  define a2 where "a2 = a\<lparr>states := (states a)(addr \<mapsto> s2)\<rparr>"
  have s2: "ps_inv env (graph a2) s2" using s1(1) by (simp add: s2_def a2_def ps_inv_def)
  have put: "adapter_inv env (a\<lparr>states := (states a)(addr \<mapsto> x)\<rparr>) gs" "same_conf a (a\<lparr>states := (states a)(addr \<mapsto> x)\<rparr>)"
    if "ps_inv env (graph a) x" for x
    using adapter_inv_put[OF inv _ that] s by (simp_all add: same_conf_def)
  have drop: "case drop_state addr r' (a\<lparr>states := (states a)(addr \<mapsto> x)\<rparr>) of
      Inl e \<Rightarrow> e = Port_diverges | Inr (res, r', a') \<Rightarrow> on_result_ok env a gs addr port res a'" if "ps_inv env (graph a) x" for x r'
    using drop_state_ok[OF inv put[OF that], of addr r' port] by auto
  have e: "port_on_result env addr port hash r a = (if hp then drop_state addr r (a\<lparr>states := (states a)(addr \<mapsto> s1)\<rparr>)
      else if budget_remaining s2 = 0 then drop_state addr r a2
      else (case pick_next env a2 s2 r of
              None \<Rightarrow> Inl Port_diverges
            | Some (None, r', s3) \<Rightarrow> drop_state addr r' (a\<lparr>states := (states a)(addr \<mapsto> s3)\<rparr>)
            | Some (Some p, r', s3) \<Rightarrow>
                (let (source, r'') = sample env (source_port_range a2) r' in
                 Inr (Some (packet_template_new source addr p), r'', a\<lparr>states := (states a)(addr \<mapsto> s3)\<rparr>))))"
    unfolding port_on_result_def using s h by (simp add: s2_def a2_def Let_def cong: if_cong option.case_cong prod.case_cong)
  show ?thesis
  proof (cases "hp \<or> budget_remaining s2 = 0 \<or> pick_next env a2 s2 r = None")
    case True
    then show ?thesis using e drop[OF s1(1)] drop[of s2] s2 by (auto simp: a2_def)
  next
    case False
    then obtain po r' s3 where p: "pick_next env a2 s2 r = Some (po, r', s3)" by fastforce
    note pi = pick_next_inv[OF s2 p]
    have s3: "ps_inv env (graph a) s3" using pi by (simp add: a2_def)
    obtain src r'' where src: "sample env (source_port_range a2) r' = (src, r'')" by fastforce
    show ?thesis
      using e False p drop[OF s3, of r'] pi put[OF s3] s s1 src sampled[OF src]
      by (cases po) (auto simp: on_result_ok_def s2_def a2_def packet_template_new_def)
  qed
qed


lemma generate_inv:
  assumes inv: "adapter_inv env a (s # gs)"
  shows "\<exists>t r' a'. generate env s addr r a = Some (t, r', a') \<and> adapter_inv env a' gs \<and> same_conf a a' \<and> pt_ip t = addr
     \<and> pt_source_port t \<in> range (\<lambda>r. fst (sample env (source_port_range a) r))
     \<and> (\<forall>x. x \<noteq> addr \<longrightarrow> states a' x = states a x)
     \<and> (\<exists>s'. states a' addr = Some s' \<and> tried_ports s' = {} \<and> budget_remaining s' = budget_per_address a)"
proof -
  obtain u r1 where u: "pe_unit env r = (u, r1)" by fastforce
  define s1 where "s1 = ps_clear (if u \<ge> epsilon_port a then 1 else 0) (budget_per_address a) s"
  define a1 where "a1 = a\<lparr>states := (states a)(addr \<mapsto> s1)\<rparr>"
  have s1: "ps_inv env (graph a) s1" "tried_ports s1 = {}" "budget_remaining s1 = budget_per_address a"
    using ps_clear_inv by (auto simp: s1_def ps_clear_def)
  obtain port r2 where pt: "(if u \<ge> epsilon_port a
      then (case recommend_at (graph a) 0 of Some p \<Rightarrow> (p, r1) | None \<Rightarrow> explore_empty env r1)
      else explore_empty env r1) = (port, r2)" by fastforce
  have "\<exists>q. (case states a addr of Some old \<Rightarrow> push_state old a1 | None \<Rightarrow> Some a1) = Some (a1\<lparr>allocated_states := q\<rparr>)
      \<and> adapter_inv env (a1\<lparr>allocated_states := q\<rparr>) gs"
  proof (cases "states a addr")
    case None
    then show ?thesis using inv s1(1)
      by (intro exI[of _ "allocated_states a"]) (auto simp: adapter_inv_def a1_def domIff)
  next
    case (Some old)
    then have d: "dom ((states a)(addr \<mapsto> s1)) = dom (states a)" by auto
    have "0 < card (dom (states a))" using inv Some by (auto simp: card_gt_0_iff adapter_inv_def)
    then show ?thesis using inv s1(1) Some d
      by (intro exI[of _ "allocated_states a @ [old]"]) (auto simp: adapter_inv_def a1_def push_state_def)
  qed
  then obtain q where q: "(case states a addr of Some old \<Rightarrow> push_state old a1 | None \<Rightarrow> Some a1) = Some (a1\<lparr>allocated_states := q\<rparr>)"
    "adapter_inv env (a1\<lparr>allocated_states := q\<rparr>) gs" by blast
  obtain source r3 where src: "sample env (source_port_range (a1\<lparr>allocated_states := q\<rparr>)) r2 = (source, r3)" by fastforce
  have "generate env s addr r a = Some (packet_template_new source addr port, r3, a1\<lparr>allocated_states := q\<rparr>)"
    unfolding generate_def using u pt q(1) src
    by (cases "states a addr"; cases "epsilon_port a \<le> u") (simp_all add: s1_def a1_def Let_def)
  then show ?thesis using q(2) s1 sampled[OF src] by (auto simp: same_conf_def a1_def packet_template_new_def)
qed

lemma port_expire_inv:
  assumes "adapter_inv env a gs"
  shows "\<exists>p' q' a'. port_expire now n pending q a = Some (p', q', a') \<and> adapter_inv env a' gs \<and> same_conf a a'
     \<and> dom (states a') \<subseteq> dom (states a)"
  using assms
proof (induction now n pending q a rule: port_expire.induct)
  case (1 now pending q a)
  then show ?case by (simp add: same_conf_def)
next
  case (2 now n pending q a)
  define nx where "nx = (case pending of Some e \<Rightarrow> Some (e, q) | None \<Rightarrow> (case q of [] \<Rightarrow> None | e # q' \<Rightarrow> Some (e, q')))"
  show ?case
  proof (cases nx)
    case None
    then show ?thesis using 2(2) by (simp add: nx_def[symmetric] same_conf_def)
  next
    case (Some x)
    obtain t key q' where x: "x = ((t, key), q')" by (metis prod.collapse)
    obtain qa where r: "remove_state key a = Some (a\<lparr>states := (states a)(key := None), allocated_states := qa\<rparr>)"
      "adapter_inv env (a\<lparr>states := (states a)(key := None), allocated_states := qa\<rparr>) gs"
      using remove_state_inv[OF 2(2), of key] by blast
    show ?thesis
    proof (cases "t > now")
      case True
      then show ?thesis using 2(2) Some x by (simp add: nx_def[symmetric] same_conf_def)
    next
      case False
      let ?a = "a\<lparr>states := (states a)(key := None), allocated_states := qa\<rparr>"
      obtain p' q2 a' where i: "port_expire now n None q' ?a = Some (p', q2, a')" "adapter_inv env a' gs" "same_conf ?a a'"
        "dom (states a') \<subseteq> dom (states ?a)" using 2(1)[OF Some[unfolded x nx_def] refl refl False r(1) r(2)] by blast
      have "dom (states ?a) \<subseteq> dom (states a)" by auto
      note d = order_trans[OF i(4) this]
      show ?thesis using i(1-3) d Some x False r(1)
        by (intro exI[of _ p'] exI[of _ q2] exI[of _ a']) (simp add: nx_def[symmetric] same_conf_def)
    qed
  qed
qed

text \<open>
  Every interleaving of the calls that the threads make: generation guards are taken, used or dropped unused, answers
  come in, states expire.
\<close>

inductive port_run :: "('f::linorder, 'r) port_env \<Rightarrow> 'f port_adapter \<Rightarrow> 'f port_state list \<Rightarrow> bool" for env where
  run_new: "port_run env (port_new g m eps b src) []"
| run_guard: "port_run env a gs \<Longrightarrow> gen_guard a = Some (s, a') \<Longrightarrow> port_run env a' (s # gs)"
| run_generate: "port_run env a (gs @ s # gs') \<Longrightarrow> generate env s addr r a = Some (t, r', a') \<Longrightarrow> port_run env a' (gs @ gs')"
| run_drop: "port_run env a (gs @ s # gs') \<Longrightarrow> port_run env a (gs @ gs')"
| run_result: "port_run env a gs \<Longrightarrow> port_on_result env addr port hash r a = Inr (t, r', a') \<Longrightarrow> port_run env a' gs"
| run_expire: "port_run env a gs \<Longrightarrow> port_expire now n p q a = Some (p', q', a') \<Longrightarrow> port_run env a' gs"

lemma adapter_inv_perm: "adapter_inv env a gs \<Longrightarrow> length gs' = length gs \<Longrightarrow> adapter_inv env a gs'"
  by (simp add: adapter_inv_def)

lemma port_run_inv: "port_run env a gs \<Longrightarrow> adapter_inv env a gs"
proof (induction rule: port_run.induct)
  case (run_new g m eps b src)
  then show ?case by (rule port_new_inv)
next
  case (run_guard a gs s a')
  then show ?case by (auto simp: gen_guard_def adapter_inv_def split: list.splits)
next
  case (run_generate a gs s gs' addr r t r' a')
  have "adapter_inv env a (s # gs @ gs')" by (rule adapter_inv_perm[OF run_generate(3)]) simp
  from generate_inv[OF this, of addr r] run_generate(2) show ?case by auto
next
  case (run_drop a gs s gs')
  then show ?case by (auto simp: adapter_inv_def)
next
  case (run_result a gs addr port hash r t r' a')
  then show ?case using port_on_result_inv[OF run_result(3), of addr port hash r] by (simp add: on_result_ok_def)
next
  case (run_expire a gs now n p q p' q' a')
  then show ?case using port_expire_inv[OF run_expire(3), of now n p q] by auto
qed

text \<open>
  C28. The pool of address states is conserved: in every interleaving of guards, generations, answers and expiries the
  states in flight, those in the pool and those held by guards together never exceed the configured number, so no
  return of a state to the bounded pool fails and none of these calls panics.
\<close>
theorem port_states_conserved:
  assumes "port_run env a gs"
  shows "card (dom (states a)) + length (allocated_states a) + length gs \<le> queue_capacity a
     \<and> (\<forall>s \<in> set gs. generate env s addr r a \<noteq> None)
     \<and> port_on_result env addr port hash r a \<noteq> Inl Port_panic
     \<and> port_expire now n p q a \<noteq> None"
proof -
  note inv = port_run_inv[OF assms]
  have "generate env s addr r a \<noteq> None" if s: "s \<in> set gs" for s
  proof -
    obtain g1 g2 where "gs = g1 @ s # g2" using split_list[OF s] by blast
    then have "adapter_inv env a (s # g1 @ g2)" by (intro adapter_inv_perm[OF inv]) simp
    then show ?thesis using generate_inv[of env a s "g1 @ g2" addr r] by auto
  qed
  moreover have "port_on_result env addr port hash r a \<noteq> Inl Port_panic"
    using port_on_result_inv[OF inv, of addr port hash r] by (auto split: sum.splits)
  moreover have "port_expire now n p q a \<noteq> None" using port_expire_inv[OF inv, of now n p q] by auto
  ultimately show ?thesis using inv by (simp add: adapter_inv_def)
qed


section \<open>The probes of one address\<close>

text \<open>
  The ports that follow the first probe of an address when each answer of the list (a banner hash, or none) is for the
  port probed last.
\<close>

fun probes :: "('f::linorder, 'r) port_env \<Rightarrow> ipv4 \<Rightarrow> u64 option list \<Rightarrow> u16 \<Rightarrow> 'r \<Rightarrow> 'f port_adapter \<Rightarrow> u16 list" where
  "probes env addr [] port r a = []"
| "probes env addr (h # hs) port r a =
     (case port_on_result env addr port h r a of
        Inr (Some t, r', a') \<Rightarrow> pt_destination_port t # probes env addr hs (pt_destination_port t) r' a'
      | _ \<Rightarrow> [])"

lemma probes_fresh:
  assumes "adapter_inv env a gs" "states a addr = Some s" "port \<notin> tried_ports s"
  shows "distinct (probes env addr hs port r a) \<and> set (probes env addr hs port r a) \<inter> insert port (tried_ports s) = {}
     \<and> length (probes env addr hs port r a) \<le> budget_remaining s - 1"
  using assms
proof (induction hs arbitrary: port r a s)
  case (Cons h hs)
  show ?case
  proof (cases "\<exists>t r' a'. port_on_result env addr port h r a = Inr (Some t, r', a')")
    case True
    then obtain t r' a' where e: "port_on_result env addr port h r a = Inr (Some t, r', a')" by blast
    then have "on_result_ok env a gs addr port (Some t) a'"
      using port_on_result_inv[OF Cons(2), of addr port h r] by simp
    then obtain s' where s': "adapter_inv env a' gs" "states a' addr = Some s'" "tried_ports s' = insert port (tried_ports s)"
      "budget_remaining s' = budget_remaining s - 1" "0 < budget_remaining s'" "pt_destination_port t \<notin> tried_ports s'"
      using Cons(3) by (auto simp: on_result_ok_def)
    from Cons(1)[OF s'(1,2,6), of r'] show ?thesis using e s' by auto
  next
    case False
    then have "probes env addr (h # hs) port r a = []" by (auto split: sum.split option.split)
    then show ?thesis by simp
  qed
qed simp


section \<open>Exploration ends\<close>

definition draw_at :: "('f, 'r) port_env \<Rightarrow> 'r \<Rightarrow> nat \<Rightarrow> u16" where
  "draw_at env r n = fst (explore_empty env (((\<lambda>r. snd (explore_empty env r)) ^^ n) r))"

lemma explore_loop_hits: "draw_at env r n \<notin> tried \<Longrightarrow> \<exists>y. explore_loop env tried r = Some y"
proof (induction n arbitrary: r)
  case 0
  then show ?case by (subst explore_loop.simps) (auto simp: draw_at_def split: prod.split)
next
  case (Suc n)
  have "draw_at env r (Suc n) = draw_at env (snd (explore_empty env r)) n"
    by (simp only: draw_at_def funpow_Suc_right o_apply)
  then have "\<exists>y. explore_loop env tried (snd (explore_empty env r)) = Some y" using Suc by metis
  then show ?case by (subst explore_loop.simps) (auto simp: Let_def split: prod.split)
qed

lemma untried_port:
  fixes tried :: "u16 set"
  assumes "card tried < 65535"
  shows "\<exists>p. p \<noteq> 0 \<and> p \<notin> tried"
proof (rule ccontr)
  assume "\<not> ?thesis"
  then have "UNIV - {0} \<subseteq> tried" by auto
  then have "card (UNIV - {0 :: u16}) \<le> card tried" by (intro card_mono) auto
  moreover have "card (UNIV - {0 :: u16}) = 65535" by (simp add: card_Diff_singleton card_word)
  ultimately show False using assms by simp
qed

text \<open>
  Exploration ends: with a generator that eventually draws every port, the search for a port that was not tried
  returns one, or reports that there is none exactly when 65535 ports were tried.
\<close>
theorem explore_ends:
  assumes fair: "\<forall>p. p \<noteq> 0 \<longrightarrow> (\<exists>n. draw_at env r n = p)"
  shows "\<exists>res r'. explore env tried r = Some (res, r')
     \<and> (case res of None \<Rightarrow> 65535 \<le> card tried | Some p \<Rightarrow> card tried < 65535 \<and> p \<notin> tried)"
proof (cases "65535 \<le> card tried")
  case True
  then show ?thesis by (simp add: explore_def)
next
  case False
  then have c: "card tried < 65535" by simp
  obtain p where p: "p \<noteq> 0" "p \<notin> tried" using untried_port[OF c] by blast
  obtain n where "draw_at env r n = p" using fair p(1) by blast
  then obtain y where y: "explore_loop env tried r = Some y" using explore_loop_hits[of env r n tried] p(2) by blast
  then show ?thesis using c explore_loop_untried[OF y] by (cases y) (simp add: explore_def)
qed

lemma sample_range:
  assumes "range_ok env" "pr_start rg \<le> pr_end rg"
  shows "pr_start rg \<le> fst (sample env rg r) \<and> fst (sample env rg r) \<le> pr_end rg"
  using assms by (cases rg) (auto simp: range_ok_def)


section \<open>A concrete strategy\<close>

text \<open>A generator that counts through the ports, and a graph with three ports.\<close>

definition demo_env :: "(nat, u16) port_env" where
  "demo_env = \<lparr>pe_ratio = \<lambda>a _. unat a, pe_unit = \<lambda>r. (5, r),
     pe_range = \<lambda>lo hi r. (if lo \<le> r \<and> r \<le> hi then r else lo, r + 1)\<rparr>"

definition demo_graph :: port_graph where
  "demo_graph = from_counts [(80, 5), (443, 7)] [((443, 80), 7)] 10 [22] 3"

definition demo_adapter :: "nat port_adapter" where
  "demo_adapter = port_new demo_graph 2 1 3 (Range 61000 62000)"

lemma demo_ratio: "ratio_ok demo_env"
  by (simp add: ratio_ok_def demo_env_def word_le_nat_alt)

lemma demo_recommend: "recommendations demo_graph = [443, 80, 22]" "singles demo_graph = [(80, 5), (443, 7)]"
  by (simp_all add: demo_graph_def from_counts_def)

lemma demo_draws: "draw_at demo_env r n = (if r + word_of_nat n = 0 then 1 else r + word_of_nat n)"
proof -
  have le: "(1 :: u16) \<le> x \<longleftrightarrow> x \<noteq> 0" "x \<le> (65535 :: u16)" for x
    using unat_bounds(2)[of x] by (simp_all add: word_le_nat_alt unat_gt_0 Suc_le_eq)
  have "((\<lambda>r. snd (explore_empty demo_env r)) ^^ n) r = r + word_of_nat n"
    by (induction n) (simp_all add: explore_empty_def demo_env_def add.assoc add.commute)
  then show ?thesis by (simp add: draw_at_def explore_empty_def) (simp add: demo_env_def le)
qed

theorem next_port_best_witness:
  "\<exists>s'. next_port demo_env demo_graph (ps_clear 0 3 port_state_default) = (Some 443, s')
     \<and> (\<forall>q \<in> candidates demo_graph (ps_clear 0 3 (port_state_default :: nat port_state)).
          prob demo_env demo_graph (ps_clear 0 3 port_state_default) q \<le> 7)"
proof -
  let ?s = "ps_clear 0 3 (port_state_default :: nat port_state)"
  obtain res s' where e: "next_port demo_env demo_graph ?s = (res, s')" by fastforce
  have "lh_top (lh_clear h) = (None, lh_clear h)" for h :: "(nat, u16) lazy_heap"
    by (simp add: lh_top_def lh_clear_def lh_clean.simps)
  then have r: "res = Some 443"
    using e by (simp add: next_port_def Let_def ps_clear_def pop_tried.simps skip_tried.simps recommend_at_def demo_recommend)
  have "prob demo_env demo_graph ?s 443 = 7"
    by (simp add: prob_def lh_query_def ps_clear_def lh_clear_def base_prob_def demo_recommend demo_env_def)
  moreover have "distinct (map fst [(80 :: u16, 5 :: u64), (443, 7)])" by simp
  ultimately show ?thesis
    using next_port_best[OF demo_graph_def _ demo_ratio ps_clear_inv e] e r by auto
qed

lemma demo_guard: "port_run demo_env (demo_adapter\<lparr>allocated_states := [port_state_default]\<rparr>) [port_state_default]"
proof -
  have "gen_guard demo_adapter = Some (port_state_default, demo_adapter\<lparr>allocated_states := [port_state_default]\<rparr>)"
    by (simp add: gen_guard_def demo_adapter_def port_new_def numeral_2_eq_2)
  with run_new show ?thesis unfolding demo_adapter_def by (rule run_guard)
qed

theorem port_states_conserved_witness:
  "generate demo_env port_state_default 7 1 (demo_adapter\<lparr>allocated_states := [port_state_default]\<rparr>) \<noteq> None"
  using port_states_conserved[OF demo_guard] by simp


theorem explore_ends_witness:
  "\<exists>p r'. explore demo_env {1, 2} 1 = Some (Some p, r') \<and> p \<notin> {1, 2}"
proof -
  have "\<exists>n. draw_at demo_env 1 n = p" if "p \<noteq> 0" for p
    using that by (intro exI[of _ "unat (p - 1)"]) (simp add: demo_draws)
  then have "\<forall>p. p \<noteq> 0 \<longrightarrow> (\<exists>n. draw_at demo_env 1 n = p)" by blast
  from explore_ends[OF this, of "{1, 2}"] show ?thesis by (auto split: option.splits)
qed

end
