(* ===== verification/Feeder.thy ===== *)
theory Feeder
  imports IpStrategy PortStrategy Deque
begin

text \<open>
  The feeder (\<^verbatim>\<open>controller/feeder.rs\<close>): it asks the address strategy for addresses and the port strategy for a first
  port each, and hands the targets, with their expiries, in batches to the two work-stealing queues
  (\<^verbatim>\<open>PmapPortBatcher\<close> of \<^verbatim>\<open>strategy/port/pmap.rs\<close>). The fields \<^verbatim>\<open>rate\<close>, \<^verbatim>\<open>tokens\<close> and \<^verbatim>\<open>last_refill\<close>, which nothing reads,
  and the back-off are left out. Both strategies draw from the feeder's generator.

  \<open>feeder_tick_targets\<close> shows what a tick queues; \<open>feeder_drops_last_batch\<close> that a tick in which the addresses run out
  queues nothing.
\<close>

section \<open>The feeder\<close>

type_synonym expiry = "nat \<times> ipv4"

record ('g, 'v, 'f) feeder =
  f_rng :: 'g
  f_index :: u64
  f_start :: nat
  f_duration :: nat
  f_timeout :: nat
  f_ip :: "'v ip_adapter"
  f_port :: "'f port_adapter"
  f_results :: "packet_template deque"
  f_expiries :: "expiry deque"
  f_batch_size :: nat
  result_batch :: "packet_template list"
  expiries_batch :: "expiry list"

definition feeder_new :: "'g \<Rightarrow> nat \<Rightarrow> nat \<Rightarrow> nat \<Rightarrow> nat \<Rightarrow> 'v ip_adapter \<Rightarrow> 'f port_adapter \<Rightarrow> ('g, 'v, 'f) feeder" where
  "feeder_new seeded now duration timeout batch_size ia pa =
     \<lparr>f_rng = seeded, f_index = 0, f_start = now, f_duration = duration, f_timeout = timeout, f_ip = ia, f_port = pa,
      f_results = worker_new, f_expiries = worker_new, f_batch_size = batch_size, result_batch = [], expiries_batch = []\<rparr>"

text \<open>\<^verbatim>\<open>batch\<close> pushes both batches; \<open>None\<close> is a push that leaves its buffer.\<close>

definition port_batch :: "packet_template list \<Rightarrow> expiry list \<Rightarrow> packet_template deque \<Rightarrow> expiry deque
    \<Rightarrow> (packet_template deque \<times> expiry deque) option" where
  "port_batch rs es results expiries = do {
     results \<leftarrow> push rs results;
     expiries \<leftarrow> push es expiries;
     Some (results, expiries) }"

text \<open>
  The loop of \<^verbatim>\<open>tick\<close>. A round without a free state is skipped; a guard that is dropped unused takes its state with it.
  The flag is the value \<^verbatim>\<open>tick\<close> returns early; \<open>None\<close> is a panic.
\<close>

fun feed_loop :: "('g, 'v::linorder) ip_env \<Rightarrow> ('f::linorder, 'g) port_env \<Rightarrow> nat \<Rightarrow> nat \<Rightarrow> ('g, 'v, 'f) feeder
    \<Rightarrow> (bool \<times> ('g, 'v, 'f) feeder) option" where
  "feed_loop ienv penv timeout 0 st = Some (False, st)"
| "feed_loop ienv penv timeout (Suc n) st =
     (case gen_guard (f_port st) of
        None \<Rightarrow> feed_loop ienv penv timeout n st
      | Some (s, pa) \<Rightarrow>
          (case next_address ienv (f_ip st) (f_index st) (f_rng st) of
             None \<Rightarrow> None
           | Some (None, ia, i, r) \<Rightarrow> Some (True, st\<lparr>f_port := pa, f_ip := ia, f_index := i, f_rng := r\<rparr>)
           | Some (Some addr, ia, i, r) \<Rightarrow>
               (case generate penv s addr r pa of
                  None \<Rightarrow> None
                | Some (t, r', pa') \<Rightarrow>
                    feed_loop ienv penv timeout n
                      (st\<lparr>f_port := pa', f_ip := ia, f_index := i, f_rng := r',
                         result_batch := result_batch st @ [t], expiries_batch := expiries_batch st @ [(timeout, addr)]\<rparr>))))"

definition feeder_tick :: "('g, 'v::linorder) ip_env \<Rightarrow> ('f::linorder, 'g) port_env \<Rightarrow> nat \<Rightarrow> ('g, 'v, 'f) feeder
    \<Rightarrow> (bool \<times> ('g, 'v, 'f) feeder) option" where
  "feeder_tick ienv penv now st =
     (if now - f_start st \<ge> f_duration st then Some (True, st)
      else (case feed_loop ienv penv (now + f_timeout st) (f_batch_size st) (st\<lparr>result_batch := [], expiries_batch := []\<rparr>) of
              None \<Rightarrow> None
            | Some (True, st) \<Rightarrow> Some (True, st)
            | Some (False, st) \<Rightarrow> do {
                (rs, es) \<leftarrow> port_batch (result_batch st) (expiries_batch st) (f_results st) (f_expiries st);
                Some (False, st\<lparr>f_results := rs, f_expiries := es\<rparr>) }))"

section \<open>What a tick queues\<close>

text \<open>
  The invariant: both strategies are in order and \<open>ret\<close> are the addresses handed out so far.
\<close>

definition feeder_inv :: "('g, 'v::linorder) ip_env \<Rightarrow> ('f::linorder, 'g) port_env \<Rightarrow> ipv4 list \<Rightarrow> ('g, 'v, 'f) feeder \<Rightarrow> bool" where
  "feeder_inv ienv penv ret st \<longleftrightarrow> ip_inv ienv (f_ip st) (f_index st) ret
     \<and> permutes_below ienv (ranges.count (ip_ranges (f_ip st))) \<and> adapter_inv penv (f_port st) []
     \<and> dq_valid (f_results st) \<and> dq_valid (f_expiries st)"

definition same_setup :: "('g, 'v, 'f) feeder \<Rightarrow> ('g, 'v, 'f) feeder \<Rightarrow> bool" where
  "same_setup st st' \<longleftrightarrow> f_results st' = f_results st \<and> f_expiries st' = f_expiries st \<and> ip_ranges (f_ip st') = ip_ranges (f_ip st)
     \<and> same_conf (f_port st) (f_port st') \<and> f_start st' = f_start st \<and> f_duration st' = f_duration st
     \<and> f_timeout st' = f_timeout st \<and> f_batch_size st' = f_batch_size st"

definition target_ok :: "('f::linorder, 'g) port_env \<Rightarrow> 'f port_adapter \<Rightarrow> packet_template \<Rightarrow> bool" where
  "target_ok penv a t \<longleftrightarrow> pt_source_port t \<in> range (\<lambda>r. fst (sample penv (source_port_range a) r))"

lemma same_setup_refl: "same_setup st st"
  by (simp add: same_setup_def same_conf_def)

lemma same_setup_trans: "same_setup a b \<Longrightarrow> same_setup b c \<Longrightarrow> same_setup a c"
  by (simp add: same_setup_def same_conf_def)

lemma gen_guard_inv: "adapter_inv env a [] \<Longrightarrow> gen_guard a = Some (s, a') \<Longrightarrow> adapter_inv env a' [s] \<and> same_conf a a'"
  by (auto simp: gen_guard_def adapter_inv_def same_conf_def split: list.splits)

text \<open>One round.\<close>

lemma feed_round:
  assumes inv: "feeder_inv ienv penv ret st" and g: "gen_guard (f_port st) = Some (s, pa)"
    and n: "next_address ienv (f_ip st) (f_index st) (f_rng st) = Some (Some addr, ia, i, r)"
  obtains (fed) t r' pa' where "generate penv s addr r pa = Some (t, r', pa')" "pt_ip t = addr" "target_ok penv (f_port st) t"
    "\<And>x y. feeder_inv ienv penv (ret @ [addr]) (st\<lparr>f_port := pa', f_ip := ia, f_index := i, f_rng := r', result_batch := x, expiries_batch := y\<rparr>)"
    "\<And>x y. same_setup st (st\<lparr>f_port := pa', f_ip := ia, f_index := i, f_rng := r', result_batch := x, expiries_batch := y\<rparr>)"
    "\<And>q. q \<noteq> addr \<Longrightarrow> states pa' q = states (f_port st) q" "states pa' addr \<noteq> None"
proof -
  have g': "adapter_inv penv pa [s]" "same_conf (f_port st) pa" "states pa = states (f_port st)"
    using gen_guard_inv[OF _ g] g inv by (auto simp: feeder_inv_def gen_guard_def split: list.splits)
  obtain t r' pa' where t: "generate penv s addr r pa = Some (t, r', pa')" "adapter_inv penv pa' []" "same_conf pa pa'" "pt_ip t = addr"
    "pt_source_port t \<in> range (\<lambda>r. fst (sample penv (source_port_range pa) r))" "\<forall>x. x \<noteq> addr \<longrightarrow> states pa' x = states pa x"
    "states pa' addr \<noteq> None"
    using generate_inv[OF g'(1), of addr r] by auto
  have i: "ip_inv ienv ia i (ret @ [addr])" "ip_ranges ia = ip_ranges (f_ip st)"
    using next_address_inv[of ienv "f_ip st" "f_index st" ret "f_rng st"] inv n by (auto simp: feeder_inv_def)
  show thesis
    by (rule fed[OF t(1,4)]) (use t i g' inv in \<open>auto simp: target_ok_def feeder_inv_def same_setup_def same_conf_def\<close>)
qed

lemma feed_loop_spec:
  assumes "feeder_inv ienv penv ret st"
  shows "\<exists>fin st' ts. feed_loop ienv penv timeout n st = Some (fin, st') \<and> feeder_inv ienv penv (ret @ map pt_ip ts) st' \<and> same_setup st st'
     \<and> result_batch st' = result_batch st @ ts \<and> expiries_batch st' = expiries_batch st @ map (\<lambda>t. (timeout, pt_ip t)) ts
     \<and> length ts \<le> n \<and> (\<forall>t \<in> set ts. target_ok penv (f_port st) t \<and> states (f_port st') (pt_ip t) \<noteq> None)
     \<and> (\<forall>q. states (f_port st) q \<noteq> None \<longrightarrow> states (f_port st') q \<noteq> None)
     \<and> dom (states (f_port st')) \<subseteq> dom (states (f_port st)) \<union> set (map pt_ip ts)"
  using assms
proof (induction n arbitrary: st ret)
  case 0
  then show ?case using same_setup_refl by (intro exI[of _ False] exI[of _ st] exI[of _ "[]"]) simp
next
  case (Suc n)
  show ?case
  proof (cases "gen_guard (f_port st)")
    case None
    then show ?thesis using Suc(1)[OF Suc(2)] by (force intro: le_SucI)
  next
    case (Some p)
    obtain s pa where g: "gen_guard (f_port st) = Some (s, pa)" using Some by (cases p) auto
    obtain x ia i r where n: "next_address ienv (f_ip st) (f_index st) (f_rng st) = Some (x, ia, i, r)"
      using next_address_inv[of ienv "f_ip st" "f_index st" ret "f_rng st"] Suc(2)
      by (cases "next_address ienv (f_ip st) (f_index st) (f_rng st)") (auto simp: feeder_inv_def)
    show ?thesis
    proof (cases x)
      case None
      let ?st = "st\<lparr>f_port := pa, f_ip := ia, f_index := i, f_rng := r\<rparr>"
      have "ip_inv ienv ia i ret" "ip_ranges ia = ip_ranges (f_ip st)"
        using next_address_inv[of ienv "f_ip st" "f_index st" ret "f_rng st"] Suc(2) n None by (auto simp: feeder_inv_def)
      moreover have "adapter_inv penv pa []" "same_conf (f_port st) pa" "states pa = states (f_port st)"
        using gen_guard_inv[OF _ g, of penv] Suc(2) g by (auto simp: feeder_inv_def adapter_inv_def gen_guard_def split: list.splits)
      ultimately show ?thesis using Suc(2) g n None
        by (intro exI[of _ True] exI[of _ ?st] exI[of _ "[]"]) (auto simp: feeder_inv_def same_setup_def)
    next
      case (Some addr)
      let ?fed = "\<lambda>t r' pa'. st\<lparr>f_port := pa', f_ip := ia, f_index := i, f_rng := r',
          result_batch := result_batch st @ [t], expiries_batch := expiries_batch st @ [(timeout, addr)]\<rparr>"
      obtain t r' pa' where t: "generate penv s addr r pa = Some (t, r', pa')" "pt_ip t = addr" "target_ok penv (f_port st) t"
        and i1: "feeder_inv ienv penv (ret @ [addr]) (?fed t r' pa')" and s1: "same_setup st (?fed t r' pa')"
        and st1: "\<And>q. q \<noteq> addr \<Longrightarrow> states pa' q = states (f_port st) q" "states pa' addr \<noteq> None"
        by (rule feed_round[OF Suc(2) g n[unfolded Some]]) blast
      let ?st1 = "?fed t r' pa'"
      obtain fin st' ts where l: "feed_loop ienv penv timeout n ?st1 = Some (fin, st')" "feeder_inv ienv penv ((ret @ [addr]) @ map pt_ip ts) st'"
        "same_setup ?st1 st'" "result_batch st' = result_batch ?st1 @ ts" "expiries_batch st' = expiries_batch ?st1 @ map (\<lambda>t. (timeout, pt_ip t)) ts"
        "length ts \<le> n" "\<forall>t \<in> set ts. target_ok penv (f_port ?st1) t \<and> states (f_port st') (pt_ip t) \<noteq> None"
        "\<forall>q. states (f_port ?st1) q \<noteq> None \<longrightarrow> states (f_port st') q \<noteq> None"
        "dom (states (f_port st')) \<subseteq> dom (states (f_port ?st1)) \<union> set (map pt_ip ts)"
        using Suc(1)[OF i1] by blast
      have "target_ok penv (f_port ?st1) u = target_ok penv (f_port st) u" for u
        using s1 by (simp add: target_ok_def same_setup_def same_conf_def)
      then have "\<forall>u \<in> set (t # ts). target_ok penv (f_port st) u \<and> states (f_port st') (pt_ip u) \<noteq> None"
        using l(7,8) t(2,3) st1(2) by simp
      moreover have "states (f_port st') q \<noteq> None" if "states (f_port st) q \<noteq> None" for q
        using that l(8) st1 by (cases "q = addr") auto
      moreover have "dom (states pa') \<subseteq> insert addr (dom (states (f_port st)))" using st1(1) by fastforce
      then have "dom (states (f_port st')) \<subseteq> dom (states (f_port st)) \<union> set (map pt_ip (t # ts))" using l(9) t(2) by simp blast
      moreover have "feed_loop ienv penv timeout (Suc n) st = Some (fin, st')" using g n Some t(1) l(1) by simp
      ultimately show ?thesis using l same_setup_trans[OF s1 l(3)] t(2)
        by (intro exI[of _ fin] exI[of _ st'] exI[of _ "t # ts"]) simp
    qed
  qed
qed

lemma feeder_tick_spec:
  assumes inv: "feeder_inv ienv penv ret st"
    and fits: "\<forall>n \<le> f_batch_size st. dq_fits n (f_results st) \<and> dq_fits n (f_expiries st)"
  obtains (ticked) fin st' ts where "feeder_tick ienv penv now st = Some (fin, st')" "feeder_inv ienv penv (ret @ map pt_ip ts) st'"
    "distinct (ret @ map pt_ip ts)" "length ts \<le> f_batch_size st"
    "\<forall>t \<in> set ts. target_ok penv (f_port st) t \<and> states (f_port st') (pt_ip t) \<noteq> None"
    "if fin then f_results st' = f_results st \<and> f_expiries st' = f_expiries st
     else dq_items (f_results st') = dq_items (f_results st) @ ts
       \<and> dq_items (f_expiries st') = dq_items (f_expiries st) @ map (\<lambda>t. (now + f_timeout st, pt_ip t)) ts"
    "ip_ranges (f_ip st') = ip_ranges (f_ip st)" "same_conf (f_port st) (f_port st')"
    "dom (states (f_port st')) \<subseteq> dom (states (f_port st)) \<union> set (map pt_ip ts)"
proof (cases "now - f_start st \<ge> f_duration st")
  case True
  then show thesis using inv by (intro ticked[of True st "[]"]) (auto simp: feeder_tick_def feeder_inv_def ip_inv_def same_conf_def)
next
  case False
  let ?st = "st\<lparr>result_batch := [], expiries_batch := []\<rparr>"
  have "feeder_inv ienv penv ret ?st" using inv by (simp add: feeder_inv_def)
  then obtain fin st1 ts where l: "feed_loop ienv penv (now + f_timeout st) (f_batch_size st) ?st = Some (fin, st1)"
    and i1: "feeder_inv ienv penv (ret @ map pt_ip ts) st1" and s1: "same_setup ?st st1" and b: "result_batch st1 = ts"
    "expiries_batch st1 = map (\<lambda>t. (now + f_timeout st, pt_ip t)) ts" "length ts \<le> f_batch_size st"
    and ok: "\<forall>t \<in> set ts. target_ok penv (f_port st) t \<and> states (f_port st1) (pt_ip t) \<noteq> None"
    and dm: "dom (states (f_port st1)) \<subseteq> dom (states (f_port st)) \<union> set (map pt_ip ts)"
    using feed_loop_spec[of ienv penv ret ?st "now + f_timeout st" "f_batch_size st"] by auto
  have d: "distinct (ret @ map pt_ip ts)" using i1 by (simp add: feeder_inv_def ip_inv_def)
  have q: "f_results st1 = f_results st" "f_expiries st1 = f_expiries st" "ip_ranges (f_ip st1) = ip_ranges (f_ip st)"
    "same_conf (f_port st) (f_port st1)" using s1 by (simp_all add: same_setup_def)
  show thesis
  proof (cases fin)
    case True
    then have "feeder_tick ienv penv now st = Some (True, st1)" using False l by (simp add: feeder_tick_def)
    then show thesis using i1 d b(3) ok q dm by (intro ticked[of True st1 ts]) simp_all
  next
    case nf: False
    have v: "dq_valid (f_results st)" "dq_valid (f_expiries st)" using inv by (simp_all add: feeder_inv_def)
    obtain rs where rs: "push ts (f_results st) = Some rs" "dq_valid rs" "dq_items rs = dq_items (f_results st) @ ts"
      using dqi.put_items[OF v(1), of ts] fits b(3) by auto
    obtain es where es: "push (map (\<lambda>t. (now + f_timeout st, pt_ip t)) ts) (f_expiries st) = Some es" "dq_valid es"
      "dq_items es = dq_items (f_expiries st) @ map (\<lambda>t. (now + f_timeout st, pt_ip t)) ts"
      using dqi.put_items[OF v(2), of "map (\<lambda>t. (now + f_timeout st, pt_ip t)) ts"] fits b(3) by auto
    let ?st' = "st1\<lparr>f_results := rs, f_expiries := es\<rparr>"
    have "feeder_tick ienv penv now st = Some (False, ?st')" using False l nf b q rs(1) es(1) by (simp add: feeder_tick_def port_batch_def)
    then show thesis using i1 d b(3) ok rs es q(3,4) dm by (intro ticked[of False ?st' ts]) (simp_all add: feeder_inv_def)
  qed
qed


section \<open>The last batch\<close>

lemma generate_pool: "generate env s addr r a = Some (t, r', a') \<Longrightarrow> length (allocated_states a) \<le> length (allocated_states a')"
  by (auto simp: generate_def push_state_def Let_def split: option.splits prod.splits if_splits)

lemma ip_inv_count:
  assumes "ip_inv env self i ret"
  shows "length ret \<le> card {a. drop_bit 8 a \<in> blocks (scope self)}"
proof -
  have "distinct ret" using assms by (simp add: ip_inv_def)
  then have "length ret = card (set ret)" by (simp add: distinct_card)
  also have "\<dots> \<le> card {a. drop_bit 8 a \<in> blocks (scope self)}" using ip_in_blocks[OF assms] by (intro card_mono) auto
  finally show ?thesis .
qed

lemma feed_loop_exhausts:
  assumes "feeder_inv ienv penv ret st" "card {a. drop_bit 8 a \<in> blocks (scope (f_ip st))} < n + length ret"
    "n \<le> length (allocated_states (f_port st))"
  shows "\<exists>st'. feed_loop ienv penv timeout n st = Some (True, st')"
  using assms
proof (induction n arbitrary: st ret)
  case 0
  then show ?case using ip_inv_count[of ienv "f_ip st" "f_index st" ret] by (simp add: feeder_inv_def)
next
  case (Suc n)
  obtain s pa where g: "gen_guard (f_port st) = Some (s, pa)" "length (allocated_states pa) = length (allocated_states (f_port st)) - 1"
    using Suc(4) by (cases "allocated_states (f_port st)") (auto simp: gen_guard_def)
  obtain x ia i r where n: "next_address ienv (f_ip st) (f_index st) (f_rng st) = Some (x, ia, i, r)"
    using next_address_inv[of ienv "f_ip st" "f_index st" ret "f_rng st"] Suc(2)
    by (cases "next_address ienv (f_ip st) (f_index st) (f_rng st)") (auto simp: feeder_inv_def)
  show ?case
  proof (cases x)
    case None
    then show ?thesis using g n by simp
  next
    case (Some addr)
    let ?fed = "\<lambda>t r' pa'. st\<lparr>f_port := pa', f_ip := ia, f_index := i, f_rng := r',
        result_batch := result_batch st @ [t], expiries_batch := expiries_batch st @ [(timeout, addr)]\<rparr>"
    obtain t r' pa' where t: "generate penv s addr r pa = Some (t, r', pa')"
      and i1: "feeder_inv ienv penv (ret @ [addr]) (?fed t r' pa')" and s1: "same_setup st (?fed t r' pa')"
      by (rule feed_round[OF Suc(2) g(1) n[unfolded Some]]) blast
    let ?st1 = "?fed t r' pa'"
    have "\<exists>st'. feed_loop ienv penv timeout n ?st1 = Some (True, st')"
      using Suc(1)[OF i1] Suc(3,4) s1 generate_pool[OF t] g(2) by (simp add: same_setup_def)
    then show ?thesis using g(1) n Some t by simp
  qed
qed

text \<open>
  The last batch is thrown away: if the /24 prefixes that meet the scope have fewer addresses than a batch, the first tick
  takes them all, ends the session and queues none of them.
\<close>
theorem feeder_drops_last_batch:
  assumes inv: "feeder_inv ienv penv ret st" and time: "now - f_start st < f_duration st"
    and small: "card {a. drop_bit 8 a \<in> blocks (scope (f_ip st))} < f_batch_size st"
    and pool: "f_batch_size st \<le> length (allocated_states (f_port st))"
  shows "\<exists>st'. feeder_tick ienv penv now st = Some (True, st') \<and> f_results st' = f_results st"
proof -
  let ?st = "st\<lparr>result_batch := [], expiries_batch := []\<rparr>"
  have i: "feeder_inv ienv penv ret ?st" using inv by (simp add: feeder_inv_def)
  obtain st' where l: "feed_loop ienv penv (now + f_timeout st) (f_batch_size st) ?st = Some (True, st')"
    using feed_loop_exhausts[OF i, of "f_batch_size st"] small pool by auto
  then have "f_results st' = f_results st"
    using feed_loop_spec[OF i, of "now + f_timeout st" "f_batch_size st"] by (auto simp: same_setup_def)
  then show ?thesis using l time by (simp add: feeder_tick_def)
qed

section \<open>A concrete feeder\<close>

definition demo_ip_env :: "(u16, nat) ip_env" where
  "demo_ip_env = \<lparr>random_unit = (\<lambda>g. (1, g)), random_256 = (\<lambda>g. (3, g)), as_f64 = unat, plus_one = Suc, shuffle = (\<lambda>i. i)\<rparr>"

definition demo_feeder :: "nat \<Rightarrow> (u16, nat, nat) feeder" where
  "demo_feeder n = feeder_new 0 0 10 5 n (ip_new demo_scope IpStrategy.demo_graph 0)
     (port_new PortStrategy.demo_graph n 1 3 (Range 61000 62000))"

lemma worker_new_valid: "dq_valid worker_new"
  using worker_new_ok by (auto simp: dq_valid_def)

lemma worker_new_items: "dq_items worker_new = []"
  by (simp add: dq_items_def dq_contents_def worker_new_def ring_read_def)

lemma demo_feeder_inv: "feeder_inv demo_ip_env PortStrategy.demo_env [] (demo_feeder n)"
proof -
  have p: "permutes_below demo_ip_env k" for k by (simp add: permutes_below_def demo_ip_env_def bij_betw_def inj_on_def)
  have "ip_run demo_ip_env demo_scope (ip_new demo_scope IpStrategy.demo_graph (0 :: nat)) 0 []" by (rule ir_start)
  from ip_run_inv[OF this demo_scope_facts(1) p] show ?thesis
    using p by (auto intro: port_new_inv worker_new_valid simp: feeder_inv_def demo_feeder_def feeder_new_def)
qed

lemma worker_new_fits: "n \<le> 64 \<Longrightarrow> dq_fits n worker_new"
  by (simp add: dq_fits_def push_room_def push_check_def worker_new_def cur_buf_def buffer_alloc_def MIN_CAP_def)


theorem feeder_drops_last_batch_witness:
  "\<exists>st'. feeder_tick demo_ip_env PortStrategy.demo_env 1 (demo_feeder 257) = Some (True, st') \<and> f_results st' = worker_new"
proof -
  have b: "drop_bit 8 (0x0A000007 :: u32) = 0x0A0000" by (simp add: drop_bit_eq_div)
  have sc: "scope (f_ip (demo_feeder 257)) = {0x0A000007}" by (simp add: demo_feeder_def feeder_new_def ip_new_def demo_scope_facts)
  have "{a. drop_bit 8 a \<in> blocks (scope (f_ip (demo_feeder 257)))} \<subseteq> compose 0x0A0000 ` (UNIV :: u8 set)"
  proof
    fix a :: u32 assume "a \<in> {a. drop_bit 8 a \<in> blocks (scope (f_ip (demo_feeder 257)))}"
    then have "drop_bit 8 a = 0x0A0000" using sc b by simp
    then show "a \<in> compose 0x0A0000 ` UNIV" using compose_split[of a] by (metis rangeI)
  qed
  then have "card {a. drop_bit 8 a \<in> blocks (scope (f_ip (demo_feeder 257)))} \<le> card (UNIV :: u8 set)"
    by (meson card_image_le card_mono finite order_trans)
  then have "card {a. drop_bit 8 a \<in> blocks (scope (f_ip (demo_feeder 257)))} < 257" by (simp add: card_word)
  then show ?thesis using feeder_drops_last_batch[OF demo_feeder_inv, of 1 257]
    by (simp add: demo_feeder_def feeder_new_def port_new_def)
qed

end
