(* ===== verification/Strategies.thy ===== *)
theory Strategies
  imports Saturator Feeder
begin

text \<open>
  The responder with the strategies of the program: \<^verbatim>\<open>main.rs\<close> runs its sessions with \<^verbatim>\<open>PmapPortAdapter\<close> and \<^verbatim>\<open>PmapIpAdapter\<close>,
  so the methods that the responder calls are those of \<open>PortStrategy\<close> and \<open>IpStrategy\<close>.

  The responder relies on the interface \<open>strategies\<close>: answers keep the strategies in order and ask only for probes that are
  allowed. In return the interface's lemmas say what a tick keeps: only hosts that were probed get connection
  records, and only allowed probes are sent.
\<close>

section \<open>The environment\<close>

text \<open>A call of \<^verbatim>\<open>on_result\<close> that does not return and one that panics are both \<open>None\<close>; \<open>strategy_port_no_panic\<close> excludes the second.\<close>

definition strategy_env :: "('f::linorder, 'g) port_env \<Rightarrow> ('g, 'v::linorder) ip_env \<Rightarrow> (ipv4 \<Rightarrow> u16 \<Rightarrow> bytes option)
    \<Rightarrow> (bytes \<Rightarrow> parse_error + 'p) \<Rightarrow> ('p \<Rightarrow> u64) \<Rightarrow> ('f port_adapter, 'v ip_adapter, 'p, 'g) resp_env" where
  "strategy_env penv ienv payload parser hash =
     \<lparr>port_result = \<lambda>ip port h r a. (case port_on_result penv ip port h r a of Inl _ \<Rightarrow> None | Inr x \<Rightarrow> Some x),
      ip_result = \<lambda>ip a. on_result ienv a ip, payload_build = payload, parser_parse = parser, hash64 = hash\<rparr>"

section \<open>Batches\<close>

text \<open>The packets of a batch as they were received.\<close>

definition batch_data :: "layout \<Rightarrow> batch_guard \<Rightarrow> bytes set" where
  "batch_data L g = (\<lambda>i. case packet_at (l_rx L) (rx_start g + word_of_nat i) of (addr, n) \<Rightarrow> read_bytes (l_mem L) addr n) ` {..<unat (bg_count g)}"

lemma process_batch_keeps:
  assumes "resp_inv L st" "payloads_fit (l_frame L) env" "batch_ok L g" "P st"
    and "\<And>now d st. d \<in> batch_data L g \<Longrightarrow> P st \<Longrightarrow> keeps P (process_packet env now d st)"
    and "\<And>st rc. P st \<Longrightarrow> P (st\<lparr>rs_receiver := rc\<rparr>)"
    and "process_batch env clock n g st = (oc, g', st')"
  shows "P st'"
  using assms
proof (induction n arbitrary: g st)
  case (Suc n)
  show ?case
  proof (cases "cursor g \<ge> bg_count g")
    case True
    then show ?thesis using Suc by (simp add: bg_next_def)
  next
    case False
    let ?rc = "give_back (cursor g) g (rs_receiver st)" and ?g = "g\<lparr>cursor := cursor g + 1\<rparr>"
    obtain addr len where p: "packet_at (rx (rs_receiver st)) (rx_start g + cursor g) = (addr, len)" by fastforce
    then have b: "bg_next g (rs_receiver st) = Some ((addr, len), ?g, ?rc)"
      using False by (simp add: bg_next_def Let_def packet_at_def XSK_UNALIGNED_BUF_OFFSET_SHIFT_def)
    have inv: "resp_inv L (st\<lparr>rs_receiver := ?rc\<rparr>)"
      using Suc(2) by (simp add: resp_inv_def conns_ok_def sender_ready_def give_back_def)
    have lt: "unat (cursor g) < unat (bg_count g)" using False by (simp add: word_le_nat_alt)
    have p': "packet_at (l_rx L) (rx_start g + word_of_nat (unat (cursor g))) = (addr, len)"
      using p Suc(2) by (simp add: resp_inv_def)
    have o: "outside L addr len" "tcp_frame (read_bytes (l_mem L) addr len)"
      using Suc(4) lt p' unfolding batch_ok_def by (auto dest!: spec[of _ "unat (cursor g)"])
    then have m: "read_bytes (rs_memory st) addr len = read_bytes (l_mem L) addr len"
      using Suc(2) by (simp add: resp_inv_def sender_ready_def)
    have d: "read_bytes (rs_memory st) addr len \<in> batch_data L g"
      unfolding batch_data_def m by (rule image_eqI[of _ _ "unat (cursor g)"]) (use p' lt in auto)
    obtain oc1 st1 where r: "process_packet env (clock (unat (cursor g))) (read_bytes (rs_memory st) addr len)
        (st\<lparr>rs_receiver := ?rc\<rparr>) = (oc1, st1)" by fastforce
    have s1: "resp_inv L st1"
      using process_packet_safe[OF inv Suc(3) view_in_bounds] o(2) m r by (metis safe_pair)
    have p1: "P st1" using Suc(6)[OF d Suc(7)[OF Suc(5)], of "clock (unat (cursor g))" ?rc] r by simp
    have "batch_ok L ?g" "batch_data L ?g = batch_data L g" using Suc(4) by (simp_all add: batch_ok_def batch_data_def)
    from Suc(1)[OF s1 Suc(3) this(1) p1] Suc(6,7) this(2) show ?thesis
      using Suc(8) b r p1 by (cases oc1) auto
  qed
qed simp

lemma responder_tick_keeps:
  assumes conns: "conns_ok st" and ready: "sender_ready L st" and fit: "payloads_fit (l_frame L) env"
    and batch: "\<And>g rc. receive ob (rs_receiver st) = (Inr (Some g), rc) \<Longrightarrow> batch_ok (L\<lparr>l_rx := rx rc\<rparr>) g"
    and P: "P st"
    and packets: "\<And>g rc now d st'. receive ob (rs_receiver st) = (Inr (Some g), rc) \<Longrightarrow> d \<in> batch_data (L\<lparr>l_rx := rx rc\<rparr>) g
        \<Longrightarrow> P st' \<Longrightarrow> keeps P (process_packet env now d st')"
    and empty: "\<And>s k ip port. P s \<Longrightarrow> keeps P (record_empty env ip port (s\<lparr>connections := (connections s)(k := None)\<rparr>))"
    and fields: "\<And>s e q. P s \<Longrightarrow> P (s\<lparr>pending_expiry := e, expiries := q\<rparr>)" "\<And>s rc. P s \<Longrightarrow> P (s\<lparr>rs_receiver := rc\<rparr>)"
    and t: "responder_tick env ob clock now filled st = (res, filled', st')"
  shows "P st'"
proof (cases "receive ob (rs_receiver st)")
  case (Pair x rc)
  have inv: "resp_inv (L\<lparr>l_rx := rx rc\<rparr>) (st\<lparr>rs_receiver := rc\<rparr>)"
    using conns ready by (simp add: resp_inv_def conns_ok_def sender_ready_def outside_def)
  have P1: "P (st\<lparr>rs_receiver := rc\<rparr>)" using P fields(2) by blast
  show ?thesis
  proof (cases "\<exists>g. x = Inr (Some g)")
    case False
    then show ?thesis using t Pair P1 by (auto simp: responder_tick_def split: sum.splits option.splits)
  next
    case True
    then obtain g where x: "x = Inr (Some g)" by blast
    obtain oc g1 st1 where b: "process_batch env clock (unat (bg_count g)) g (st\<lparr>rs_receiver := rc\<rparr>) = (oc, g1, st1)"
      by (metis prod_cases3)
    have "P st1"
      by (rule process_batch_keeps[OF inv _ batch[OF Pair[unfolded x]] P1 packets[OF Pair[unfolded x]] _ b]) (use fit fields(2) in auto)
    define st2 where "st2 = st1\<lparr>rs_receiver := snd (bg_drop g1 filled (rs_receiver st1))\<rparr>"
    define q where "q = (case pending_expiry st2 of None \<Rightarrow> expiries st2 | Some e \<Rightarrow> e # expiries st2)"
    obtain oc3 st3 where e3: "expire_conns env now q st2 = (oc3, st3)" by fastforce
    have "keeps P (expire_conns env now q st2)"
      unfolding st2_def using \<open>P st1\<close> by (intro expire_conns_keeps empty fields)
    then have "P st3" using e3 by simp
    moreover have "st' = st1 \<or> st' = st3"
      using t Pair x b e3 by (cases oc) (auto simp: responder_tick_def Let_def st2_def q_def split: prod.splits cong: option.case_cong)
    ultimately show ?thesis using \<open>P st1\<close> by blast
  qed
qed

section \<open>What the responder relies on\<close>

text \<open>
  The strategies in order, connections only to \<open>known\<close> hosts, and only SYN segments that are allowed.
\<close>

definition sound :: "('a \<Rightarrow> bool) \<Rightarrow> ('i \<Rightarrow> bool) \<Rightarrow> ipv4 set \<Rightarrow> (packet_template \<Rightarrow> bool) \<Rightarrow> u64 \<Rightarrow> ('a, 'i, 'p, 'r) responder \<Rightarrow> bool" where
  "sound pinv iinv known probe seed st \<longleftrightarrow> pinv (port_adapter st) \<and> iinv (ip_adapter st) \<and> rs_seed st = seed
     \<and> (\<forall>k. connections st k \<noteq> None \<longrightarrow> fst k \<in> known) \<and> (\<forall>t. Call_syn t \<in> set (sends st) \<longrightarrow> probe t)"

lemma sound_fields [simp]:
  "sound pinv iinv known probe seed (st\<lparr>expiries := q\<rparr>) \<longleftrightarrow> sound pinv iinv known probe seed st"
  "sound pinv iinv known probe seed (st\<lparr>pending_expiry := e\<rparr>) \<longleftrightarrow> sound pinv iinv known probe seed st"
  "sound pinv iinv known probe seed (st\<lparr>scanlings := l\<rparr>) \<longleftrightarrow> sound pinv iinv known probe seed st"
  "sound pinv iinv known probe seed (st\<lparr>rs_receiver := rc\<rparr>) \<longleftrightarrow> sound pinv iinv known probe seed st"
  "sound pinv iinv known probe seed (st\<lparr>rs_memory := mem\<rparr>) \<longleftrightarrow> sound pinv iinv known probe seed st"
  "sound pinv iinv known probe seed (st\<lparr>rs_completer := c\<rparr>) \<longleftrightarrow> sound pinv iinv known probe seed st"
  "sound pinv iinv known probe seed (st\<lparr>connections := m, expiries := q\<rparr>) \<longleftrightarrow> sound pinv iinv known probe seed (st\<lparr>connections := m\<rparr>)"
  "sound pinv iinv known probe seed (st\<lparr>expiries := q, connections := m\<rparr>) \<longleftrightarrow> sound pinv iinv known probe seed (st\<lparr>connections := m\<rparr>)"
  by (simp_all add: sound_def)

lemma sound_conns:
  "sound pinv iinv known probe seed st \<Longrightarrow> sound pinv iinv known probe seed (st\<lparr>connections := (connections st)(k := None)\<rparr>)"
  "sound pinv iinv known probe seed st \<Longrightarrow> fst k \<in> known \<Longrightarrow> sound pinv iinv known probe seed (st\<lparr>connections := (connections st)(k \<mapsto> c)\<rparr>)"
  by (auto simp: sound_def)

lemma sound_known: "sound pinv iinv known probe seed st \<Longrightarrow> connections st (ip, port) = Some c \<Longrightarrow> ip \<in> known"
  unfolding sound_def by (metis fst_conv option.distinct(1))

lemma do_call_adapters:
  "ensures (\<lambda>_ st'. port_adapter st' = port_adapter st \<and> set (sends st') \<subseteq> insert c (set (sends st))) (do_call c st)"
  by (auto simp: do_call_def split: list.split prod.split)

lemma sound_call:
  assumes "sound pinv iinv known probe seed st" "\<And>t. c = Call_syn t \<Longrightarrow> probe t"
  shows "keeps (sound pinv iinv known probe seed) (do_call c st)"
  using do_call_frame[of st c] do_call_adapters[of st c] assms by (auto simp: keeps_def ensures_def conn_frame_def sound_def)

text \<open>Nobody guesses a cookie: a SYN/ACK that acknowledges one comes from a host that was probed.\<close>

definition answers_from :: "ipv4 set \<Rightarrow> u64 \<Rightarrow> rx_obs \<Rightarrow> ('a, 'i, 'p, 'r) responder \<Rightarrow> bool" where
  "answers_from known seed ob rsp \<longleftrightarrow> (\<forall>g rc. receive ob (rs_receiver rsp) = (Inr (Some g), rc) \<longrightarrow>
     (\<forall>i < unat (bg_count g). case packet_at (rx rc) (rx_start g + word_of_nat i) of (addr, n) \<Rightarrow>
        \<forall>ip port. valid_syn_ack seed ip port (read_bytes (rs_memory rsp) addr n) \<longrightarrow> ip \<in> known))"

locale strategies =
  fixes env :: "('a, 'i, 'p, 'r) resp_env" and pinv :: "'a \<Rightarrow> bool" and iinv :: "'i \<Rightarrow> bool" and known :: "ipv4 set"
    and probe :: "packet_template \<Rightarrow> bool"
  assumes port_ok: "pinv a \<Longrightarrow> port_result env ip port h r a = Some (res, r', a') \<Longrightarrow> pinv a' \<and> (\<forall>t. res = Some t \<longrightarrow> probe t)"
    and ip_ok: "iinv i \<Longrightarrow> ip \<in> known \<Longrightarrow> iinv (ip_result env ip i)"
begin

lemma sound_result: "sound pinv iinv known probe seed st \<Longrightarrow> keeps (sound pinv iinv known probe seed) (record_result env ip port h st)"
proof (cases "port_result env ip port h (rs_rng st) (port_adapter st)")
  case (Some x)
  obtain res r a where x: "x = (res, r, a)" by (metis prod_cases3)
  assume s: "sound pinv iinv known probe seed st"
  then have "pinv a \<and> (\<forall>t. res = Some t \<longrightarrow> probe t)" using port_ok[OF _ Some[unfolded x]] by (simp add: sound_def)
  moreover have "sound pinv iinv known probe seed (st\<lparr>rs_rng := r, port_adapter := a\<rparr>)" if "pinv a"
    using s that by (simp add: sound_def)
  ultimately show ?thesis using Some x by (cases res) (auto simp: record_result_def Let_def intro!: sound_call)
qed (simp add: record_result_def)

lemma sound_ip:
  "sound pinv iinv known probe seed st \<Longrightarrow> ip \<in> known \<Longrightarrow> i = ip_adapter st \<Longrightarrow> sound pinv iinv known probe seed (st\<lparr>ip_adapter := ip_result env ip i\<rparr>)"
  using ip_ok by (simp add: sound_def)

lemmas sound_rules = keeps_then sound_call sound_result sound_conns sound_ip

lemma sound_packet:
  assumes s: "sound pinv iinv known probe seed st" and v: "\<And>ip port. valid_syn_ack seed ip port d \<Longrightarrow> ip \<in> known"
  shows "keeps (sound pinv iinv known probe seed) (process_packet env now d st)"
proof (cases "view_packet d")
  case (Segment ip hdr payload)
  have seed: "rs_seed st = seed" using s by (simp add: sound_def)
  have fin: "keeps (sound pinv iinv known probe seed) (process_fin env ip hdr payload st)"
    unfolding process_fin_def Let_def record_empty_def record_hit_def
    using s by (auto intro!: sound_rules dest: sound_known split: option.split sum.split parse_error.split)
  have syn: "keeps (sound pinv iinv known probe seed) (process_syn_ack env now ip hdr st)" if "contains_flags (th_flags hdr) (Syn OR Ack)"
    unfolding process_syn_ack_def Let_def record_empty_def
    using s v[of ip "th_source_port hdr"] that Segment seed
    by (auto simp: valid_syn_ack_def intro!: sound_rules split: option.split)
  have ack: "keeps (sound pinv iinv known probe seed) (process_ack env ip hdr payload st)"
  proof (cases "connections st (ip, th_source_port hdr)")
    case None
    then show ?thesis using s by (auto simp: process_ack_def Let_def record_empty_def intro!: sound_rules)
  next
    case (Some c)
    then show ?thesis
      unfolding process_ack_def Let_def record_empty_def record_hit_def
      using s sound_known[OF s Some] by (auto intro!: sound_rules split: sum.split parse_error.split prod.split)
  qed
  show ?thesis
    using Segment s fin syn ack by (auto simp: process_packet_def Let_def record_empty_def intro!: sound_rules)
qed (use s in \<open>simp_all add: process_packet_def\<close>)

lemma sound_tick:
  assumes "conns_ok st" "sender_ready L st" "payloads_fit (l_frame L) env"
    and "\<And>g rc. receive ob (rs_receiver st) = (Inr (Some g), rc) \<Longrightarrow> batch_ok (L\<lparr>l_rx := rx rc\<rparr>) g"
    and "\<And>g rc d ip port. receive ob (rs_receiver st) = (Inr (Some g), rc) \<Longrightarrow> d \<in> batch_data (L\<lparr>l_rx := rx rc\<rparr>) g
        \<Longrightarrow> valid_syn_ack seed ip port d \<Longrightarrow> ip \<in> known"
    and "sound pinv iinv known probe seed st" "responder_tick env ob clock now filled st = (res, filled', st')"
  shows "sound pinv iinv known probe seed st'"
  by (rule responder_tick_keeps[where P = "sound pinv iinv known probe seed", OF assms(1-4,6) _ _ _ _ assms(7)])
     (auto simp: record_empty_def intro!: sound_packet sound_result sound_conns dest: assms(5))

lemma sound_round:
  assumes inv: "sat_inv S st" and pk: "packets_ok S (ob_rx ob) (sat_responder st)" and fit: "payloads_fit (sl_frame S) env"
    and own: "answers_from known seed (ob_rx ob) (sat_responder st)"
    and s: "sound pinv iinv known probe seed (sat_responder st)"
    and r: "saturator_round env ob filled st = (res, filled', st')"
  shows "sound pinv iinv known probe seed (sat_responder st')"
proof -
  let ?rsp = "sat_responder st"
  obtain a sc mem cmp where sc: "scanner_tick (ob_steals ob) (ob_waits ob) (ob_flags ob) (ob_sendto ob) (sat_scanner st)
      (rs_memory ?rsp) (rs_completer ?rsp) = (a, sc, mem, cmp)" by (metis prod_cases4)
  define rsp1 where "rsp1 = ?rsp\<lparr>rs_memory := mem, rs_completer := cmp\<rparr>"
  note a = after_scanner[OF inv pk sc, folded rsp1_def]
  have lay: "layout_ok S" using inv by (simp add: sat_inv_def)
  let ?L = "resp_layout S (rs_memory rsp1)"
  obtain t fl rsp2 where t: "responder_tick env (ob_rx ob) (ob_clock ob) (ob_now ob) filled rsp1 = (t, fl, rsp2)"
    by (metis prod_cases3)
  have ready: "sender_ready ?L rsp1" using a(2) by (simp add: sender_ready_fits)
  have fit': "payloads_fit (l_frame ?L) env" using fit by (simp add: resp_layout_def)
  have s1: "sound pinv iinv known probe seed rsp1" using s by (simp add: rsp1_def)
  have known: "ip \<in> known"
    if rcv: "receive (ob_rx ob) (rs_receiver rsp1) = (Inr (Some g), rc)" and d: "d \<in> batch_data (?L\<lparr>l_rx := rx rc\<rparr>) g"
      and v: "valid_syn_ack seed ip port d" for g rc d ip port
  proof -
    obtain i where i: "i < unat (bg_count g)"
      "d = (case packet_at (rx rc) (rx_start g + word_of_nat i) of (addr, n) \<Rightarrow> read_bytes mem addr n)"
      using d by (auto simp: batch_data_def resp_layout_def rsp1_def)
    obtain addr n where p: "packet_at (rx rc) (rx_start g + word_of_nat i) = (addr, n)" by fastforce
    have rcv': "receive (ob_rx ob) (rs_receiver ?rsp) = (Inr (Some g), rc)" using rcv by (simp add: rsp1_def)
    have "sl_rx S * sl_frame S \<le> addr" using pk rcv' i(1) p unfolding packets_ok_def by fastforce
    then have "d = read_bytes (rs_memory ?rsp) addr n" using i(2) p a(6) by simp
    then show ?thesis using own rcv' i(1) p v unfolding answers_from_def by fastforce
  qed
  have s2: "sound pinv iinv known probe seed rsp2"
    by (rule sound_tick[OF a(1) ready fit' packets_batch_ok[OF lay a(3)] known s1 t])
  show ?thesis
    using r sc t s1 s2
    by (auto simp: saturator_round_def Let_def rsp1_def[symmetric] split: prod.splits if_splits tick_result.splits outcome.splits)
qed

end

section \<open>The strategies of the program\<close>

text \<open>
  With \<open>ret\<close> the addresses handed out so far: the port strategy holds states of such addresses only and asks for probes to them,
  from source ports of the configured range.
\<close>

definition port_sound :: "('f::linorder, 'g) port_env \<Rightarrow> ipv4 list \<Rightarrow> 'f port_adapter \<Rightarrow> 'f port_adapter \<Rightarrow> bool" where
  "port_sound penv ret a0 a \<longleftrightarrow> adapter_inv penv a [] \<and> same_conf a0 a \<and> dom (states a) \<subseteq> set ret"

definition ip_sound :: "('g, 'v::linorder) ip_env \<Rightarrow> compiled_ranges \<Rightarrow> u64 \<Rightarrow> ipv4 list \<Rightarrow> 'v ip_adapter \<Rightarrow> bool" where
  "ip_sound ienv c i ret a \<longleftrightarrow> ip_inv ienv a i ret \<and> ip_ranges a = c"

definition probe_ok :: "('f::linorder, 'g) port_env \<Rightarrow> ipv4 list \<Rightarrow> 'f port_adapter \<Rightarrow> packet_template \<Rightarrow> bool" where
  "probe_ok penv ret a t \<longleftrightarrow> pt_ip t \<in> set ret \<and> target_ok penv a t"

lemma same_conf_trans: "same_conf a b \<Longrightarrow> same_conf b c \<Longrightarrow> same_conf a c"
  by (simp add: same_conf_def)

lemma port_on_result_sound:
  assumes "port_sound penv ret a0 a" "port_on_result penv ip port h r a = Inr (res, r', a')"
  shows "port_sound penv ret a0 a' \<and> (\<forall>t. res = Some t \<longrightarrow> probe_ok penv ret a0 t)"
proof -
  have inv: "adapter_inv penv a []" "same_conf a0 a" "dom (states a) \<subseteq> set ret" using assms(1) by (simp_all add: port_sound_def)
  have ok: "on_result_ok penv a [] ip port res a'" using port_on_result_inv[OF inv(1), of ip port h r] assms(2) by simp
  have "dom (states a') \<subseteq> dom (states a)"
  proof
    fix x assume x: "x \<in> dom (states a')"
    show "x \<in> dom (states a)"
    proof (cases "x = ip")
      case True
      then show ?thesis using ok x by (cases res) (auto simp: on_result_ok_def)
    next
      case False
      then show ?thesis using ok x by (auto simp: on_result_ok_def)
    qed
  qed
  moreover have "probe_ok penv ret a0 t" if "res = Some t" for t
    using ok inv(2,3) that by (auto simp: on_result_ok_def probe_ok_def target_ok_def same_conf_def)
  moreover have "adapter_inv penv a' []" "same_conf a a'" using ok by (simp_all add: on_result_ok_def)
  ultimately show ?thesis using inv same_conf_trans by (auto simp: port_sound_def)
qed

interpretation pmap: strategies "strategy_env penv ienv payload parser hash" "port_sound penv ret a0" "ip_sound ienv c i ret" "set ret"
    "probe_ok penv ret a0"
  for penv :: "('f::linorder, 'g) port_env" and ienv :: "('g, 'v::linorder) ip_env" and payload and parser :: "bytes \<Rightarrow> parse_error + 'p"
    and hash and ret and a0 :: "'f port_adapter" and c and i
proof
  fix a ip port h r res r' a'
  assume "port_sound penv ret a0 a" "port_result (strategy_env penv ienv payload parser hash) ip port h r a = Some (res, r', a')"
  then show "port_sound penv ret a0 a' \<and> (\<forall>t. res = Some t \<longrightarrow> probe_ok penv ret a0 t)"
    using port_on_result_sound[of penv ret a0 a ip port h r] by (auto simp: strategy_env_def split: sum.splits)
next
  fix ia ip assume "ip_sound ienv c i ret ia" "ip \<in> set ret"
  then show "ip_sound ienv c i ret (ip_result (strategy_env penv ienv payload parser hash) ip ia)"
    using on_result_inv[of ienv ia i ret ip] by (simp add: strategy_env_def ip_sound_def)
qed

lemma strategy_port_no_panic:
  "port_sound penv ret a0 a \<Longrightarrow> port_on_result penv ip port h r a \<noteq> Inl Port_panic"
  using port_on_result_inv[of penv a "[]" ip port h r] by (auto simp: port_sound_def)

end
