(* ===== verification/Exclude.thy ===== *)
theory Exclude
  imports Ranges
begin

text \<open>
  \<^verbatim>\<open>farsight/src/exclude.rs\<close>: the parser of \<^verbatim>\<open>exclude.conf\<close>, with the parts of the Rust standard
  library it calls (\<^verbatim>\<open>str::lines\<close>, \<^verbatim>\<open>trim\<close>, \<^verbatim>\<open>split\<close>, \<^verbatim>\<open>u8\<close> and \<^verbatim>\<open>Ipv4Addr\<close> parsing). The file is
  modelled as ASCII text, one \<^typ>\<open>char\<close> per byte; the Unicode blanks beyond ASCII that \<^verbatim>\<open>trim\<close> also
  removes do not occur in it. \<open>load\<close> takes the file system as a parameter.
\<close>

section \<open>The parts of the standard library the parser uses\<close>

definition to_digit :: "char \<Rightarrow> nat option" where
  "to_digit c = (let n = of_char c in if 48 \<le> n \<and> n \<le> 57 then Some (n - 48) else None)"

definition is_whitespace :: "char \<Rightarrow> bool" where
  "is_whitespace c = (let n = of_char c :: nat in n = 32 \<or> (9 \<le> n \<and> n \<le> 13))"

definition trim :: "string \<Rightarrow> string" where
  "trim s = rev (dropWhile is_whitespace (rev (dropWhile is_whitespace s)))"

fun split_on :: "'a \<Rightarrow> 'a list \<Rightarrow> 'a list list" where
  "split_on sep [] = [[]]"
| "split_on sep (c # cs) =
     (if c = sep then [] # split_on sep cs
      else case split_on sep cs of [] \<Rightarrow> [[c]] | p # ps \<Rightarrow> (c # p) # ps)"

fun strip_cr :: "string \<Rightarrow> string" where
  "strip_cr [] = []"
| "strip_cr [c] = (if c = CHR 0x0D then [] else [c])"
| "strip_cr (c # cs) = c # strip_cr cs"

definition lines :: "string \<Rightarrow> string list" where
  "lines s = (let ps = split_on (CHR 0x0A) s in map strip_cr (butlast ps) @ (if last ps = [] then [] else [last ps]))"

fun read_digits :: "nat \<Rightarrow> nat \<Rightarrow> string \<Rightarrow> nat \<times> nat \<times> string" where
  "read_digits acc n [] = (acc, n, [])"
| "read_digits acc n (c # cs) =
     (case to_digit c of None \<Rightarrow> (acc, n, c # cs) | Some d \<Rightarrow> read_digits (acc * 10 + d) (Suc n) cs)"

definition read_octet :: "string \<Rightarrow> (u8 \<times> string) option" where
  "read_octet s =
     (let (v, n, rest) = read_digits 0 0 s in
      if n = 0 \<or> n > 3 then None
      else if hd s = CHR ''0'' \<and> n > 1 then None
      else if v > 255 then None
      else Some (word_of_nat v, rest))"

definition read_separator :: "string \<Rightarrow> string option" where
  "read_separator s = (case s of c # cs \<Rightarrow> if c = CHR ''.'' then Some cs else None | [] \<Rightarrow> None)"

definition ipv4_from_str :: "string \<Rightarrow> ipv4 option" where
  "ipv4_from_str s =
     (if length s > 15 then None
      else case read_octet s of None \<Rightarrow> None | Some (a, s1) \<Rightarrow>
        (case Option.bind (read_separator s1) read_octet of None \<Rightarrow> None | Some (b, s2) \<Rightarrow>
        (case Option.bind (read_separator s2) read_octet of None \<Rightarrow> None | Some (c, s3) \<Rightarrow>
        (case Option.bind (read_separator s3) read_octet of None \<Rightarrow> None | Some (d, s4) \<Rightarrow>
           if s4 = [] then Some (from_be32 a b c d) else None))))"

definition parse_u8 :: "string \<Rightarrow> u8 option" where
  "parse_u8 s =
     (let ds = (case s of c # cs \<Rightarrow> if c = CHR ''+'' then cs else s | [] \<Rightarrow> []);
          (v, n, rest) = read_digits 0 0 ds
      in if n = 0 \<or> rest \<noteq> [] \<or> v > 255 then None else Some (word_of_nat v))"


section \<open>The exclude file\<close>

datatype exclude_error = ReadFile | BothSeparators | BadMask | BadAddress | StartAfterEnd

text \<open>One line, comments and blanks removed. \<open>32 - mask\<close> and \<open>2 ^ mask - 1\<close> wrap as in the release build.\<close>

definition parse_range :: "string \<Rightarrow> exclude_error + ipv4 range_inclusive" where
  "parse_range line =
     (let is_slash = CHR ''/'' \<in> set line; is_hypen = CHR ''-'' \<in> set line in
      if is_slash \<and> is_hypen then Inl BothSeparators
      else if is_slash then
        (let parts = split_on (CHR ''/'') line in
         case parse_u8 (parts ! 1) of
           None \<Rightarrow> Inl BadMask
         | Some m \<Rightarrow>
             (let msk = 32 - m; mask_bits = 2 ^ unat msk - 1 :: u32 in
              case ipv4_from_str (parts ! 0) of
                None \<Rightarrow> Inl BadAddress
              | Some ip \<Rightarrow> Inr \<lparr>r_start = ip AND NOT mask_bits, r_last = ip OR mask_bits\<rparr>))
      else if is_hypen then
        (let parts = split_on (CHR ''-'') line in
         case ipv4_from_str (parts ! 0) of
           None \<Rightarrow> Inl BadAddress
         | Some ip_start \<Rightarrow>
             (case ipv4_from_str (parts ! 1) of
                None \<Rightarrow> Inl BadAddress
              | Some ip_end \<Rightarrow>
                  if ip_start > ip_end then Inl StartAfterEnd
                  else Inr \<lparr>r_start = ip_start, r_last = ip_end\<rparr>))
      else
        (case ipv4_from_str line of
           None \<Rightarrow> Inl BadAddress
         | Some ip \<Rightarrow> Inr \<lparr>r_start = ip, r_last = ip\<rparr>))"

fun parse_lines :: "string list \<Rightarrow> exclude_error + ipv4 range_inclusive list" where
  "parse_lines [] = Inr []"
| "parse_lines (l # ls) =
     (let line = trim l in
      if line = [] \<or> hd line = CHR ''#'' then parse_lines ls
      else
        (case parse_range (trim (hd (split_on (CHR ''#'') line))) of
           Inl e \<Rightarrow> Inl e
         | Inr r \<Rightarrow> (case parse_lines ls of Inl e \<Rightarrow> Inl e | Inr rs \<Rightarrow> Inr (r # rs))))"

definition parse :: "string \<Rightarrow> exclude_error + ipv4_ranges" where
  "parse input =
     (case parse_lines (lines input) of
        Inl e \<Rightarrow> Inl e
      | Inr rs \<Rightarrow> Inr (from_range_vec (sort_key r_start rs)))"

definition load :: "(string \<Rightarrow> string option) \<Rightarrow> string \<Rightarrow> exclude_error + ipv4_ranges" where
  "load read_to_string input =
     (case read_to_string input of None \<Rightarrow> Inl ReadFile | Some content \<Rightarrow> parse content)"

section \<open>What a line denotes\<close>

lemma mask_bits_mask: "(2 ^ unat (w :: u8) - 1 :: u32) = mask (unat w)"
  by (simp add: mask_eq_decr_exp)

lemma mask_saturates: "LENGTH('a) \<le> n \<Longrightarrow> (mask n :: 'a::len word) = NOT 0"
  by (rule bit_word_eqI) (auto simp: bit_simps)

lemma range_of_mask: "range_set \<lparr>r_start = ip AND NOT (mask k), r_last = (ip OR mask k :: u32)\<rparr>
    = {x. drop_bit (min k 32) x = drop_bit (min k 32) ip}"
proof (cases "k \<le> 32")
  case True
  then show ?thesis by (auto simp: range_set_def same_block_iff min_absorb1)
next
  case False
  then have "mask k = (mask 32 :: u32)" by (simp add: mask_saturates)
  then show ?thesis using False same_block_iff[where 'a = 32, of 32 ip] by (auto simp: range_set_def min_absorb2)
qed

lemma parse_range_ordered: "parse_range line = Inr r \<Longrightarrow> r_start r \<le> r_last r"
proof -
  have "(ip :: u32) AND NOT m \<le> ip OR m" for ip m
    using word_and_le2[of ip "NOT m"] le_word_or2[of ip m] by (meson order_trans)
  then show "parse_range line = Inr r \<Longrightarrow> r_start r \<le> r_last r"
    by (auto simp: parse_range_def Let_def split: if_splits option.splits)
qed

lemma parse_lines_ordered: "parse_lines ls = Inr rs \<Longrightarrow> r \<in> set rs \<Longrightarrow> r_start r \<le> r_last r"
  by (induction ls arbitrary: rs)
     (auto simp: Let_def split: if_splits sum.splits dest: parse_range_ordered)

lemma by_start_sort_key:
  "\<forall>r\<in>set rs. r_start r \<le> r_last r \<Longrightarrow> by_start (inner (from_range_vec (sort_key r_start rs)))"
  using sorted_sort_key[of r_start rs]
  by (auto simp: by_start_def from_range_vec_def sorted_wrt_map sorted_map)


section \<open>Printing, and reading back what was printed\<close>

text \<open>The decimal notation of \<^verbatim>\<open>Display\<close> for \<^verbatim>\<open>u8\<close> and \<^verbatim>\<open>Ipv4Addr\<close>, the reference for the parser.\<close>

definition digit_char :: "nat \<Rightarrow> char" where
  "digit_char d = char_of (48 + d)"

definition show_u8 :: "u8 \<Rightarrow> string" where
  "show_u8 w =
     (let n = unat w in
      if n < 10 then [digit_char n]
      else if n < 100 then [digit_char (n div 10), digit_char (n mod 10)]
      else [digit_char (n div 100), digit_char (n div 10 mod 10), digit_char (n mod 10)])"

definition show_ipv4 :: "ipv4 \<Rightarrow> string" where
  "show_ipv4 ip = (case to_be32 ip of
     [a, b, c, d] \<Rightarrow> show_u8 a @ ''.'' @ show_u8 b @ ''.'' @ show_u8 c @ ''.'' @ show_u8 d)"

definition no_digit :: "string \<Rightarrow> bool" where
  "no_digit s \<longleftrightarrow> (case s of [] \<Rightarrow> True | c # _ \<Rightarrow> to_digit c = None)"

lemma to_digit_char: "d < 10 \<Longrightarrow> to_digit (digit_char d) = Some d"
  by (simp add: to_digit_def digit_char_def of_char_of)

lemma digit_char_0: "d < 10 \<Longrightarrow> digit_char d = CHR ''0'' \<longleftrightarrow> d = 0"
proof
  assume "d < 10" "digit_char d = CHR ''0''"
  then have "to_digit CHR ''0'' = Some d" using to_digit_char by metis
  then show "d = 0" by (simp add: to_digit_def)
qed (simp add: digit_char_def, code_simp)

lemma three_digits: "100 * (n div 100) + n div 10 mod 10 * 10 + n mod 10 = (n :: nat)"
proof -
  have "n div 100 = n div 10 div 10" by (simp add: div_mult2_eq[symmetric])
  then show ?thesis using div_mult_mod_eq[of "n div 10" 10] div_mult_mod_eq[of n 10] by linarith
qed

lemma read_digits_stop: "no_digit s \<Longrightarrow> read_digits acc n s = (acc, n, s)"
  by (cases s) (auto simp: no_digit_def)

lemma read_show_u8:
  "no_digit rest \<Longrightarrow> read_digits 0 0 (show_u8 w @ rest) = (unat w, length (show_u8 w), rest)"
  using unat_bounds(1)[of w] by (auto simp: show_u8_def Let_def to_digit_char read_digits_stop three_digits)

lemma length_show_u8: "0 < length (show_u8 w) \<and> length (show_u8 w) \<le> 3"
  by (simp add: show_u8_def Let_def)

lemma hd_show_u8: "hd (show_u8 w @ rest) = CHR ''0'' \<Longrightarrow> length (show_u8 w) = 1"
  using unat_bounds(1)[of w] by (auto simp: show_u8_def Let_def digit_char_0 split: if_splits)

lemma read_octet_show: "no_digit rest \<Longrightarrow> read_octet (show_u8 w @ rest) = Some (w, rest)"
  using length_show_u8[of w] hd_show_u8[of w rest] unat_bounds(1)[of w]
  by (auto simp: read_octet_def read_show_u8)

lemma parse_u8_show: "parse_u8 (show_u8 w) = Some w"
proof -
  have "hd (show_u8 w) \<noteq> CHR ''+''"
    using unat_bounds(1)[of w]
    by (auto simp: show_u8_def Let_def dest!: arg_cong[where f = to_digit] simp: to_digit_char)
       (simp_all add: to_digit_def)
  then show ?thesis
    using read_show_u8[of "[]" w] length_show_u8[of w] unat_bounds(1)[of w]
    by (auto simp: parse_u8_def no_digit_def split: list.splits)
qed

lemma ipv4_from_str_show: "ipv4_from_str (show_ipv4 ip) = Some ip"
proof -
  have dot: "no_digit (CHR ''.'' # r)" "read_separator (CHR ''.'' # r) = Some r" for r
    by (simp_all add: no_digit_def to_digit_def read_separator_def)
  have "no_digit []" by (simp add: no_digit_def)
  from read_octet_show[OF this] have end_octet: "read_octet (show_u8 w) = Some (w, [])" for w
    by simp
  have "length (show_ipv4 ip) \<le> 15"
    using length_show_u8[of "ucast (drop_bit 24 ip)"] length_show_u8[of "ucast (drop_bit 16 ip)"]
      length_show_u8[of "ucast (drop_bit 8 ip)"] length_show_u8[of "ucast ip"]
    by (simp add: show_ipv4_def to_be32_def)
  then show ?thesis
    by (simp add: ipv4_from_str_def show_ipv4_def to_be32_def read_octet_show dot end_octet from_to_be32)
qed


subsection \<open>Whole lines and whole files\<close>

lemma split_on_absent: "sep \<notin> set xs \<Longrightarrow> split_on sep xs = [xs]"
  by (induction xs) auto

lemma split_on_append: "sep \<notin> set xs \<Longrightarrow> split_on sep (xs @ sep # ys) = xs # split_on sep ys"
  by (induction xs) auto

definition ip_char :: "char \<Rightarrow> bool" where
  "ip_char c \<longleftrightarrow> c = CHR ''.'' \<or> to_digit c \<noteq> None"

lemma show_u8_chars: "c \<in> set (show_u8 w) \<Longrightarrow> to_digit c \<noteq> None"
  using unat_bounds(1)[of w] by (auto simp: show_u8_def Let_def to_digit_char split: if_splits)

lemma show_ipv4_chars: "c \<in> set (show_ipv4 ip) \<Longrightarrow> ip_char c"
  by (auto simp: show_ipv4_def to_be32_def ip_char_def dest: show_u8_chars)

lemma ip_char_not:
  "\<not> ip_char CHR ''/''" "\<not> ip_char CHR ''-''" "\<not> ip_char CHR ''#''" "\<not> ip_char CHR 0x0A"
  "\<not> ip_char CHR 0x0D"
  by (simp_all add: ip_char_def to_digit_def)

lemma ip_char_not_white: "ip_char c \<Longrightarrow> \<not> is_whitespace c"
  by (auto simp: ip_char_def is_whitespace_def to_digit_def Let_def split: if_splits)

lemma show_ipv4_nonempty: "show_ipv4 ip \<noteq> []"
  by (simp add: show_ipv4_def to_be32_def)

lemma show_ipv4_absent:
  "CHR ''/'' \<notin> set (show_ipv4 ip)" "CHR ''-'' \<notin> set (show_ipv4 ip)" "CHR ''#'' \<notin> set (show_ipv4 ip)"
  "CHR 0x0A \<notin> set (show_ipv4 ip)" "CHR 0x0D \<notin> set (show_ipv4 ip)"
  using show_ipv4_chars ip_char_not by blast+

lemma show_u8_absent: "CHR ''/'' \<notin> set (show_u8 w)" "CHR ''-'' \<notin> set (show_u8 w)"
  using show_u8_chars by (force simp: to_digit_def)+

definition render_range :: "ipv4 range_inclusive \<Rightarrow> string" where
  "render_range r = show_ipv4 (r_start r) @ ''-'' @ show_ipv4 (r_last r)"

lemma parse_render_range:
  "r_start r \<le> r_last r \<Longrightarrow> parse_range (render_range r) = Inr r"
  by (simp add: parse_range_def render_range_def show_ipv4_absent split_on_append split_on_absent
      ipv4_from_str_show not_less)

lemma trim_clean: "\<forall>c\<in>set s. \<not> is_whitespace c \<Longrightarrow> trim s = s"
proof -
  have "dropWhile is_whitespace s = s" if "\<forall>c\<in>set s. \<not> is_whitespace c" for s
    using that by (cases s) auto
  from this[of s] this[of "rev s"]
  show "\<forall>c\<in>set s. \<not> is_whitespace c \<Longrightarrow> trim s = s"
    by (simp add: trim_def)
qed

lemma render_range_chars: "c \<in> set (render_range r) \<Longrightarrow> ip_char c \<or> c = CHR ''-''"
  by (auto simp: render_range_def dest: show_ipv4_chars)

lemma render_range_clean:
  "trim (render_range r) = render_range r" "CHR ''#'' \<notin> set (render_range r)"
  "CHR 0x0A \<notin> set (render_range r)" "render_range r \<noteq> []"
proof -
  have "\<not> is_whitespace CHR ''-''" by (simp add: is_whitespace_def)
  then show "trim (render_range r) = render_range r"
    using render_range_chars ip_char_not_white by (intro trim_clean) blast
  show "CHR ''#'' \<notin> set (render_range r)" "CHR 0x0A \<notin> set (render_range r)" "render_range r \<noteq> []"
    by (simp_all add: render_range_def show_ipv4_absent)
qed

lemma strip_cr_absent: "CHR 0x0D \<notin> set s \<Longrightarrow> strip_cr s = s"
  by (induction s rule: strip_cr.induct) auto

fun render :: "ipv4 range_inclusive list \<Rightarrow> string" where
  "render [] = []"
| "render (r # rs) = render_range r @ [CHR 0x0A] @ render rs"

lemma lines_render: "lines (render rs) = map render_range rs"
proof -
  have "split_on (CHR 0x0A) (render rs) = map render_range rs @ [[]]"
    by (induction rs) (simp_all add: split_on_append render_range_clean(3))
  moreover have "strip_cr (render_range r) = render_range r" for r
    by (rule strip_cr_absent) (simp add: render_range_def show_ipv4_absent)
  ultimately show ?thesis by (simp add: lines_def)
qed

lemma parse_lines_render:
  "\<forall>r\<in>set rs. r_start r \<le> r_last r \<Longrightarrow> parse_lines (map render_range rs) = Inr rs"
proof (induction rs)
  case (Cons r rs)
  moreover have "hd (render_range r) \<noteq> CHR ''#''"
    using render_range_clean(2,4)[of r] by (metis hd_in_set)
  ultimately show ?case
    by (simp add: render_range_clean split_on_absent parse_render_range)
qed simp

section \<open>The theorems\<close>

text \<open>Whatever the exclude file holds, a successful parse is sorted by start address and every
  range is non-empty: the precondition under which the subtraction of the ranges is exact.\<close>

lemma parse_by_start: "parse input = Inr rs \<Longrightarrow> by_start (inner rs)"
  using parse_lines_ordered
  by (auto simp: parse_def split: sum.splits intro!: by_start_sort_key)

text \<open>A CIDR line \<open>a.b.c.d/n\<close> denotes the addresses that share the first \<open>n\<close> bits with the
  written one. The prefix \<open>/0\<close> is right only because the shift and the subtraction wrap.\<close>

theorem cidr_line:
  assumes "n \<le> 32"
  shows "\<exists>r. parse_range (show_ipv4 ip @ ''/'' @ show_u8 n) = Inr r
    \<and> range_set r = {x. drop_bit (32 - unat n) x = drop_bit (32 - unat n) ip}"
proof -
  have "unat (32 - n) = 32 - unat n"
    using assms by (simp add: unat_sub word_le_nat_alt)
  then show ?thesis
    by (simp add: parse_range_def show_ipv4_absent show_u8_absent split_on_append split_on_absent
        ipv4_from_str_show parse_u8_show mask_bits_mask range_of_mask Let_def)
qed

theorem cidr_line_witness:
  "(8 :: u8) \<le> 32 \<and> (\<exists>r. parse_range (show_ipv4 0x0A000000 @ ''/'' @ show_u8 8) = Inr r
     \<and> range_set r = {x. drop_bit 24 x = drop_bit 24 0x0A000000})"
  using cidr_line[of 8 "0x0A000000"] by simp

text \<open>A prefix length above 32 is not an error: the wrapped subtraction yields an all-ones mask and
  the line excludes the whole address space.\<close>

theorem cidr_line_too_long:
  assumes "32 < n"
  shows "\<exists>r. parse_range (show_ipv4 ip @ ''/'' @ show_u8 n) = Inr r \<and> range_set r = UNIV"
proof -
  have "unat (32 - n) \<ge> 33"
    using assms unat_bounds(1)[of n] by (simp add: unat_sub_if' word_less_nat_alt)
  moreover have "drop_bit 32 x = (0 :: u32)" for x
    by (rule bit_word_eqI) (simp add: bit_simps)
  ultimately show ?thesis
    by (simp add: parse_range_def show_ipv4_absent show_u8_absent split_on_append split_on_absent
        ipv4_from_str_show parse_u8_show mask_bits_mask range_of_mask Let_def)
qed

theorem cidr_line_too_long_witness:
  "(32 :: u8) < 33 \<and> (\<exists>r. parse_range (show_ipv4 0x01020304 @ ''/'' @ show_u8 33) = Inr r \<and> range_set r = UNIV)"
  using cidr_line_too_long[of 33 "0x01020304"] by simp

text \<open>C40. Round trip: a file that lists ranges in the hyphen notation, one per line, is read back as
  exactly these ranges, sorted by start.\<close>

theorem parse_render:
  assumes "\<forall>r\<in>set rs. r_start r \<le> r_last r"
  shows "parse (render rs) = Inr (from_range_vec (sort_key r_start rs))"
  using assms by (simp add: parse_def lines_render parse_lines_render)

theorem parse_render_witness:
  "parse (render [\<lparr>r_start = 7, r_last = 9\<rparr>, \<lparr>r_start = 1, r_last = 2\<rparr>])
     = Inr (from_range_vec [\<lparr>r_start = 1, r_last = 2\<rparr>, \<lparr>r_start = 7, r_last = 9\<rparr>])"
  using parse_render[of "[\<lparr>r_start = 7, r_last = 9\<rparr>, \<lparr>r_start = 1, r_last = 2\<rparr>]"]
  by (simp add: word_le_nat_alt)

end
