(* ===== verification/Sessions.thy ===== *)
theory Sessions
  imports Exclude Feeder Complex_Main
begin

text \<open>
  Around a session: what is asked of the database at its start (\<^verbatim>\<open>database/mod.rs\<close>), the choice of the addresses
  (\<^verbatim>\<open>controller/strategy/selector.rs\<close> and \<^verbatim>\<open>Controller::session\<close>), the thread that prints rates, expires states and
  writes banners (\<^verbatim>\<open>spawn_printer_and_database\<close> of \<^verbatim>\<open>controller/session.rs\<close>, \<^verbatim>\<open>controller/printer.rs\<close>).

  The database is a service: what its queries return is an argument, an error or rows, and a row of a cursor can itself be
  an error. Hypotheses say what the SQL text of a query asks for.
\<close>

section \<open>What is read at the start of a session\<close>

record 'e database =
  db_total :: "'e + u64"
  db_ports :: "'e + (u16 \<times> u64) list"
  db_pairs :: "'e + (u16 \<times> u16 \<times> u64) list"
  db_hits :: "'e + ('e + u32 \<times> u64) list"
  db_ips :: "'e + ('e + u32) list"

text \<open>
  Collecting pairs into a hash map. A map iterates over its entries in some order of its own: the arguments \<open>ord\<close> and
  \<open>ord'\<close> below put the entries of a map into that order.
\<close>

definition collect_map :: "('k \<times> 'v) list \<Rightarrow> ('k \<times> 'v) list" where
  "collect_map rows = fold (\<lambda>(k, v). AList.update k v) rows []"

definition build_graph :: "((u16 \<times> u64) list \<Rightarrow> (u16 \<times> u64) list) \<Rightarrow> (((u16 \<times> u16) \<times> u64) list \<Rightarrow> ((u16 \<times> u16) \<times> u64) list)
    \<Rightarrow> u8 \<Rightarrow> 'e database \<Rightarrow> u16 list \<Rightarrow> 'e + port_graph" where
  "build_graph ord ord' catchall_threshold db seed_ports =
     (case db_total db of
        Inl e \<Rightarrow> Inl e
      | Inr total_ips \<Rightarrow>
          if total_ips = 0 then Inr (from_counts [] [] 0 seed_ports catchall_threshold)
          else (case db_ports db of
                  Inl e \<Rightarrow> Inl e
                | Inr port_rows \<Rightarrow>
                    (let banner_counts = ord (collect_map port_rows)
                     in case db_pairs db of
                          Inl e \<Rightarrow> Inl e
                        | Inr co_rows \<Rightarrow>
                            (let co_banner_counts = ord' (collect_map (map (\<lambda>(i, j, c). ((i, j), c)) co_rows))
                             in Inr (from_counts banner_counts co_banner_counts total_ips seed_ports catchall_threshold)))))"

fun add_hits :: "('e + u32 \<times> u64) list \<Rightarrow> (u32 \<rightharpoonup> u64) \<Rightarrow> 'e + (u32 \<rightharpoonup> u64)" where
  "add_hits [] prefix_hits = Inr prefix_hits"
| "add_hits (Inl e # rows) prefix_hits = Inl e"
| "add_hits (Inr (ip, cnt) # rows) prefix_hits =
     (let k = drop_bit 8 ip
      in add_hits rows (prefix_hits(k \<mapsto> (case prefix_hits k of None \<Rightarrow> 0 | Some n \<Rightarrow> n) + cnt)))"

definition build_prefix_graph :: "'e database \<Rightarrow> 'e + prefix_graph" where
  "build_prefix_graph db =
     (case db_hits db of
        Inl e \<Rightarrow> Inl e
      | Inr rows \<Rightarrow> (case add_hits rows Map.empty of Inl e \<Rightarrow> Inl e | Inr prefix_hits \<Rightarrow> Inr (prefix_from_counts prefix_hits)))"

fun read_loop :: "nat \<Rightarrow> ('e + u32) list \<Rightarrow> ipv4 list \<Rightarrow> 'e + ipv4 list" where
  "read_loop n [] rgs = Inr rgs"
| "read_loop n (Inl e # rows) rgs = Inl e"
| "read_loop n (Inr ip # rows) rgs =
     (let rgs = rgs @ [ip] in if length rgs \<ge> n then Inr rgs else read_loop n rows rgs)"

definition read_ranges :: "nat \<Rightarrow> 'e database \<Rightarrow> 'e + ipv4 list" where
  "read_ranges n db =
     (case db_ips db of
        Inl e \<Rightarrow> Inl e
      | Inr rows \<Rightarrow> (case read_loop n rows [] of Inl e \<Rightarrow> Inl e | Inr rgs \<Rightarrow> Inr (sort rgs)))"

section \<open>The addresses of a session\<close>

datatype selector = All_selector | Rescan_selector nat

fun select :: "'e database \<Rightarrow> selector \<Rightarrow> 'e + ipv4_ranges" where
  "select db All_selector = Inr (from_range \<lparr>r_start = 0, r_last = 0xFFFFFFFF\<rparr>)"
| "select db (Rescan_selector n) = (case read_ranges n db of Inl e \<Rightarrow> Inl e | Inr rgs \<Rightarrow> Inr (from_addresses rgs))"

definition controller_session :: "'e database \<Rightarrow> ipv4_ranges \<Rightarrow> selector \<Rightarrow> 'e + compiled_ranges" where
  "controller_session db excludes sel =
     (case select db sel of Inl e \<Rightarrow> Inl e | Inr rgs \<Rightarrow> Inr (compile (exclude rgs excludes)))"

text \<open>The choice of \<^verbatim>\<open>main\<close> between scanning and rescanning; \<open>draw\<close> is the number drawn from the unit interval.\<close>

definition choose_selector :: "'f::linorder \<Rightarrow> 'f \<Rightarrow> nat \<Rightarrow> selector" where
  "choose_selector draw epsilon max_count = (if draw \<ge> epsilon then All_selector else Rescan_selector max_count)"

section \<open>Rates\<close>

text \<open>Points in time and durations are nanoseconds; the difference of two points in time stops at zero.\<close>

record printer =
  pr_every :: nat
  pr_last :: nat

datatype rate_line = Mpps u64 | Kpps u64 | Pps u64

text \<open>\<^verbatim>\<open>round() as u64\<close> of a float that is not negative; floats are modelled by rationals.\<close>

definition to_u64 :: "rat \<Rightarrow> u64" where
  "to_u64 x = (if round x \<ge> 2 ^ 64 then - 1 else word_of_int (round x))"

definition rate_of :: "usize \<Rightarrow> nat \<Rightarrow> rate_line" where
  "rate_of n elapsed =
     (let pps = of_nat (unat n) / (of_nat elapsed / 1000000000)
      in if pps > 10000000 then Mpps (to_u64 (pps / 1000000))
         else if pps > 10000 then Kpps (to_u64 (pps / 1000))
         else Pps (to_u64 pps))"

definition printer_tick :: "nat \<Rightarrow> usize \<Rightarrow> usize \<Rightarrow> printer \<Rightarrow> (rate_line \<times> rate_line) option \<times> usize \<times> usize \<times> printer" where
  "printer_tick now done_ctr filled self =
     (let elapsed = now - pr_last self
      in if elapsed < pr_every self then (None, done_ctr, filled, self)
         else (Some (rate_of done_ctr elapsed, rate_of filled elapsed), 0, 0, self\<lparr>pr_last := now\<rparr>))"

section \<open>Writing banners\<close>

text \<open>What \<^verbatim>\<open>write_many\<close> asks the client for; \<open>oks\<close> says which of these requests succeed, counted from zero.\<close>

datatype 's insert_op = Insert_begin | Insert_row 's | Insert_end

fun write_rows :: "(nat \<Rightarrow> bool) \<Rightarrow> nat \<Rightarrow> 's list \<Rightarrow> bool \<times> 's insert_op list" where
  "write_rows oks i [] = (oks i, [Insert_end])"
| "write_rows oks i (row # rows) =
     (if oks i then (let (ok, ops) = write_rows oks (i + 1) rows in (ok, Insert_row row # ops)) else (False, [Insert_row row]))"

definition write_many :: "(nat \<Rightarrow> bool) \<Rightarrow> 's list \<Rightarrow> bool \<times> 's insert_op list" where
  "write_many oks rows =
     (if rows = [] then (True, [])
      else if \<not> oks 0 then (False, [Insert_begin])
      else (let (ok, ops) = write_rows oks 1 rows in (ok, Insert_begin # ops)))"

text \<open>
  One round of the loop: the event that \<^verbatim>\<open>select!\<close> picked - banners from the channel (the first and all that follow without
  waiting), the end of the channel, or the housekeeping timer -, the counters and the strategy's state that other threads
  share, two readings of the clock and the outcomes of the requests of a write started in this round. \<open>fl_task\<close> is the
  write in progress, \<open>fl_writes\<close> what each finished write asked the client for.

  \<open>expire\<close> is the strategy's \<^verbatim>\<open>PortExpirer\<close>, with \<open>fl_expirer\<close> its own state; \<^const>\<open>None\<close> is its panic.
\<close>

datatype 's flush_event = Received "'s list" | Closed | Housekeeping

record ('s, 'x) flush_obs =
  fo_event :: "'s flush_event"
  fo_now :: nat
  fo_flush_now :: nat
  fo_completed :: usize
  fo_filled :: usize
  fo_shared :: 'x
  fo_oks :: "nat \<Rightarrow> bool"

record ('s, 'y) flusher =
  fl_batch :: "'s list"
  fl_last_flush :: nat
  fl_printer :: printer
  fl_expirer :: 'y
  fl_task :: "('s list \<times> (nat \<Rightarrow> bool)) option"
  fl_writes :: "(bool \<times> 's insert_op list) list"

definition flusher_new :: "nat \<Rightarrow> nat \<Rightarrow> 'y \<Rightarrow> ('s, 'y) flusher" where
  "flusher_new now print_every y =
     \<lparr>fl_batch = [], fl_last_flush = now, fl_printer = \<lparr>pr_every = print_every, pr_last = now\<rparr>, fl_expirer = y, fl_task = None,
      fl_writes = []\<rparr>"

definition await_task :: "('s, 'y) flusher \<Rightarrow> ('s, 'y) flusher" where
  "await_task st =
     (case fl_task st of
        None \<Rightarrow> st
      | Some (rows, oks) \<Rightarrow> st\<lparr>fl_task := None, fl_writes := fl_writes st @ [write_many oks rows]\<rparr>)"

text \<open>The result of a round holds the state it leaves to the other threads, too.\<close>

definition flush_round :: "(nat \<Rightarrow> 'y \<Rightarrow> 'x \<Rightarrow> ('y \<times> 'x) option) \<Rightarrow> nat \<Rightarrow> nat \<Rightarrow> ('s, 'x) flush_obs \<Rightarrow> ('s, 'y) flusher
    \<Rightarrow> (('s, 'y) flusher \<times> usize \<times> usize \<times> 'x) option" where
  "flush_round expire flush_interval flush_capacity ob st =
     (let batch = fl_batch st @ (case fo_event ob of Received xs \<Rightarrow> xs | _ \<Rightarrow> []);
          (_, done_ctr, filled, pr) = printer_tick (fo_now ob) (fo_completed ob) (fo_filled ob) (fl_printer st)
      in case expire (fo_now ob) (fl_expirer st) (fo_shared ob) of
           None \<Rightarrow> None
         | Some (y, x) \<Rightarrow>
             (let st = st\<lparr>fl_batch := batch, fl_printer := pr, fl_expirer := y\<rparr>;
                  st = (if length batch \<ge> flush_capacity \<or> batch \<noteq> [] \<and> fo_flush_now ob - fl_last_flush st \<ge> flush_interval
                        then (await_task st)\<lparr>fl_batch := [], fl_task := Some (batch, fo_oks ob), fl_last_flush := fo_flush_now ob\<rparr>
                        else st)
              in Some (st, done_ctr, filled, x)))"

definition flush_end :: "(nat \<Rightarrow> bool) \<Rightarrow> ('s, 'y) flusher \<Rightarrow> ('s, 'y) flusher" where
  "flush_end oks st =
     (let st = await_task st
      in if fl_batch st = [] then st
         else st\<lparr>fl_batch := [], fl_writes := fl_writes st @ [write_many oks (fl_batch st)]\<rparr>)"

fun flush_loop :: "(nat \<Rightarrow> 'y \<Rightarrow> 'x \<Rightarrow> ('y \<times> 'x) option) \<Rightarrow> nat \<Rightarrow> nat \<Rightarrow> ('s, 'x) flush_obs list \<Rightarrow> ('s, 'y) flusher
    \<Rightarrow> ('s, 'y) flusher option" where
  "flush_loop expire flush_interval flush_capacity [] st = Some st"
| "flush_loop expire flush_interval flush_capacity (ob # obs) st =
     (if fo_event ob = Closed then Some (flush_end (fo_oks ob) st)
      else (case flush_round expire flush_interval flush_capacity ob st of
              None \<Rightarrow> None
            | Some (st, _) \<Rightarrow> flush_loop expire flush_interval flush_capacity obs st))"

text \<open>
  The expirer of the port strategy; it shares the queue of expiries and the adapter with other threads. \<^const>\<open>None\<close> is a panic,
  a read of a cell that was never written or a call that asks for another try for ever.
\<close>

fun pmap_expire :: "nat \<Rightarrow> nat \<Rightarrow> expiry option \<Rightarrow> expiry deque \<times> 'f port_adapter
    \<Rightarrow> (expiry option \<times> expiry deque \<times> 'f port_adapter) option" where
  "pmap_expire 0 now pending (d, a) = Some (pending, d, a)"
| "pmap_expire (Suc n) now pending (d, a) =
     (case (case pending of
              Some e \<Rightarrow> Some (Some e, d)
            | None \<Rightarrow> (case steal d of
                         (Empty, d) \<Rightarrow> Some (None, d)
                       | (Success (Some e), d) \<Rightarrow> Some (Some e, d)
                       | _ \<Rightarrow> None)) of
        None \<Rightarrow> None
      | Some (None, d) \<Rightarrow> Some (None, d, a)
      | Some (Some (expires_at, key), d) \<Rightarrow>
          if expires_at > now then Some (Some (expires_at, key), d, a)
          else (case remove_state key a of
                  None \<Rightarrow> None
                | Some a \<Rightarrow> pmap_expire n now None (d, a)))"

section \<open>The graphs reflect the table\<close>

lemma collect_map_distinct: "distinct (map fst rows) \<Longrightarrow> collect_map rows = rows"
proof -
  have "fold (\<lambda>(k, v). AList.update k v) rows acc = acc @ rows" if "distinct (map fst (acc @ rows))" for acc rows :: "('a \<times> 'b) list"
    using that
  proof (induction rows arbitrary: acc)
    case (Cons r rows)
    have "AList.update (fst r) (snd r) acc = acc @ [r]"
      using Cons.prems by (induction acc) auto
    then show ?case using Cons.IH[of "acc @ [r]"] Cons.prems by (simp add: split_beta)
  qed simp
  from this[of "[]" rows] show "distinct (map fst rows) \<Longrightarrow> collect_map rows = rows" by (simp add: collect_map_def)
qed

text \<open>The rows of banners as pairs of address and port; what the queries ask of them.\<close>

type_synonym table = "(ipv4 \<times> u16) list"

definition hosts :: "table \<Rightarrow> u16 \<Rightarrow> ipv4 set" where
  "hosts tbl p = {ip. (ip, p) \<in> set tbl}"

definition answers_counts :: "table \<Rightarrow> 'e database \<Rightarrow> bool" where
  "answers_counts tbl db \<longleftrightarrow>
     (\<exists>n. db_total db = Inr n \<and> unat n = card (fst ` set tbl))
     \<and> (\<exists>rows. db_ports db = Inr rows \<and> distinct (map fst rows) \<and> fst ` set rows = snd ` set tbl
          \<and> (\<forall>(p, c) \<in> set rows. unat c = card (hosts tbl p)))
     \<and> (\<exists>rows. db_pairs db = Inr rows \<and> distinct (map (\<lambda>(i, j, c). (i, j)) rows)
          \<and> (\<lambda>(i, j, c). (i, j)) ` set rows = {(i, j). i \<noteq> j \<and> hosts tbl i \<inter> hosts tbl j \<noteq> {}}
          \<and> (\<forall>(i, j, c) \<in> set rows. unat c = card (hosts tbl i \<inter> hosts tbl j)))"

definition co_count :: "port_graph \<Rightarrow> u16 \<Rightarrow> u16 \<Rightarrow> u64" where
  "co_count g i j = (case co_occurring g i of None \<Rightarrow> 0 | Some m \<Rightarrow> (case map_of m j of None \<Rightarrow> 0 | Some c \<Rightarrow> c))"

lemma fold_doubles:
  "(case fold doubles_insert rows d i of None \<Rightarrow> None | Some m \<Rightarrow> map_of m j)
     = (case map_of (rev rows) (i, j) of None \<Rightarrow> (case d i of None \<Rightarrow> None | Some m \<Rightarrow> map_of m j) | Some c \<Rightarrow> Some c)"
proof (induction rows arbitrary: d)
  case (Cons r rows)
  obtain a b c where r: "r = ((a, b), c)" by (metis prod.collapse)
  have "(case doubles_insert r d i of None \<Rightarrow> None | Some m \<Rightarrow> map_of m j)
      = (if (i, j) = (a, b) then Some c else (case d i of None \<Rightarrow> None | Some m \<Rightarrow> map_of m j))"
    by (auto simp: doubles_insert_def r update_conv split: option.splits)
  then show ?case by (simp add: Cons r map_add_def split: option.split)
qed simp

lemma map_of_perm:
  assumes "mset xs = mset ys" "distinct (map fst ys)"
  shows "map_of xs = map_of ys" "distinct (map fst xs)" "set xs = set ys"
proof -
  show d: "distinct (map fst xs)" using assms by (metis mset_map mset_eq_imp_distinct_iff)
  show s: "set xs = set ys" using assms(1) by (metis set_mset_mset)
  show "map_of xs = map_of ys" using d assms(2) s by (intro map_of_eqI) (auto simp: map_of_eq_Some_iff)
qed

lemma co_count_rows:
  assumes "distinct (map fst rows)"
  shows "co_count (from_counts ss rows tot seeds thr) i j = (case map_of rows (i, j) of None \<Rightarrow> 0 | Some c \<Rightarrow> c)"
proof -
  have "map_of (rev rows) = map_of rows" using map_of_perm(1)[of "rev rows" rows] assms by simp
  then show ?thesis
    using fold_doubles[where rows = rows and d = Map.empty and i = i and j = j]
    by (auto simp: co_count_def co_occurring_def from_counts_def Let_def split: option.splits)
qed

lemma recommendations_from_counts:
  "set (recommendations (from_counts ss co tot seeds thr)) = fst ` set ss \<union> set seeds"
  by (auto simp: from_counts_def Let_def)

lemma from_counts_reflect:
  assumes "distinct (map fst ss)" "fst ` set ss = snd ` set tbl" "\<forall>(p, c) \<in> set ss. unat c = card (hosts tbl p)"
    and "distinct (map fst co)" "fst ` set co = {(i, j). i \<noteq> j \<and> hosts tbl i \<inter> hosts tbl j \<noteq> {}}"
    and "\<forall>((i, j), c) \<in> set co. unat c = card (hosts tbl i \<inter> hosts tbl j)"
    and g: "g = from_counts ss co tot seeds thr"
  shows "unat (open_count g p) = card (hosts tbl p)"
    and "i \<noteq> j \<Longrightarrow> unat (co_count g i j) = card (hosts tbl i \<inter> hosts tbl j)"
    and "sorted_wrt (\<lambda>p q. card (hosts tbl q) \<le> card (hosts tbl p)) (recommendations g)"
proof -
  show oc: "unat (open_count g p) = card (hosts tbl p)" for p
  proof (cases "map_of ss p")
    case None
    then have "hosts tbl p = {}" using assms(2) by (force simp: hosts_def map_of_eq_None_iff)
    then show ?thesis using None by (simp add: g open_count_def from_counts_def Let_def)
  next
    case (Some c)
    then show ?thesis using assms(3) map_of_SomeD[OF Some] by (auto simp: g open_count_def from_counts_def Let_def)
  qed
  show "unat (co_count g i j) = card (hosts tbl i \<inter> hosts tbl j)" if "i \<noteq> j"
  proof (cases "map_of co (i, j)")
    case None
    then have "hosts tbl i \<inter> hosts tbl j = {}" using assms(5) that by (auto simp: map_of_eq_None_iff)
    then show ?thesis using None by (simp add: g co_count_rows[OF assms(4)])
  next
    case (Some c)
    then show ?thesis using assms(6) map_of_SomeD[OF Some] by (auto simp: g co_count_rows[OF assms(4)])
  qed
  show "sorted_wrt (\<lambda>p q. card (hosts tbl q) \<le> card (hosts tbl p)) (recommendations g)"
  proof -
    have "open_count g (recommendations g ! j) \<le> open_count g (recommendations g ! i)"
      if "i < j" "j < length (recommendations g)" for i j
      using that by (intro recommendations_sorted[OF g assms(1), of i j]) (auto simp: recommend_at_def)
    then show ?thesis by (simp add: sorted_wrt_iff_nth_less oc[symmetric] word_le_nat_alt[symmetric])
  qed
qed

text \<open>
  C36. The port graph reflects the table of banners: if the queries answer what their text asks for, then however the hash maps
  are iterated the graph counts for every port the hosts that have it open and for every two ports the hosts that have
  both open, and it recommends exactly the ports seen and the seed ports, the most frequent first.
\<close>
theorem graph_reflects_table:
  assumes db: "answers_counts tbl db" and ord: "\<forall>xs. mset (ord xs) = mset xs" "\<forall>xs. mset (ord' xs) = mset xs"
  shows "\<exists>g. build_graph ord ord' thr db seeds = Inr g \<and> (\<forall>p. unat (open_count g p) = card (hosts tbl p))
     \<and> (\<forall>i j. i \<noteq> j \<longrightarrow> unat (co_count g i j) = card (hosts tbl i \<inter> hosts tbl j))
     \<and> set (recommendations g) = snd ` set tbl \<union> set seeds
     \<and> sorted_wrt (\<lambda>p q. card (hosts tbl q) \<le> card (hosts tbl p)) (recommendations g)"
proof -
  obtain n ports pairs where n: "db_total db = Inr n" "unat n = card (fst ` set tbl)"
    and ports: "db_ports db = Inr ports" "distinct (map fst ports)" "fst ` set ports = snd ` set tbl"
      "\<forall>(p, c) \<in> set ports. unat c = card (hosts tbl p)"
    and pairs: "db_pairs db = Inr pairs" "distinct (map (\<lambda>(i, j, c). (i, j)) pairs)"
      "(\<lambda>(i, j, c). (i, j)) ` set pairs = {(i, j). i \<noteq> j \<and> hosts tbl i \<inter> hosts tbl j \<noteq> {}}"
      "\<forall>(i, j, c) \<in> set pairs. unat c = card (hosts tbl i \<inter> hosts tbl j)"
    using db unfolding answers_counts_def by (elim conjE exE) (rule that; assumption)
  show ?thesis
  proof (cases "n = 0")
    case True
    then have "tbl = []" using n(2) by simp
    then show ?thesis
      using True n(1) from_counts_reflect[of "[]" tbl "[]" _ 0 seeds thr] recommendations_from_counts[of "[]" "[]" 0 seeds thr]
      by (simp add: build_graph_def hosts_def)
  next
    case False
    define co where "co = map (\<lambda>(i, j, c). ((i, j), c)) pairs"
    have f: "map fst co = map (\<lambda>(i, j, c). (i, j)) pairs" by (auto simp: co_def)
    have c: "distinct (map fst co)" "fst ` set co = (\<lambda>(i, j, c). (i, j)) ` set pairs"
      using pairs(2) f by (simp, metis f list.set_map)
    note p1 = map_of_perm[OF spec[OF ord(1)] ports(2)] and p2 = map_of_perm[OF spec[OF ord(2)] c(1)]
    define g where "g = from_counts (ord ports) (ord' co) n seeds thr"
    have b: "build_graph ord ord' thr db seeds = Inr g"
      using False n(1) ports(1) pairs(1) collect_map_distinct[OF ports(2)] collect_map_distinct[OF c(1)]
      by (simp add: build_graph_def g_def co_def)
    have q1: "fst ` set (ord ports) = snd ` set tbl" unfolding p1(3) by (rule ports(3))
    have q2: "\<forall>(p, c) \<in> set (ord ports). unat c = card (hosts tbl p)" unfolding p1(3) by (rule ports(4))
    have q3: "fst ` set (ord' co) = {(i, j). i \<noteq> j \<and> hosts tbl i \<inter> hosts tbl j \<noteq> {}}" unfolding p2(3) c(2) by (rule pairs(3))
    have q4: "\<forall>((i, j), c) \<in> set (ord' co). unat c = card (hosts tbl i \<inter> hosts tbl j)"
      unfolding p2(3) using pairs(4) by (fastforce simp: co_def)
    note r = from_counts_reflect[OF p1(2) q1 q2 p2(2) q3 q4 g_def]
    have "set (recommendations g) = snd ` set tbl \<union> set seeds"
      using recommendations_from_counts[of "ord ports" "ord' co" n seeds thr] p1(3) ports(3) by (simp add: g_def)
    then show ?thesis using b r by blast
  qed
qed

text \<open>Two hosts, one with two open ports; the maps are iterated backwards.\<close>

definition demo_db :: "string database" where
  "demo_db = \<lparr>db_total = Inr 2, db_ports = Inr [(25565, 1), (25566, 2)], db_pairs = Inr [(25565, 25566, 1), (25566, 25565, 1)],
     db_hits = Inr [Inr (0x01020304, 2), Inr (0x05060708, 1)], db_ips = Inr [Inr 0x05060708, Inr 0x01020304]\<rparr>"

theorem graph_reflects_table_witness:
  "\<exists>g. build_graph rev rev 3 demo_db [1, 25565] = Inr g \<and> unat (open_count g 25566) = 2 \<and> unat (co_count g 25565 25566) = 1
     \<and> set (recommendations g) = {25565, 25566, 1}"
proof -
  let ?tbl = "[(0x01020304, 25565), (0x01020304, 25566), (0x05060708, 25566)] :: table"
  have e: "hosts ?tbl p = (if p = 25565 then {0x01020304} else if p = 25566 then {0x01020304, 0x05060708} else {})" for p
    by (auto simp: hosts_def)
  then have h: "hosts ?tbl 25565 = {0x01020304}" "hosts ?tbl 25566 = {0x01020304, 0x05060708}" by simp_all
  have "{(i, j). i \<noteq> j \<and> hosts ?tbl i \<inter> hosts ?tbl j \<noteq> {}} = {(25565, 25566), (25566, 25565)}"
    unfolding e by (auto split: if_splits)
  then have "answers_counts ?tbl demo_db" by (auto simp: answers_counts_def demo_db_def h)
  from graph_reflects_table[OF this, of rev rev 3 "[1, 25565]"] obtain g where
    g: "build_graph rev rev 3 demo_db [1, 25565] = Inr g" "\<forall>p. unat (open_count g p) = card (hosts ?tbl p)"
      "\<forall>i j. i \<noteq> j \<longrightarrow> unat (co_count g i j) = card (hosts ?tbl i \<inter> hosts ?tbl j)"
      "set (recommendations g) = snd ` set ?tbl \<union> set [1, 25565]" by auto
  have "unat (open_count g 25566) = 2" "unat (co_count g 25565 25566) = 1"
    using spec[OF g(2), of 25566] spec[OF spec[OF g(3), of 25565], of 25566] by (simp_all add: h)
  moreover have "set (recommendations g) = {25565, 25566, 1}" unfolding g(4) by auto
  ultimately show ?thesis using g(1) by blast
qed

lemma score_upd:
  "historical_score (prefix_from_counts (m(k \<mapsto> v))) p = (if p = k then v else historical_score (prefix_from_counts m) p)"
  by (simp add: historical_score_def prefix_from_counts_def)

lemma add_hits_sum:
  "\<exists>m'. add_hits (map Inr rows) m = Inr m' \<and> (\<forall>p. historical_score (prefix_from_counts m') p
     = historical_score (prefix_from_counts m) p + (\<Sum>(ip, c) \<leftarrow> rows. if drop_bit 8 ip = p then c else 0))"
proof (induction rows arbitrary: m)
  case (Cons r rows)
  obtain ip c where r: "r = (ip, c)" by (metis surj_pair)
  have "(case m k of None \<Rightarrow> 0 | Some n \<Rightarrow> n) = historical_score (prefix_from_counts m) k" for k
    by (simp add: historical_score_def prefix_from_counts_def split: option.split)
  then have a: "add_hits (map Inr (r # rows)) m
      = add_hits (map Inr rows) (m(drop_bit 8 ip \<mapsto> historical_score (prefix_from_counts m) (drop_bit 8 ip) + c))"
    by (simp add: r Let_def)
  obtain m' where m': "add_hits (map Inr rows :: ('a + _) list) (m(drop_bit 8 ip \<mapsto> historical_score (prefix_from_counts m) (drop_bit 8 ip) + c)) = Inr m'"
    "\<forall>p. historical_score (prefix_from_counts m') p = (if p = drop_bit 8 ip then historical_score (prefix_from_counts m) (drop_bit 8 ip) + c
       else historical_score (prefix_from_counts m) p) + (\<Sum>(ip, c) \<leftarrow> rows. if drop_bit 8 ip = p then c else 0)"
    using Cons[of "m(drop_bit 8 ip \<mapsto> historical_score (prefix_from_counts m) (drop_bit 8 ip) + c)"] unfolding score_upd by blast
  show ?case unfolding a m'(1) using m'(2) by (intro exI[of _ m']) (simp add: r add.assoc)
qed simp

text \<open>The score of a prefix is the sum of the counts of all rows whose address has that prefix.\<close>

theorem prefix_scores_sum:
  fixes db :: "'e database"
  assumes "db_hits db = Inr (map Inr rows)"
  shows "\<exists>pg. build_prefix_graph db = Inr pg
     \<and> (\<forall>p. historical_score pg p = (\<Sum>(ip, c) \<leftarrow> rows. if drop_bit 8 ip = p then c else 0))"
proof -
  obtain m where "add_hits (map Inr rows :: ('e + _) list) Map.empty = Inr m"
    "\<forall>p. historical_score (prefix_from_counts m) p = (\<Sum>(ip, c) \<leftarrow> rows. if drop_bit 8 ip = p then c else 0)"
    using add_hits_sum[of rows Map.empty] by (auto simp: historical_score_def prefix_from_counts_def)
  then show ?thesis using assms by (simp add: build_prefix_graph_def)
qed

theorem prefix_scores_sum_witness:
  "\<exists>pg. build_prefix_graph demo_db = Inr pg \<and> historical_score pg 0x010203 = 2 \<and> historical_score pg 7 = 0"
  using prefix_scores_sum[of demo_db "[(0x01020304, 2), (0x05060708, 1)]"] by (auto simp: demo_db_def)

section \<open>The scope of a session\<close>

text \<open>The rows that a rescan reads: at most \<open>n\<close>, but always the first.\<close>

definition selected :: "selector \<Rightarrow> u32 list \<Rightarrow> ipv4 set" where
  "selected sel rows = (case sel of All_selector \<Rightarrow> UNIV | Rescan_selector n \<Rightarrow> set (take (max 1 n) rows))"

lemma read_loop_rows: "read_loop n (map Inr rows) acc = Inr (acc @ take (max 1 (n - length acc)) rows)"
proof (induction rows arbitrary: acc)
  case (Cons r rows)
  show ?case
  proof (cases "n \<le> Suc (length acc)")
    case True
    then have "max 1 (n - length acc) = 1" by simp
    then show ?thesis using True by (simp add: Let_def)
  next
    case False
    then have "max 1 (n - length acc) = Suc (max 1 (n - length (acc @ [r])))" by auto
    then show ?thesis using False Cons[of "acc @ [r]"] by (simp add: Let_def)
  qed
qed simp

lemma from_addresses_sorted:
  "distinct xs \<Longrightarrow> ascending (inner (from_addresses (sort xs))) \<and> ranges_set (inner (from_addresses (sort xs))) = set xs"
  for xs :: "ipv4 list"
proof -
  assume "distinct xs"
  then have "sorted_wrt (<) (sort xs)" by (simp add: strict_sorted_iff)
  then show ?thesis by (auto simp: ascending_def from_addresses_def ranges_set_def range_set_def sorted_wrt_map)
qed

lemma select_ranges:
  assumes "db_ips db = Inr (map Inr rows)" "distinct rows"
  shows "\<exists>rgs. select db sel = Inr rgs \<and> ascending (inner rgs) \<and> ranges_set (inner rgs) = selected sel rows"
proof (cases sel)
  case All_selector
  have "x \<le> 0xFFFFFFFF" for x :: ipv4 using unat_bounds(3)[of x] by (simp add: word_le_nat_alt)
  then have "{0..0xFFFFFFFF} = (UNIV :: ipv4 set)" by auto
  then show ?thesis using All_selector by (simp add: ascending_def from_range_def ranges_set_def range_set_def selected_def)
next
  case (Rescan_selector n)
  then show ?thesis
    using assms from_addresses_sorted[of "take (max 1 n) rows"]
    by (simp add: read_ranges_def selected_def read_loop_rows)
qed

lemma session_ranges:
  assumes "parse input = Inr excludes" "db_ips db = Inr (map Inr rows)" "distinct rows"
  obtains t where "controller_session db excludes sel = Inr t" "compiled t"
    "ranges_set (inner t) = selected sel rows - ranges_set (inner excludes)"
proof -
  obtain rgs where s: "select db sel = Inr rgs" "ascending (inner rgs)" "ranges_set (inner rgs) = selected sel rows"
    using select_ranges[OF assms(2,3)] by blast
  let ?r = "exclude rgs excludes"
  have m: "ascending (inner ?r)" "ranges_set (inner ?r) = selected sel rows - ranges_set (inner excludes)"
    using exclude_minus[OF s(2) parse_by_start[OF assms(1)]] s(3) by (simp_all add: minus_spec_def)
  then show thesis using s(1) by (intro that[of "compile ?r"]) (auto simp: compiled_def controller_session_def ranges_set_compile)
qed



section \<open>Every banner is written\<close>

definition received :: "('s, 'x) flush_obs \<Rightarrow> 's list" where
  "received ob = (case fo_event ob of Received xs \<Rightarrow> xs | _ \<Rightarrow> [])"

definition do_writes :: "('s list \<times> (nat \<Rightarrow> bool)) list \<Rightarrow> (bool \<times> 's insert_op list) list" where
  "do_writes bs = map (\<lambda>(rows, oks). write_many oks rows) bs"

text \<open>What was received is what was written, what is being written and what is gathered, in order.\<close>

definition flush_inv :: "'s list \<Rightarrow> ('s, 'y) flusher \<Rightarrow> bool" where
  "flush_inv got st \<longleftrightarrow> (\<exists>bs. fl_writes st = do_writes bs
     \<and> got = concat (map fst bs) @ (case fl_task st of None \<Rightarrow> [] | Some (rows, _) \<Rightarrow> rows) @ fl_batch st)"

lemma do_writes_snoc: "do_writes (bs @ [(rows, oks)]) = do_writes bs @ [write_many oks rows]"
  by (simp add: do_writes_def)

lemma flush_inv_await:
  assumes "flush_inv got st"
  shows "flush_inv got (await_task st) \<and> fl_task (await_task st) = None \<and> fl_batch (await_task st) = fl_batch st"
proof (cases "fl_task st")
  case None
  then show ?thesis using assms by (simp add: await_task_def)
next
  case (Some t)
  obtain rows oks where t: "t = (rows, oks)" by fastforce
  obtain bs where "fl_writes st = do_writes bs" "got = concat (map fst bs) @ rows @ fl_batch st"
    using assms Some t by (auto simp: flush_inv_def)
  then show ?thesis
    using Some t by (auto simp: await_task_def flush_inv_def do_writes_snoc intro!: exI[of _ "bs @ [(rows, oks)]"])
qed

lemma flush_round_inv:
  assumes "flush_inv got st" "flush_round expire iv cap ob st = Some (st', r)"
  shows "flush_inv (got @ received ob) st'"
proof -
  obtain l d f pr where p: "printer_tick (fo_now ob) (fo_completed ob) (fo_filled ob) (fl_printer st) = (l, d, f, pr)"
    by (metis prod_cases4)
  obtain y x where e: "expire (fo_now ob) (fl_expirer st) (fo_shared ob) = Some (y, x)"
    using assms(2) p by (auto simp: flush_round_def Let_def split: option.splits)
  define st1 where "st1 = st\<lparr>fl_batch := fl_batch st @ received ob, fl_printer := pr, fl_expirer := y\<rparr>"
  have i1: "flush_inv (got @ received ob) st1"
    using assms(1) by (auto simp: flush_inv_def st1_def split: option.splits)
  note aw = flush_inv_await[OF i1]
  have i2: "flush_inv (got @ received ob) ((await_task st1)\<lparr>fl_batch := [], fl_task := Some (fl_batch st1, fo_oks ob), fl_last_flush := fo_flush_now ob\<rparr>)"
    using aw by (auto simp: flush_inv_def)
  have "st' = st1 \<or> st' = (await_task st1)\<lparr>fl_batch := [], fl_task := Some (fl_batch st1, fo_oks ob), fl_last_flush := fo_flush_now ob\<rparr>"
    using assms(2) p e by (auto simp: flush_round_def Let_def st1_def received_def split: if_splits)
  then show ?thesis using i1 i2 by auto
qed

lemma flush_end_inv:
  assumes "flush_inv got st"
  shows "\<exists>bs. fl_writes (flush_end oks st) = do_writes bs \<and> got = concat (map fst bs)"
proof -
  obtain bs where b: "fl_writes (await_task st) = do_writes bs" "got = concat (map fst bs) @ fl_batch st"
    using flush_inv_await[OF assms] by (auto simp: flush_inv_def)
  show ?thesis
  proof (cases "fl_batch st = []")
    case True
    then show ?thesis using b flush_inv_await[OF assms] by (auto simp: flush_end_def)
  next
    case False
    then show ?thesis using b flush_inv_await[OF assms]
      by (intro exI[of _ "bs @ [(fl_batch st, oks)]"]) (simp add: flush_end_def do_writes_snoc)
  qed
qed

text \<open>A write that succeeds is one complete insert of its rows.\<close>

lemma write_rows_ok: "write_rows oks i rows = (True, ops) \<Longrightarrow> ops = map Insert_row rows @ [Insert_end]"
  by (induction rows arbitrary: i ops) (auto split: if_splits prod.splits)

lemma write_many_ok: "write_many oks rows = (True, ops) \<Longrightarrow> rows = [] \<or> ops = Insert_begin # map Insert_row rows @ [Insert_end]"
  using write_rows_ok by (auto simp: write_many_def split: if_splits prod.splits)

text \<open>What the thread relies on: the expirer does not panic in any state that the other threads may leave.\<close>

locale expirer =
  fixes expire :: "nat \<Rightarrow> 'y \<Rightarrow> 'x \<Rightarrow> ('y \<times> 'x) option" and shared_ok :: "'x \<Rightarrow> bool"
  assumes expires: "shared_ok x \<Longrightarrow> \<exists>y' x'. expire now y x = Some (y', x') \<and> shared_ok x'"
begin

lemma rounds_inv:
  assumes "flush_inv got st" "\<forall>ob \<in> set obs. shared_ok (fo_shared ob) \<and> fo_event ob \<noteq> Closed"
  shows "\<exists>st'. flush_inv (got @ concat (map received obs)) st'
     \<and> (\<forall>rest. flush_loop expire iv cap (obs @ rest) st = flush_loop expire iv cap rest st')"
  using assms
proof (induction obs arbitrary: got st)
  case (Cons ob obs)
  obtain y x where e: "expire (fo_now ob) (fl_expirer st) (fo_shared ob) = Some (y, x)"
    using expires[of "fo_shared ob" "fo_now ob" "fl_expirer st"] Cons.prems(2) by auto
  obtain l d f pr where "printer_tick (fo_now ob) (fo_completed ob) (fo_filled ob) (fl_printer st) = (l, d, f, pr)"
    by (metis prod_cases4)
  with e obtain st1 r where r: "flush_round expire iv cap ob st = Some (st1, r)"
    by (simp add: flush_round_def Let_def)
  from Cons.IH[OF flush_round_inv[OF Cons.prems(1) r]] Cons.prems(2) obtain st' where
    "flush_inv ((got @ received ob) @ concat (map received obs)) st'"
    "\<forall>rest. flush_loop expire iv cap (obs @ rest) st1 = flush_loop expire iv cap rest st'" by auto
  then show ?case using r Cons.prems(2) by (intro exI[of _ st']) simp
qed auto

lemma all_written:
  assumes "\<forall>ob \<in> set obs. shared_ok (fo_shared ob) \<and> fo_event ob \<noteq> Closed" "fo_event ob = Closed"
  shows "\<exists>st bs. flush_loop expire iv cap (obs @ [ob]) (flusher_new now every y) = Some st \<and> fl_writes st = do_writes bs
     \<and> concat (map fst bs) = concat (map received obs)"
proof -
  have "flush_inv [] (flusher_new now every y)" by (auto simp: flush_inv_def flusher_new_def do_writes_def)
  from rounds_inv[OF this assms(1), of iv cap] obtain st where st: "flush_inv (concat (map received obs)) st"
    "flush_loop expire iv cap (obs @ [ob]) (flusher_new now every y) = flush_loop expire iv cap [ob] st" by auto
  from flush_end_inv[OF st(1), of "fo_oks ob"] show ?thesis using st(2) assms(2) by auto
qed

end

text \<open>The port strategy keeps that promise in every interleaving of its operations.\<close>

lemma pmap_expire_refines:
  assumes "dq_valid d" "port_expire now n pending (dq_items d) a = Some (p', q', a')"
  shows "\<exists>d'. pmap_expire n now pending (d, a) = Some (p', d', a') \<and> dq_valid d' \<and> dq_items d' = q'"
  using assms
proof (induction n arbitrary: pending d a)
  case (Suc n)
  have go: ?case
    if "dq_valid d1" "port_expire now (Suc n) pending (dq_items d) a = port_expire now (Suc n) (Some e) (dq_items d1) a"
      "pmap_expire (Suc n) now pending (d, a) = pmap_expire (Suc n) now (Some e) (d1, a)" for e d1
  proof (cases e)
    case (Pair t key)
    have p: "port_expire now (Suc n) (Some (t, key)) (dq_items d1) a = Some (p', q', a')"
      using Suc.prems(2) that(2) Pair by simp
    show ?thesis
    proof (cases "t > now")
      case True
      then show ?thesis unfolding that(3) Pair using p that(1) by auto
    next
      case False
      then obtain a1 where "remove_state key a = Some a1" "port_expire now n None (dq_items d1) a1 = Some (p', q', a')"
        using p by (auto split: option.splits)
      then show ?thesis unfolding that(3) Pair using Suc.IH[OF that(1), of None a1] False by simp
    qed
  qed
  show ?case
  proof (cases pending)
    case None
    show ?thesis
    proof (cases "dq_items d")
      case Nil
      then show ?thesis using Suc.prems None steal_items[OF Suc.prems(1)] by simp
    next
      case (Cons e q)
      obtain d1 where "steal d = (Success (Some e), d1)" "dq_valid d1" "dq_items d1 = q"
        using steal_items[OF Suc.prems(1)] Cons by auto
      then show ?thesis using Cons None by (intro go[of d1 e]) simp_all
    qed
  next
    case (Some e)
    then show ?thesis using Suc.prems(1) by (intro go[of d e]) simp_all
  qed
qed auto

definition strategy_reachable :: "('f::linorder, 'r) port_env \<Rightarrow> expiry deque \<times> 'f port_adapter \<Rightarrow> bool" where
  "strategy_reachable env = (\<lambda>(d, a). dq_valid d \<and> (\<exists>gs. port_run env a gs))"

interpretation pex: expirer "pmap_expire n" "strategy_reachable env" for n env
proof
  fix x :: "expiry deque \<times> 'a port_adapter" and now y
  assume "strategy_reachable env x"
  then obtain d a gs where x: "x = (d, a)" "port_run env a gs" "dq_valid d" by (auto simp: strategy_reachable_def)
  obtain y' q' a' where e: "port_expire now n y (dq_items d) a = Some (y', q', a')"
    using port_expire_inv[OF port_run_inv[OF x(2)]] by blast
  have "port_run env a' gs" by (rule run_expire[OF x(2) e])
  then show "\<exists>y' x'. pmap_expire n now y x = Some (y', x') \<and> strategy_reachable env x'"
    using pmap_expire_refines[OF x(3) e] x(1) by (auto simp: strategy_reachable_def)
qed

text \<open>
  Every banner that reaches the database thread is handed to the client: whatever the other threads do to the port
  strategy's state in between, the thread runs until the channel is closed, and the batches it writes, put one after the other,
  are the banners received, in order. Writes do not overlap, a write that succeeds is one complete insert of its batch,
  and one that fails loses only its own batch.
\<close>
theorem banners_written:
  assumes "\<forall>ob \<in> set obs. strategy_reachable env (fo_shared ob) \<and> fo_event ob \<noteq> Closed" "fo_event ob = Closed"
  shows "\<exists>st bs. flush_loop (pmap_expire n) iv cap (obs @ [ob]) (flusher_new now every y) = Some st
     \<and> fl_writes st = do_writes bs \<and> concat (map fst bs) = concat (map received obs)
     \<and> (\<forall>(rows, oks) \<in> set bs. fst (write_many oks rows) \<longrightarrow>
          rows = [] \<or> snd (write_many oks rows) = Insert_begin # map Insert_row rows @ [Insert_end])"
proof -
  have "fst (write_many oks rows) \<Longrightarrow> rows = [] \<or> snd (write_many oks rows) = Insert_begin # map Insert_row rows @ [Insert_end]"
    for oks and rows :: "'s list"
    by (rule write_many_ok) (simp add: prod_eq_iff)
  then show ?thesis using pex.all_written[OF assms, of n iv cap now every y] by blast
qed

definition demo_flush_obs :: "nat \<Rightarrow> nat flush_event \<Rightarrow> (nat, expiry deque \<times> nat port_adapter) flush_obs" where
  "demo_flush_obs t ev = \<lparr>fo_event = ev, fo_now = t, fo_flush_now = t, fo_completed = 5, fo_filled = 7,
     fo_shared = (worker_new, port_new (from_counts [] [] 0 [25565] 3) 2 0 1 (Single 61000)), fo_oks = \<lambda>_. True\<rparr>"

theorem banners_written_witness:
  "\<exists>st bs. flush_loop (pmap_expire 4) 10 2 [demo_flush_obs 1 (Received [4]), demo_flush_obs 2 Housekeeping,
        demo_flush_obs 4 (Received [5, 6]), demo_flush_obs 5 (Received [7]), demo_flush_obs 9 Closed]
      (flusher_new 0 100 None) = Some st
     \<and> fl_writes st = do_writes bs \<and> concat (map fst bs) = [4, 5, 6, 7]"
proof -
  let ?obs = "[demo_flush_obs 1 (Received [4]), demo_flush_obs 2 Housekeeping, demo_flush_obs 4 (Received [5, 6]), demo_flush_obs 5 (Received [7])]"
  have r: "strategy_reachable PortStrategy.demo_env (fo_shared (demo_flush_obs t ev))" for t ev
    unfolding demo_flush_obs_def strategy_reachable_def by (auto intro: run_new worker_new_valid)
  then have ev: "\<forall>ob \<in> set ?obs. strategy_reachable PortStrategy.demo_env (fo_shared ob) \<and> fo_event ob \<noteq> Closed"
    by (simp add: r) (simp add: demo_flush_obs_def)
  have c: "fo_event (demo_flush_obs 9 Closed) = Closed" by (simp add: demo_flush_obs_def)
  from banners_written[OF ev c, of 4 10 2 0 100 None] obtain st bs where
    "flush_loop (pmap_expire 4) 10 2 (?obs @ [demo_flush_obs 9 Closed]) (flusher_new 0 100 None) = Some st"
    "fl_writes st = do_writes bs" "concat (map fst bs) = concat (map received ?obs)"
    by (elim exE conjE) (rule that; assumption)
  moreover have "concat (map received ?obs) = [4, 5, 6, 7]" by (simp add: received_def demo_flush_obs_def)
  ultimately show ?thesis by (metis append_Cons append_Nil)
qed

end
