(* ===== verification/HostInfo.thy ===== *)
theory HostInfo
  imports Exclude
begin

text \<open>
  What the program finds out about its host: MAC addresses (\<^verbatim>\<open>net/mac.rs\<close>), its own address (\<^verbatim>\<open>net/ip.rs\<close>,
  \<^verbatim>\<open>net/interface.rs\<close>), the gateway (\<^verbatim>\<open>net/gateway.rs\<close>), the name of the interface in a request to the kernel
  (\<^verbatim>\<open>net/nic.rs\<close>) and the size of huge pages (\<^verbatim>\<open>xdp/page.rs\<close>). The text of files, the messages of netlink and the
  answers of system calls are arguments.
\<close>

section \<open>Numbers\<close>

text \<open>\<^verbatim>\<open>from_str_radix\<close> for an unsigned type with greatest value \<open>lim\<close>: an optional plus sign, then digits.\<close>

definition digit_of :: "char \<Rightarrow> nat option" where
  "digit_of c =
     (let n = of_char c in
      if 48 \<le> n \<and> n \<le> 57 then Some (n - 48)
      else if 97 \<le> n \<and> n \<le> 122 then Some (n - 87)
      else if 65 \<le> n \<and> n \<le> 90 then Some (n - 55) else None)"

fun digits_value :: "nat \<Rightarrow> nat \<Rightarrow> nat \<Rightarrow> string \<Rightarrow> nat option" where
  "digits_value radix lim acc [] = Some acc"
| "digits_value radix lim acc (c # cs) =
     (case digit_of c of
        None \<Rightarrow> None
      | Some d \<Rightarrow> if d < radix \<and> acc * radix + d \<le> lim then digits_value radix lim (acc * radix + d) cs else None)"

definition from_str_radix :: "nat \<Rightarrow> nat \<Rightarrow> string \<Rightarrow> nat option" where
  "from_str_radix radix lim s =
     (case s of
        [] \<Rightarrow> None
      | c # cs \<Rightarrow> if c = CHR ''+'' then (if cs = [] then None else digits_value radix lim 0 cs) else digits_value radix lim 0 s)"

section \<open>MAC addresses\<close>

datatype host_error = Mac_length | Mac_segments | Bad_number | No_address | Ip_length | Slice_panic | No_gateway | Not_in_cache
  | Netlink | Ping | Read_file | Name_too_long | No_socket | Bad_name | No_index | Ioctl

type_synonym mac_addr = "u8 list"

fun parse_octets :: "string list \<Rightarrow> host_error + u8 list" where
  "parse_octets [] = Inr []"
| "parse_octets (s # ss) =
     (case from_str_radix 16 255 s of
        None \<Rightarrow> Inl Bad_number
      | Some v \<Rightarrow> (case parse_octets ss of Inl e \<Rightarrow> Inl e | Inr vs \<Rightarrow> Inr (word_of_nat v # vs)))"

definition mac_from_str :: "string \<Rightarrow> host_error + mac_addr" where
  "mac_from_str s =
     (if length s \<noteq> 17 then Inl Mac_length
      else let segments = split_on (CHR '':'') s
           in if length segments \<noteq> 6 then Inl Mac_segments else parse_octets segments)"

text \<open>\<^verbatim>\<open>interface::get_mac\<close>; the argument is what reading \<^verbatim>\<open>/sys/class/net/<name>/address\<close> gave.\<close>

definition interface_get_mac :: "string option \<Rightarrow> host_error + mac_addr" where
  "interface_get_mac content = (case content of None \<Rightarrow> Inl Read_file | Some s \<Rightarrow> mac_from_str (trim s))"

definition name_to_index :: "(string \<Rightarrow> u32) \<Rightarrow> string \<Rightarrow> host_error + u32" where
  "name_to_index if_nametoindex name =
     (if CHR 0x00 \<in> set name then Inl Bad_name
      else let if_index = if_nametoindex name in if if_index = 0 then Inl No_index else Inr if_index)"

section \<open>Addresses\<close>

text \<open>A node of the list of \<^verbatim>\<open>getifaddrs\<close>: its name, and the family and the bytes of \<^verbatim>\<open>sin_addr\<close> of its address, if it has one.\<close>

record ifaddrs_node =
  ifa_name :: string
  ifa_addr :: "(u16 \<times> u8 \<times> u8 \<times> u8 \<times> u8) option"

record if_addr =
  if_name :: string
  if_ip :: "ipv4 option"

definition AF_INET :: u16 where "AF_INET = 2"

definition ifaddrs_next :: "ifaddrs_node list \<Rightarrow> (if_addr \<times> ifaddrs_node list) option" where
  "ifaddrs_next self =
     (case self of
        [] \<Rightarrow> None
      | node # rest \<Rightarrow>
          (let addr = (case ifa_addr node of
                         None \<Rightarrow> None
                       | Some (family, a, b, c, d) \<Rightarrow> if family = AF_INET then Some (from_be32 a b c d) else None)
           in Some (\<lparr>if_name = ifa_name node, if_ip = addr\<rparr>, rest)))"

function get_local_ip :: "string \<Rightarrow> ifaddrs_node list \<Rightarrow> host_error + ipv4" where
  "get_local_ip iface ifaddrs =
     (case ifaddrs_next ifaddrs of
        None \<Rightarrow> Inl No_address
      | Some (ifaddr, rest) \<Rightarrow>
          (case if_ip ifaddr of
             None \<Rightarrow> get_local_ip iface rest
           | Some ip \<Rightarrow> if if_name ifaddr \<noteq> iface then get_local_ip iface rest else Inr ip))"
  by pat_completeness auto
termination
  by (relation "measure (\<lambda>(iface, ifaddrs). length ifaddrs)") (auto simp: ifaddrs_next_def split: list.splits)

declare get_local_ip.simps [simp del]

text \<open>\<^verbatim>\<open>ip::parse\<close>; a slice that would cut a character of several bytes panics.\<close>

definition is_boundary :: "string \<Rightarrow> nat \<Rightarrow> bool" where
  "is_boundary s i = (i = length s \<or> i < length s \<and> \<not> (128 \<le> (of_char (s ! i) :: nat) \<and> (of_char (s ! i) :: nat) < 192))"

definition ip_parse :: "string \<Rightarrow> host_error + ipv4" where
  "ip_parse s =
     (let octet = (\<lambda>i. if is_boundary s i \<and> is_boundary s (i + 2)
                       then (case from_str_radix 16 255 (take 2 (drop i s)) of None \<Rightarrow> Inl Bad_number | Some v \<Rightarrow> Inr (word_of_nat v :: u8))
                       else Inl Slice_panic)
      in if length s \<noteq> 8 then Inl Ip_length
         else case octet 6 of Inl e \<Rightarrow> Inl e | Inr o1 \<Rightarrow>
           (case octet 4 of Inl e \<Rightarrow> Inl e | Inr o2 \<Rightarrow>
           (case octet 2 of Inl e \<Rightarrow> Inl e | Inr o3 \<Rightarrow>
           (case octet 0 of Inl e \<Rightarrow> Inl e | Inr o4 \<Rightarrow> Inr (from_be32 o1 o2 o3 o4)))))"

section \<open>The gateway\<close>

fun find_map :: "('a \<Rightarrow> 'b option) \<Rightarrow> 'a list \<Rightarrow> 'b option" where
  "find_map f [] = None"
| "find_map f (x # xs) = (case f x of Some y \<Rightarrow> Some y | None \<Rightarrow> find_map f xs)"

datatype route_attribute = Oif u32 | Gateway_inet ipv4 | Route_other

record route =
  destination_prefix_length :: u8
  route_attributes :: "route_attribute list"

datatype neigh_attribute = Destination_inet ipv4 | Link_layer bytes | Neigh_other

type_synonym neigh = "neigh_attribute list"

text \<open>A stream of messages; one that could not be read ends the search with an error.\<close>

fun get_gateway_ip :: "u32 \<Rightarrow> route option list \<Rightarrow> host_error + ipv4" where
  "get_gateway_ip interface_index [] = Inl No_gateway"
| "get_gateway_ip interface_index (None # routes) = Inl Netlink"
| "get_gateway_ip interface_index (Some r # routes) =
     (if destination_prefix_length r \<noteq> 0 then get_gateway_ip interface_index routes
      else if find_map (\<lambda>a. case a of Oif idx \<Rightarrow> Some idx | _ \<Rightarrow> None) (route_attributes r) \<noteq> Some interface_index
      then get_gateway_ip interface_index routes
      else case find_map (\<lambda>a. case a of Gateway_inet addr \<Rightarrow> Some addr | _ \<Rightarrow> None) (route_attributes r) of
             Some ip \<Rightarrow> Inr ip
           | None \<Rightarrow> get_gateway_ip interface_index routes)"

fun get_mac_from_neigh :: "ipv4 \<Rightarrow> neigh option list \<Rightarrow> host_error + mac_addr" where
  "get_mac_from_neigh gateway_ip [] = Inl Not_in_cache"
| "get_mac_from_neigh gateway_ip (None # neighs) = Inl Netlink"
| "get_mac_from_neigh gateway_ip (Some n # neighs) =
     (if find_map (\<lambda>a. case a of Destination_inet addr \<Rightarrow> Some addr | _ \<Rightarrow> None) n \<noteq> Some gateway_ip
      then get_mac_from_neigh gateway_ip neighs
      else case find_map (\<lambda>a. case a of Link_layer bs \<Rightarrow> if length bs = 6 then Some bs else None | _ \<Rightarrow> None) n of
             Some m \<Rightarrow> Inr m
           | None \<Rightarrow> get_mac_from_neigh gateway_ip neighs)"

text \<open>\<^verbatim>\<open>gateway::inner\<close>: \<open>before\<close> and \<open>after\<close> are the neighbour tables before and after the ping.\<close>

definition gateway_inner :: "route option list \<Rightarrow> neigh option list \<Rightarrow> (ipv4 \<Rightarrow> bool) \<Rightarrow> neigh option list \<Rightarrow> u32 \<Rightarrow> host_error + mac_addr" where
  "gateway_inner routes before ping after interface_index =
     (case get_gateway_ip interface_index routes of
        Inl e \<Rightarrow> Inl e
      | Inr gateway_ip \<Rightarrow>
          (case get_mac_from_neigh gateway_ip before of
             Inr mac \<Rightarrow> Inr mac
           | Inl _ \<Rightarrow> if ping gateway_ip then get_mac_from_neigh gateway_ip after else Inl Ping))"

section \<open>The name of the interface\<close>

definition IFNAMSIZ :: nat where "IFNAMSIZ = 16"

record queue_counts =
  q_rx :: u32
  q_tx :: u32
  q_other :: u32
  q_combined :: u32

record nic_queues =
  q_max :: queue_counts
  q_current :: queue_counts

text \<open>The bytes of \<^verbatim>\<open>ifr_name\<close>; \<open>inet\<close> and \<open>netlink\<close> say which kind of control socket can be made.\<close>

definition interface_info_new :: "bool \<Rightarrow> bool \<Rightarrow> bytes \<Rightarrow> host_error + bytes" where
  "interface_info_new inet netlink dev =
     (if length dev > IFNAMSIZ - 1 then Inl Name_too_long
      else if \<not> inet \<and> \<not> netlink then Inl No_socket
      else Inr (dev @ replicate (IFNAMSIZ - length dev) 0))"

definition queues :: "(bytes \<Rightarrow> nic_queues option) \<Rightarrow> bytes \<Rightarrow> host_error + nic_queues" where
  "queues ioctl ifr_name = (case ioctl ifr_name of None \<Rightarrow> Inl Ioctl | Some q \<Rightarrow> Inr q)"

section \<open>Huge pages\<close>

fun words_acc :: "string \<Rightarrow> string \<Rightarrow> string list" where
  "words_acc acc [] = (if acc = [] then [] else [acc])"
| "words_acc acc (c # cs) =
     (if is_whitespace c then (if acc = [] then words_acc [] cs else acc # words_acc [] cs) else words_acc (acc @ [c]) cs)"

definition split_whitespace :: "string \<Rightarrow> string list" where
  "split_whitespace s = words_acc [] s"

definition strip_prefix :: "string \<Rightarrow> string \<Rightarrow> string option" where
  "strip_prefix p s = (if take (length p) s = p then Some (drop (length p) s) else None)"

definition HUGE :: string where "HUGE = ''Hugepagesize:''"

fun hugepage_lines :: "string list \<Rightarrow> usize option" where
  "hugepage_lines [] = None"
| "hugepage_lines (line # rest) =
     (case strip_prefix HUGE line of
        None \<Rightarrow> hugepage_lines rest
      | Some tail \<Rightarrow>
          (case split_whitespace tail of
             [] \<Rightarrow> None
           | part # parts \<Rightarrow>
               (case from_str_radix 10 (2 ^ 64 - 1) part of
                  None \<Rightarrow> None
                | Some v \<Rightarrow>
                    (case parts of
                       [] \<Rightarrow> Some (word_of_nat v * 1)
                     | unit # _ \<Rightarrow> if unit = ''kB'' then Some (word_of_nat v * 1024) else None))))"

definition parse_hugepage_size :: "string \<Rightarrow> usize option" where
  "parse_hugepage_size s = hugepage_lines (lines s)"

section \<open>Reading back what was printed\<close>

definition digit_chr :: "nat \<Rightarrow> char" where
  "digit_chr d = (if d < 10 then char_of (48 + d) else char_of (87 + d))"

fun show_digits :: "nat \<Rightarrow> nat \<Rightarrow> string" where
  "show_digits radix n = (if radix < 2 \<or> n < radix then [digit_chr n] else show_digits radix (n div radix) @ [digit_chr (n mod radix)])"

declare show_digits.simps [simp del]

lemma digit_of_chr: "d < 36 \<Longrightarrow> digit_of (digit_chr d) = Some d"
  by (auto simp: digit_of_def digit_chr_def Let_def)

lemma digits_value_append:
  "digits_value radix lim acc (xs @ ys) = (case digits_value radix lim acc xs of None \<Rightarrow> None | Some a \<Rightarrow> digits_value radix lim a ys)"
  by (induction xs arbitrary: acc) (auto split: option.split)

lemma digits_value_show:
  assumes "2 \<le> radix" "radix \<le> 36" "n \<le> lim"
  shows "digits_value radix lim 0 (show_digits radix n) = Some n"
  using assms(3)
proof (induction n rule: less_induct)
  case (less n)
  show ?case
  proof (cases "n < radix")
    case True
    then show ?thesis using less.prems assms(2) by (simp add: show_digits.simps[of radix n] digit_of_chr)
  next
    case False
    have "n div radix < n" using False assms(1) by (intro div_less_dividend) auto
    then have "digits_value radix lim 0 (show_digits radix (n div radix)) = Some (n div radix)"
      using less.prems by (intro less.IH) auto
    moreover have "n mod radix < radix" "n mod radix < 36"
      using assms(1,2) mod_less_divisor[of radix n] by linarith+
    ultimately show ?thesis
      using False assms less.prems by (subst show_digits.simps) (simp add: digits_value_append digit_of_chr)
  qed
qed

lemma digit_chr_ascii:
  assumes "d < 36"
  shows "digit_chr d \<noteq> CHR ''+''" "digit_chr d \<noteq> CHR '':''" "\<not> is_whitespace (digit_chr d)"
proof -
  have n: "of_char (digit_chr d) = (if d < 10 then 48 + d else 87 + d :: nat)" using assms by (simp add: digit_chr_def)
  show "\<not> is_whitespace (digit_chr d)" using n by (auto simp: is_whitespace_def Let_def)
  have "of_char (digit_chr d) \<noteq> (43 :: nat)" "of_char (digit_chr d) \<noteq> (58 :: nat)" using n by auto
  then show "digit_chr d \<noteq> CHR ''+''" "digit_chr d \<noteq> CHR '':''" by auto
qed

lemma show_digits_chars:
  assumes "2 \<le> radix" "radix \<le> 36" "c \<in> set (show_digits radix n)"
  shows "\<exists>d < 36. c = digit_chr d"
  using assms(3)
proof (induction n rule: less_induct)
  case (less n)
  show ?case
  proof (cases "n < radix")
    case True
    then show ?thesis using less.prems assms(1,2) by (auto simp: show_digits.simps[of radix n] intro!: exI[of _ n])
  next
    case False
    have "n mod radix < 36" using assms(1,2) mod_less_divisor[of radix n] by linarith
    moreover have "n div radix < n" using False assms(1) by (intro div_less_dividend) auto
    moreover have "c \<in> set (show_digits radix (n div radix)) \<or> c = digit_chr (n mod radix)"
      using less.prems False assms(1) by (auto simp: show_digits.simps[of radix n])
    ultimately show ?thesis using less.IH by blast
  qed
qed

lemma from_str_radix_show:
  assumes "2 \<le> radix" "radix \<le> 36" "n \<le> lim"
  shows "from_str_radix radix lim (show_digits radix n) = Some n"
proof -
  have "show_digits radix n \<noteq> []" by (subst show_digits.simps) simp
  moreover have "hd (show_digits radix n) \<noteq> CHR ''+''"
    using show_digits_chars[OF assms(1,2), of "hd (show_digits radix n)" n] digit_chr_ascii(1) calculation by (metis list.set_sel(1))
  ultimately show ?thesis
    using digits_value_show[OF assms] by (cases "show_digits radix n") (auto simp: from_str_radix_def)
qed

section \<open>MAC addresses round trip\<close>

definition show_octet :: "u8 \<Rightarrow> string" where
  "show_octet w = [digit_chr (unat w div 16), digit_chr (unat w mod 16)]"

fun show_mac :: "mac_addr \<Rightarrow> string" where
  "show_mac [] = []"
| "show_mac [w] = show_octet w"
| "show_mac (w # ws) = show_octet w @ CHR '':'' # show_mac ws"

lemma octet_digits: "unat (w :: u8) div 16 < 16" "unat (w :: u8) mod 16 < 16"
  using unat_bounds(1)[of w] by auto

lemma parse_show_octet: "from_str_radix 16 255 (show_octet w) = Some (unat w)"
  using digit_chr_ascii(1)[of "unat w div 16"] octet_digits[of w] unat_bounds(1)[of w]
  by (simp add: from_str_radix_def show_octet_def digit_of_chr)

lemma octet_clean: "c \<in> set (show_octet w) \<Longrightarrow> c \<noteq> CHR '':'' \<and> \<not> is_whitespace c"
  using digit_chr_ascii(2,3) octet_digits[of w] by (auto simp: show_octet_def)

lemma colon_absent: "CHR '':'' \<notin> set (show_octet w)"
  using octet_clean by blast

lemma split_show_mac: "ws \<noteq> [] \<Longrightarrow> split_on (CHR '':'') (show_mac ws) = map show_octet ws"
proof (induction ws rule: show_mac.induct)
  case (2 w)
  then show ?case by (simp add: split_on_absent colon_absent)
next
  case (3 w v ws)
  then show ?case by (simp add: split_on_append colon_absent)
qed simp

lemma parse_octets_show: "parse_octets (map show_octet ws) = Inr ws"
  by (induction ws) (simp_all add: parse_show_octet)

lemma length_show_mac: "ws \<noteq> [] \<Longrightarrow> length (show_mac ws) = 3 * length ws - 1"
  by (induction ws rule: show_mac.induct) (auto simp: show_octet_def)

lemma show_mac_clean: "c \<in> set (show_mac ws) \<Longrightarrow> \<not> is_whitespace c"
  using octet_clean by (induction ws rule: show_mac.induct) (auto simp: is_whitespace_def)

lemma trim_line:
  assumes "\<forall>c \<in> set s. \<not> is_whitespace c" "is_whitespace w"
  shows "trim (s @ [w]) = s"
proof (cases s)
  case Nil
  then show ?thesis using assms(2) by (simp add: trim_def)
next
  case (Cons c cs)
  have "dropWhile is_whitespace (s @ [w]) = s @ [w]" using assms(1) Cons by simp
  moreover have "dropWhile is_whitespace (rev s) = rev s" using assms(1) by (cases "rev s") (auto simp: dropWhile_eq_self_iff)
  ultimately show ?thesis using assms(2) by (simp add: trim_def)
qed

text \<open>
  The MAC address of the interface is read as the kernel prints it: two lower-case hexadecimal digits for each octet,
  separated by colons and followed by a line break.
\<close>
theorem mac_roundtrip:
  assumes "length m = 6"
  shows "interface_get_mac (Some (show_mac m @ [CHR 0x0A])) = Inr m"
proof -
  have ne: "m \<noteq> []" using assms by auto
  have "trim (show_mac m @ [CHR 0x0A]) = show_mac m"
    by (rule trim_line) (auto simp: is_whitespace_def dest: show_mac_clean)
  then show ?thesis
    using assms ne by (simp add: interface_get_mac_def mac_from_str_def length_show_mac split_show_mac parse_octets_show)
qed

theorem mac_roundtrip_witness:
  "interface_get_mac (Some (''02:00:5e:10:00:ff'' @ [CHR 0x0A])) = Inr [0x02, 0, 0x5E, 0x10, 0, 0xFF]"
proof -
  have "show_mac [0x02, 0, 0x5E, 0x10, 0, 0xFF] = ''02:00:5e:10:00:ff''" by code_simp
  then show ?thesis using mac_roundtrip[of "[0x02, 0, 0x5E, 0x10, 0, 0xFF]"] by simp
qed

section \<open>What the searches find\<close>

lemma find_map_Some: "find_map f xs = Some y \<Longrightarrow> \<exists>x \<in> set xs. f x = Some y"
  by (induction xs) (auto split: option.splits)

lemma get_gateway_ip_route:
  "get_gateway_ip i routes = Inr ip \<Longrightarrow> \<exists>r. Some r \<in> set routes \<and> destination_prefix_length r = 0
     \<and> Oif i \<in> set (route_attributes r) \<and> Gateway_inet ip \<in> set (route_attributes r)"
proof (induction i routes rule: get_gateway_ip.induct)
  case (3 i r routes)
  then show ?case
    by (auto split: if_splits option.splits route_attribute.splits dest!: find_map_Some)
qed simp_all

lemma get_mac_from_neigh_entry:
  "get_mac_from_neigh ip neighs = Inr mac \<Longrightarrow> \<exists>n. Some n \<in> set neighs \<and> Destination_inet ip \<in> set n \<and> Link_layer mac \<in> set n \<and> length mac = 6"
proof (induction ip neighs rule: get_mac_from_neigh.induct)
  case (3 ip n neighs)
  then show ?case
    by (auto split: if_splits option.splits neigh_attribute.splits dest!: find_map_Some)
qed simp_all

text \<open>
  The MAC address that every packet is sent to is six bytes long and belongs, by the neighbour table, to the gateway of
  a default route through the configured interface; the gateway is pinged only if the table did not have it before.
\<close>
theorem gateway_mac_sound:
  assumes "gateway_inner routes before ping after i = Inr mac"
  shows "length mac = 6 \<and> (\<exists>r n gw. Some r \<in> set routes \<and> destination_prefix_length r = 0 \<and> Oif i \<in> set (route_attributes r)
     \<and> Gateway_inet gw \<in> set (route_attributes r) \<and> Destination_inet gw \<in> set n \<and> Link_layer mac \<in> set n
     \<and> (Some n \<in> set before \<or> Some n \<in> set after \<and> ping gw \<and> (\<exists>e. get_mac_from_neigh gw before = Inl e)))"
proof -
  obtain gw where gw: "get_gateway_ip i routes = Inr gw"
    using assms by (auto simp: gateway_inner_def split: sum.splits)
  obtain r where r: "Some r \<in> set routes" "destination_prefix_length r = 0" "Oif i \<in> set (route_attributes r)"
    "Gateway_inet gw \<in> set (route_attributes r)" using get_gateway_ip_route[OF gw] by blast
  show ?thesis
  proof (cases "get_mac_from_neigh gw before")
    case (Inr m)
    then have "m = mac" using assms gw by (simp add: gateway_inner_def)
    then show ?thesis using get_mac_from_neigh_entry[OF Inr] r by blast
  next
    case (Inl e)
    then have "ping gw" "get_mac_from_neigh gw after = Inr mac"
      using assms gw by (simp_all add: gateway_inner_def split: if_splits)
    then show ?thesis using get_mac_from_neigh_entry[of gw after mac] r Inl by blast
  qed
qed

theorem gateway_mac_sound_witness:
  "gateway_inner [Some \<lparr>destination_prefix_length = 24, route_attributes = [Oif 2]\<rparr>,
       Some \<lparr>destination_prefix_length = 0, route_attributes = [Route_other, Gateway_inet 0x0A000001, Oif 2]\<rparr>]
     [Some [Destination_inet 0x0A000007, Link_layer [1, 2, 3, 4, 5, 6]]] (\<lambda>_. True)
     [Some [Destination_inet 0x0A000001, Link_layer [2, 0, 0, 0, 0, 1]]] 2 = Inr [2, 0, 0, 0, 0, 1]
   \<and> length [2, 0, 0, 0, 0, 1 :: u8] = 6"
proof -
  have "gateway_inner [Some \<lparr>destination_prefix_length = 24, route_attributes = [Oif 2]\<rparr>,
       Some \<lparr>destination_prefix_length = 0, route_attributes = [Route_other, Gateway_inet 0x0A000001, Oif 2]\<rparr>]
     [Some [Destination_inet 0x0A000007, Link_layer [1, 2, 3, 4, 5, 6]]] (\<lambda>_. True)
     [Some [Destination_inet 0x0A000001, Link_layer [2, 0, 0, 0, 0, 1]]] 2 = Inr [2, 0, 0, 0, 0, 1]"
    by (simp add: gateway_inner_def)
  from this gateway_mac_sound[OF this] show ?thesis by blast
qed

text \<open>The local address is the first IPv4 address of the interface in the list.\<close>

definition node_ip :: "ifaddrs_node \<Rightarrow> ipv4 option" where
  "node_ip node = (case ifa_addr node of None \<Rightarrow> None | Some (family, a, b, c, d) \<Rightarrow> if family = AF_INET then Some (from_be32 a b c d) else None)"

lemma get_local_ip_first:
  "get_local_ip iface nodes = (case find_map (\<lambda>node. if ifa_name node = iface then node_ip node else None) nodes of
     None \<Rightarrow> Inl No_address | Some ip \<Rightarrow> Inr ip)"
  by (induction nodes) (subst get_local_ip.simps, auto simp: ifaddrs_next_def node_ip_def Let_def split: option.splits if_splits)+

text \<open>The kernel finds the name of the interface in the request, ended by a zero byte.\<close>

lemma interface_name_kept:
  assumes "interface_info_new inet netlink dev = Inr name" "0 \<notin> set dev"
  shows "length name = 16 \<and> takeWhile (\<lambda>b. b \<noteq> 0) name = dev \<and> length dev < 16"
  using assms by (auto simp: interface_info_new_def IFNAMSIZ_def takeWhile_append takeWhile_eq_all_conv split: if_splits)

section \<open>The size of huge pages\<close>

definition unlines :: "string list \<Rightarrow> string" where
  "unlines ls = concat (map (\<lambda>l. l @ [CHR 0x0A]) ls)"

lemma lines_unlines:
  assumes "\<forall>l \<in> set ls. CHR 0x0A \<notin> set l \<and> CHR 0x0D \<notin> set l"
  shows "lines (unlines ls) = ls"
proof -
  have "split_on (CHR 0x0A) (unlines ls) = ls @ [[]]"
    using assms by (induction ls) (auto simp: unlines_def split_on_append)
  moreover have "map strip_cr ls = ls" using assms by (intro map_idI) (auto simp: strip_cr_absent)
  ultimately show ?thesis by (simp add: lines_def Let_def butlast_append)
qed

lemma words_acc_word: "\<forall>c \<in> set w. \<not> is_whitespace c \<Longrightarrow> words_acc acc (w @ rest) = words_acc (acc @ w) rest"
  by (induction w arbitrary: acc) auto

text \<open>
  The size of huge pages is found in \<^verbatim>\<open>/proc/meminfo\<close>: after any lines about something else, the line with the size in
  kilobytes gives that many bytes, whatever follows.
\<close>
theorem hugepage_size_found:
  assumes clean: "\<forall>l \<in> set (pre @ post). CHR 0x0A \<notin> set l \<and> CHR 0x0D \<notin> set l"
    and other: "\<forall>l \<in> set pre. strip_prefix ''Hugepagesize:'' l = None" and n: "n * 1024 < 2 ^ 64"
  shows "parse_hugepage_size (unlines (pre @ (''Hugepagesize:    '' @ show_digits 10 n @ '' kB'') # post)) = Some (word_of_nat (n * 1024))"
proof -
  let ?d = "show_digits 10 n" and ?l = "''Hugepagesize:    '' @ show_digits 10 n @ '' kB''"
  have nw: "\<forall>c \<in> set ?d. \<not> is_whitespace c" using show_digits_chars[of 10 _ n] digit_chr_ascii(3) by fastforce
  have wn: "is_whitespace (CHR 0x0A)" "is_whitespace (CHR 0x0D)" by (simp_all add: is_whitespace_def)
  have "CHR 0x0A \<notin> set ?d" "CHR 0x0D \<notin> set ?d" using nw wn by blast+
  then have "lines (unlines (pre @ ?l # post)) = pre @ ?l # post" using clean by (intro lines_unlines) auto
  moreover have "hugepage_lines (ls @ rest) = hugepage_lines rest" if "\<forall>l \<in> set ls. strip_prefix ''Hugepagesize:'' l = None" for ls rest
    using that by (induction ls) (simp_all add: HUGE_def)
  moreover have "strip_prefix HUGE ?l = Some (''    '' @ ?d @ '' kB'')" by (simp add: strip_prefix_def HUGE_def)
  moreover have "split_whitespace (''    '' @ ?d @ '' kB'') = [?d, ''kB'']"
  proof -
    have "?d \<noteq> []" by (subst show_digits.simps) simp
    then show ?thesis using words_acc_word[OF nw, of "[]" "'' kB''"] by (simp add: split_whitespace_def is_whitespace_def)
  qed
  moreover have "from_str_radix 10 (2 ^ 64 - 1) ?d = Some n" using n by (intro from_str_radix_show) auto
  ultimately show ?thesis using other by (simp add: parse_hugepage_size_def)
qed

theorem hugepage_size_found_witness:
  "parse_hugepage_size (unlines [''MemTotal:       16315408 kB'', ''Hugepagesize:    2048 kB'', ''DirectMap4k: 12 kB'']) = Some 2097152"
proof -
  have "show_digits 10 2048 = ''2048''" by code_simp
  then show ?thesis
    using hugepage_size_found[of "[''MemTotal:       16315408 kB'']" "[''DirectMap4k: 12 kB'']" 2048] by (simp add: strip_prefix_def)
qed

end
