(* ===== verification/Setup.thy ===== *)
theory Setup
  imports Saturator PortStrategy HostInfo
begin

text \<open>
  How the program is set up: the sockets (\<^verbatim>\<open>xdp/socket.rs\<close>), the allocation of rings (\<^verbatim>\<open>xdp/ring.rs\<close>), the registration of
  the packet memory (\<^verbatim>\<open>Umem::bind\<close>), the controller with its queues (\<^verbatim>\<open>Controller::new\<close>), and what \<^verbatim>\<open>main\<close> computes before.

  System calls are values; the set-up is a computation that makes them one after the other, logs each with its outcome and
  stops at the first failure that the code does not handle. Which calls succeed and what the mapped rings
  hold is part of the state the computation runs on.

  \<open>setup_protocol\<close> shows that the calls obey the rules of the kernel for AF_XDP sockets, \<open>controller_ready\<close> that what is set
  up is what the saturators need.
\<close>

section \<open>Kinds of rings\<close>

record ring_offset =
  ro_producer :: u64
  ro_consumer :: u64
  ro_desc :: u64
  ro_flags :: u64

record mmap_offsets =
  mo_rx :: ring_offset
  mo_tx :: ring_offset
  mo_fr :: ring_offset
  mo_cr :: ring_offset

fun get_offset :: "mmap_offsets \<Rightarrow> ring_kind \<Rightarrow> ring_offset" where
  "get_offset self Fill = mo_fr self"
| "get_offset self Complete = mo_cr self"
| "get_offset self Tx = mo_tx self"
| "get_offset self Rx = mo_rx self"

fun get_page_offset :: "ring_kind \<Rightarrow> nat" where
  "get_page_offset Fill = 0x100000000"
| "get_page_offset Complete = 0x180000000"
| "get_page_offset Tx = 0x80000000"
| "get_page_offset Rx = 0"

fun get_opt_name :: "ring_kind \<Rightarrow> nat" where
  "get_opt_name Fill = 5"
| "get_opt_name Complete = 6"
| "get_opt_name Tx = 3"
| "get_opt_name Rx = 2"

definition XDP_UMEM_REG :: nat where "XDP_UMEM_REG = 4"

section \<open>Flags\<close>

type_synonym bind_flags = u16

definition NeedWakeup :: bind_flags where "NeedWakeup = 8"
definition ZeroCopy :: bind_flags where "ZeroCopy = 4"
definition CopyMode :: bind_flags where "CopyMode = 2"
definition SharedUmem :: bind_flags where "SharedUmem = 1"
definition UseSg :: bind_flags where "UseSg = 16"

datatype xdp_mode = Mode_copy | Mode_zero_copy | Mode_fallback

fun xdp_mode_flags :: "xdp_mode \<Rightarrow> bind_flags" where
  "xdp_mode_flags Mode_copy = CopyMode"
| "xdp_mode_flags Mode_zero_copy = ZeroCopy"
| "xdp_mode_flags Mode_fallback = 0"

datatype xdp_attach_mode = Attach_driver | Attach_hardware | Attach_skb

fun attach_flags :: "xdp_attach_mode \<Rightarrow> u32" where
  "attach_flags Attach_driver = 4"
| "attach_flags Attach_hardware = 8"
| "attach_flags Attach_skb = 2"

section \<open>System calls\<close>

datatype sock_opt = Prefer_busy_poll | Busy_poll int | Busy_poll_budget int | Umem_reg umem_reg | Ring_opt nat u32

record sockaddr_xdp =
  sxdp_flags :: u16
  sxdp_ifindex :: u32
  sxdp_queue_id :: u32
  sxdp_shared_umem_fd :: nat

datatype sys_call =
    Attach u32 u32
  | Sock_new nat
  | Set_opt nat sock_opt
  | Get_offsets nat
  | Map_ring nat nat nat
  | Bind_sock nat sockaddr_xdp
  | Map_set u32 nat
  | Recvfrom nat

record os =
  os_ok :: "nat \<Rightarrow> bool"
  os_log :: "(sys_call \<times> bool) list"
  os_fd :: nat
  os_offsets :: mmap_offsets
  os_descs :: "nat \<Rightarrow> descriptor list \<times> u32 \<times> u32 \<times> u32"
  os_addrs :: "nat \<Rightarrow> u64 list \<times> u32 \<times> u32 \<times> u32"

datatype setup_error = Os_error sys_call | Host host_error | Receiver_error receive_error

type_synonym 'a init = "os \<Rightarrow> (setup_error + 'a) \<times> os"

definition ret :: "'a \<Rightarrow> 'a init" where
  "ret x = (\<lambda>s. (Inr x, s))"

definition fail_with :: "setup_error \<Rightarrow> 'a init" where
  "fail_with e = (\<lambda>s. (Inl e, s))"

text \<open>The operator \<^verbatim>\<open>?\<close>, and a system call.\<close>

definition and_next :: "'a init \<Rightarrow> ('a \<Rightarrow> 'b init) \<Rightarrow> 'b init" where
  "and_next m f = (\<lambda>s. case m s of (Inl e, s) \<Rightarrow> (Inl e, s) | (Inr x, s) \<Rightarrow> f x s)"

definition sys :: "sys_call \<Rightarrow> unit init" where
  "sys c = (\<lambda>s. let ok = os_ok s (length (os_log s))
                in (if ok then Inr () else Inl (Os_error c), s\<lparr>os_log := os_log s @ [(c, ok)]\<rparr>))"

text \<open>\<^verbatim>\<open>Socket::sendto\<close> and \<^verbatim>\<open>Socket::recvfrom\<close>: a busy or overloaded kernel is no error.\<close>

definition EAGAIN :: int where "EAGAIN = 11"
definition EBUSY :: int where "EBUSY = 16"
definition ENETDOWN :: int where "ENETDOWN = 100"
definition ENOBUFS :: int where "ENOBUFS = 105"

definition kick_call :: "int \<Rightarrow> int \<Rightarrow> int + unit" where
  "kick_call ret_value errno =
     (if ret_value < 0
      then (if errno = EAGAIN \<or> errno = EBUSY \<or> errno = ENOBUFS \<or> errno = ENETDOWN then Inr () else Inl errno)
      else Inr ())"

section \<open>Sockets and rings\<close>

definition asks :: "(os \<Rightarrow> 'a) \<Rightarrow> 'a init" where
  "asks f = (\<lambda>s. (Inr (f s), s))"

definition next_fd :: "unit init" where
  "next_fd = (\<lambda>s. (Inr (), s\<lparr>os_fd := os_fd s + 1\<rparr>))"

definition socket_new :: "nat init" where
  "socket_new =
     and_next (asks os_fd) (\<lambda>fd.
     and_next (sys (Sock_new fd)) (\<lambda>_.
     and_next next_fd (\<lambda>_. ret fd)))"

definition set_busy_poll :: "nat \<Rightarrow> int \<Rightarrow> int \<Rightarrow> unit init" where
  "set_busy_poll fd budget microseconds =
     and_next (sys (Set_opt fd Prefer_busy_poll)) (\<lambda>_.
     and_next (sys (Set_opt fd (Busy_poll microseconds))) (\<lambda>_.
     sys (Set_opt fd (Busy_poll_budget budget))))"

text \<open>\<^verbatim>\<open>Umem::bind\<close> tries again without flags.\<close>

definition umem_register :: "umem \<Rightarrow> nat \<Rightarrow> unit init" where
  "umem_register um fd =
     (\<lambda>s. case sys (Set_opt fd (Umem_reg (as_reg um))) s of
            (Inr x, s) \<Rightarrow> (Inr x, s)
          | (Inl _, s) \<Rightarrow> sys (Set_opt fd (Umem_reg (remove_flags (as_reg um)))) s)"

definition rings :: "nat \<Rightarrow> mmap_offsets init" where
  "rings fd = and_next (sys (Get_offsets fd)) (\<lambda>_. asks os_offsets)"

text \<open>
  \<^verbatim>\<open>RingAllocator::ring\<close> for slots of \<open>width\<close> bytes; \<open>content\<close> looks up what the mapping made by a call shows, by the place of
  the call in the log.
\<close>

definition ring_alloc :: "(os \<Rightarrow> nat \<Rightarrow> 't list \<times> u32 \<times> u32 \<times> u32) \<Rightarrow> nat \<Rightarrow> nat \<Rightarrow> mmap_offsets \<Rightarrow> ring_kind \<Rightarrow> u32 \<Rightarrow> 't ring init" where
  "ring_alloc content width fd offs kind sz =
     and_next (sys (Set_opt fd (Ring_opt (get_opt_name kind) sz))) (\<lambda>_.
     and_next (sys (Map_ring fd (get_page_offset kind) (unat (ro_desc (get_offset offs kind)) + unat sz * width))) (\<lambda>_.
     and_next (asks (\<lambda>s. content s (length (os_log s) - 1))) (\<lambda>(mem, p, c, fl). ret (ring_new kind sz mem p c fl))))"

abbreviation desc_ring :: "nat \<Rightarrow> mmap_offsets \<Rightarrow> ring_kind \<Rightarrow> u32 \<Rightarrow> descriptor ring init" where
  "desc_ring \<equiv> ring_alloc os_descs 16"

abbreviation addr_ring :: "nat \<Rightarrow> mmap_offsets \<Rightarrow> ring_kind \<Rightarrow> u32 \<Rightarrow> u64 ring init" where
  "addr_ring \<equiv> ring_alloc os_addrs 8"

definition socket_bind :: "nat \<Rightarrow> bind_flags \<Rightarrow> u32 \<Rightarrow> u32 \<Rightarrow> nat \<Rightarrow> unit init" where
  "socket_bind fd flags if_index queue_id shared_umem_fd =
     sys (Bind_sock fd \<lparr>sxdp_flags = flags, sxdp_ifindex = if_index, sxdp_queue_id = queue_id, sxdp_shared_umem_fd = shared_umem_fd\<rparr>)"

section \<open>The controller\<close>

record xdp_config =
  xc_mode :: xdp_mode
  xc_attach_mode :: xdp_attach_mode
  xc_checksum_offload :: bool
  xc_ring_size :: u32
  xc_busy_polling :: "(int \<times> int) option"
  xc_rx_batch :: u32

definition busy_poll :: "xdp_config \<Rightarrow> nat \<Rightarrow> unit init" where
  "busy_poll cfg fd = (case xc_busy_polling cfg of None \<Rightarrow> ret () | Some (budget, us) \<Rightarrow> set_busy_poll fd budget us)"

text \<open>The body of the loop over the queues; \<open>mem\<close> is the packet memory of the queue.\<close>

definition queue_setup :: "xdp_config \<Rightarrow> shared_data \<Rightarrow> u32 \<Rightarrow> u32 \<Rightarrow> umem \<Rightarrow> memory \<Rightarrow> (queue \<times> memory) init" where
  "queue_setup cfg shared if_index queue_id um mem =
     (let rs = xc_ring_size cfg in
      and_next socket_new (\<lambda>fd.
      and_next (busy_poll cfg fd) (\<lambda>_.
      and_next (umem_register um fd) (\<lambda>_.
      and_next (rings fd) (\<lambda>offs.
      and_next (desc_ring fd offs Tx rs) (\<lambda>tx.
      and_next (addr_ring fd offs Fill rs) (\<lambda>f.
      and_next (desc_ring fd offs Rx rs) (\<lambda>r.
      and_next (addr_ring fd offs Complete rs) (\<lambda>c.
      and_next (socket_bind fd (NeedWakeup OR xdp_mode_flags (xc_mode cfg)) if_index queue_id 0) (\<lambda>_.
      and_next (sys (Map_set queue_id fd)) (\<lambda>_.
      and_next socket_new (\<lambda>fd_shared.
      and_next (busy_poll cfg fd_shared) (\<lambda>_.
      and_next (rings fd_shared) (\<lambda>offs_shared.
      and_next (desc_ring fd_shared offs_shared Tx rs) (\<lambda>tx_shared.
      and_next (socket_bind fd_shared SharedUmem if_index queue_id fd) (\<lambda>_.
      case queue_new shared um tx f r c tx_shared rs (xc_rx_batch cfg) True mem of
        Inl e \<Rightarrow> fail_with (Receiver_error e)
      | Inr q \<Rightarrow> and_next (sys (Recvfrom fd)) (\<lambda>_. ret q)))))))))))))))))"

fun queues_setup :: "xdp_config \<Rightarrow> shared_data \<Rightarrow> u32 \<Rightarrow> u32 \<Rightarrow> (umem \<times> memory) list \<Rightarrow> (queue \<times> memory) list init" where
  "queues_setup cfg shared if_index queue_id [] = ret []"
| "queues_setup cfg shared if_index queue_id ((um, mem) # ums) =
     and_next (queue_setup cfg shared if_index queue_id um mem) (\<lambda>q.
     and_next (queues_setup cfg shared if_index (queue_id + 1) ums) (\<lambda>qs. ret (q # qs)))"

text \<open>What the host shows.\<close>

record host_view =
  hv_index :: "string \<Rightarrow> u32"
  hv_routes :: "route option list"
  hv_before :: "neigh option list"
  hv_ping :: "ipv4 \<Rightarrow> bool"
  hv_after :: "neigh option list"
  hv_mac :: "string option"
  hv_ifaddrs :: "ifaddrs_node list"

definition from_host :: "host_error + 'a \<Rightarrow> 'a init" where
  "from_host r = (case r of Inl e \<Rightarrow> fail_with (Host e) | Inr x \<Rightarrow> ret x)"

definition controller_new :: "host_view \<Rightarrow> string \<Rightarrow> xdp_config \<Rightarrow> (umem \<times> memory) list \<Rightarrow> (shared_data \<times> (queue \<times> memory) list) init" where
  "controller_new hv iface cfg umems =
     and_next (from_host (name_to_index (hv_index hv) iface)) (\<lambda>if_index.
     and_next (from_host (gateway_inner (hv_routes hv) (hv_before hv) (hv_ping hv) (hv_after hv) if_index)) (\<lambda>gateway_mac.
     and_next (from_host (interface_get_mac (hv_mac hv))) (\<lambda>interface_mac.
     and_next (from_host (get_local_ip iface (hv_ifaddrs hv))) (\<lambda>ip.
     and_next (sys (Attach if_index (attach_flags (xc_attach_mode cfg)))) (\<lambda>_.
     let shared = \<lparr>source_ip = ip, gateway = gateway_mac, interface = interface_mac, xdp_checksum_offload = xc_checksum_offload cfg\<rparr>
     in and_next (queues_setup cfg shared if_index 0 umems) (\<lambda>qs. ret (shared, qs)))))))"

section \<open>The main function\<close>

datatype main_error = No_queues u32 | Too_many_queues u32 u32 u32

definition main_queues :: "nat \<Rightarrow> nic_queues \<Rightarrow> main_error + u32" where
  "main_queues parallelism qs =
     (let queue_count = q_combined (q_current qs);
          usable = (\<lambda>n. word_of_nat (min (max (parallelism - 2) 1) (unat n)) :: u32)
      in if queue_count = 0 then Inl (No_queues (usable (q_combined (q_max qs))))
         else if usable queue_count < queue_count
         then Inl (Too_many_queues (q_combined (q_max qs)) (q_combined (q_current qs)) (usable queue_count))
         else Inr (usable queue_count))"

definition main_statics :: "port_range \<Rightarrow> u32 \<Rightarrow> xdp_statics" where
  "main_statics source_port usable_queue_count =
     \<lparr>SOURCE_PORT_START = pr_start source_port, SOURCE_PORT_END = pr_end source_port, USABLE_QUEUES = usable_queue_count\<rparr>"

text \<open>The seed ports, in the order in which a hash set hands them out.\<close>

definition main_seed_ports :: "(u16 list \<Rightarrow> u16 list) \<Rightarrow> port_range list \<Rightarrow> u16 list" where
  "main_seed_ports ord rgs = ord (remdups (concat (map as_vec rgs)))"

definition main_umems :: "usize \<Rightarrow> usize \<Rightarrow> (nat \<Rightarrow> usize \<Rightarrow> bool \<Rightarrow> u64 option) \<Rightarrow> u32 \<Rightarrow> bool \<Rightarrow> u32 \<Rightarrow> umem list option" where
  "main_umems page_size hugepage_size mmap rs huge_pages usable_queue_count =
     those (map (\<lambda>i. umem_new page_size hugepage_size (mmap i) 2048 (3 * rs) huge_pages) [0..<unat usable_queue_count])"

section \<open>The rules of the kernel\<close>

text \<open>
  What the kernel's documentation of AF_XDP asks for. A socket is set up - memory registered, rings sized and mapped - before
  it is bound, and only once. A socket of its own needs packet memory, a fill and a completion ring; one that shares the
  memory of another has neither, names no mode, and the other one is bound. Failed calls change nothing.
\<close>

record sock =
  sk_umem :: bool
  sk_rings :: "nat set"
  sk_bound :: bool

type_synonym kernel = "nat \<rightharpoonup> sock"

definition page_ring :: "nat \<Rightarrow> nat" where
  "page_ring off = (if off = 0 then 2 else if off = 0x80000000 then 3 else if off = 0x100000000 then 5 else 6)"

definition bind_allowed :: "kernel \<Rightarrow> sock \<Rightarrow> sockaddr_xdp \<Rightarrow> bool" where
  "bind_allowed k sk a \<longleftrightarrow> \<not> sk_bound sk \<and> (2 \<in> sk_rings sk \<or> 3 \<in> sk_rings sk) \<and>
     (if sxdp_flags a AND SharedUmem \<noteq> 0
      then sxdp_flags a = SharedUmem \<and> \<not> sk_umem sk \<and> 5 \<notin> sk_rings sk \<and> 6 \<notin> sk_rings sk
        \<and> (\<exists>other. k (sxdp_shared_umem_fd a) = Some other \<and> sk_bound other \<and> sk_umem other)
      else sk_umem sk \<and> 5 \<in> sk_rings sk \<and> 6 \<in> sk_rings sk
        \<and> \<not> (sxdp_flags a AND CopyMode \<noteq> 0 \<and> sxdp_flags a AND ZeroCopy \<noteq> 0))"

fun allowed :: "kernel \<Rightarrow> sys_call \<Rightarrow> bool" where
  "allowed k (Attach i fl) = True"
| "allowed k (Sock_new fd) = (k fd = None)"
| "allowed k (Set_opt fd (Umem_reg reg)) = (case k fd of None \<Rightarrow> False | Some sk \<Rightarrow> \<not> sk_bound sk \<and> \<not> sk_umem sk)"
| "allowed k (Set_opt fd (Ring_opt name sz)) = (case k fd of None \<Rightarrow> False | Some sk \<Rightarrow> \<not> sk_bound sk \<and> name \<notin> sk_rings sk)"
| "allowed k (Set_opt fd _) = (k fd \<noteq> None)"
| "allowed k (Get_offsets fd) = (k fd \<noteq> None)"
| "allowed k (Map_ring fd off len) = (case k fd of None \<Rightarrow> False | Some sk \<Rightarrow> page_ring off \<in> sk_rings sk)"
| "allowed k (Bind_sock fd a) = (case k fd of None \<Rightarrow> False | Some sk \<Rightarrow> bind_allowed k sk a)"
| "allowed k (Map_set q fd) = (k fd \<noteq> None)"
| "allowed k (Recvfrom fd) = (case k fd of None \<Rightarrow> False | Some sk \<Rightarrow> sk_bound sk)"

fun effect :: "kernel \<Rightarrow> sys_call \<Rightarrow> kernel" where
  "effect k (Sock_new fd) = k(fd \<mapsto> \<lparr>sk_umem = False, sk_rings = {}, sk_bound = False\<rparr>)"
| "effect k (Set_opt fd (Umem_reg reg)) = k(fd := map_option (sk_umem_update (\<lambda>_. True)) (k fd))"
| "effect k (Set_opt fd (Ring_opt name sz)) = k(fd := map_option (sk_rings_update (insert name)) (k fd))"
| "effect k (Bind_sock fd a) = k(fd := map_option (sk_bound_update (\<lambda>_. True)) (k fd))"
| "effect k _ = k"

fun krun :: "kernel \<Rightarrow> (sys_call \<times> bool) list \<Rightarrow> kernel option" where
  "krun k [] = Some k"
| "krun k ((c, ok) # calls) = (if allowed k c then krun (if ok then effect k c else k) calls else None)"

lemma krun_append: "krun k (xs @ ys) = (case krun k xs of None \<Rightarrow> None | Some k' \<Rightarrow> krun k' ys)"
  by (induction k xs rule: krun.induct) auto

text \<open>
  A computation keeps to the rules if its calls do after any calls that did and led to a state of the kernel and a next
  descriptor with \<open>P\<close>; its result, if it has one, then satisfies \<open>Q\<close>.
\<close>

definition conforms :: "'a init \<Rightarrow> (kernel \<Rightarrow> nat \<Rightarrow> bool) \<Rightarrow> ('a \<Rightarrow> kernel \<Rightarrow> nat \<Rightarrow> bool) \<Rightarrow> bool" where
  "conforms m P Q \<longleftrightarrow> (\<forall>s k. krun Map.empty (os_log s) = Some k \<longrightarrow> P k (os_fd s) \<longrightarrow>
     (\<exists>k'. krun Map.empty (os_log (snd (m s))) = Some k' \<and> (\<forall>x. fst (m s) = Inr x \<longrightarrow> Q x k' (os_fd (snd (m s))))))"

lemma conforms_sys:
  assumes "\<And>k n. P k n \<Longrightarrow> allowed k c \<and> Q (effect k c) n"
  shows "conforms (sys c) P (\<lambda>_. Q)"
  using assms by (auto simp: conforms_def sys_def Let_def krun_append)

lemma conforms_next:
  assumes "conforms m P R" "\<And>x. conforms (f x) (R x) Q"
  shows "conforms (and_next m f) P Q"
  unfolding conforms_def
proof (intro allI impI)
  fix s :: os and k assume k: "krun Map.empty (os_log s) = Some k" "P k (os_fd s)"
  obtain r s1 where m: "m s = (r, s1)" by fastforce
  from assms(1) k m obtain k1 where k1: "krun Map.empty (os_log s1) = Some k1" "\<And>x. r = Inr x \<Longrightarrow> R x k1 (os_fd s1)"
    unfolding conforms_def by fastforce
  show "\<exists>k'. krun Map.empty (os_log (snd (and_next m f s))) = Some k'
      \<and> (\<forall>x. fst (and_next m f s) = Inr x \<longrightarrow> Q x k' (os_fd (snd (and_next m f s))))"
  proof (cases r)
    case (Inl e)
    then show ?thesis using m k1 by (simp add: and_next_def)
  next
    case (Inr x)
    then show ?thesis using m k1 assms(2)[of x] unfolding conforms_def by (simp add: and_next_def)
  qed
qed

lemma conforms_ret: "(\<And>k n. P k n \<Longrightarrow> Q x k n) \<Longrightarrow> conforms (ret x) P Q"
  by (auto simp: conforms_def ret_def)

lemma conforms_fail: "conforms (fail_with e) P Q"
  by (auto simp: conforms_def fail_with_def)

lemma conforms_host: "(\<And>x k n. P k n \<Longrightarrow> Q x k n) \<Longrightarrow> conforms (from_host r) P Q"
  by (auto simp: from_host_def conforms_ret conforms_fail split: sum.split)

section \<open>The set-up keeps to the rules\<close>

definition exactly :: "kernel \<Rightarrow> nat \<Rightarrow> kernel \<Rightarrow> nat \<Rightarrow> bool" where
  "exactly k0 n0 = (\<lambda>k n. k = k0 \<and> n = n0)"

lemma conforms_pure: "(\<phi> \<Longrightarrow> conforms m P Q) \<Longrightarrow> conforms m (\<lambda>k n. \<phi> \<and> P k n) Q"
  unfolding conforms_def by blast

lemma exact_sys: "allowed k c \<Longrightarrow> effect k c = k' \<Longrightarrow> conforms (sys c) (exactly k n) (\<lambda>_. exactly k' n)"
  by (rule conforms_sys) (auto simp: exactly_def)

lemma exact_socket_new:
  assumes "k n = None"
  shows "conforms socket_new (exactly k n) (\<lambda>fd k' n'. fd = n \<and> exactly (k(n \<mapsto> \<lparr>sk_umem = False, sk_rings = {}, sk_bound = False\<rparr>)) (Suc n) k' n')"
  using assms
  by (auto simp: conforms_def exactly_def socket_new_def asks_def next_fd_def ret_def and_next_def sys_def Let_def krun_append)

lemma exact_umem_register:
  assumes "\<not> sk_bound sk" "\<not> sk_umem sk"
  shows "conforms (umem_register um fd) (exactly (k(fd \<mapsto> sk)) n) (\<lambda>_. exactly (k(fd \<mapsto> sk\<lparr>sk_umem := True\<rparr>)) n)"
  using assms by (auto simp: conforms_def exactly_def umem_register_def sys_def Let_def krun_append)

lemma page_ring_kind: "page_ring (get_page_offset kind) = get_opt_name kind"
  by (cases kind) (simp_all add: page_ring_def)

lemma exact_ring:
  assumes "\<not> sk_bound sk" "get_opt_name kind \<notin> sk_rings sk"
  shows "conforms (ring_alloc ct w fd offs kind sz) (exactly (k(fd \<mapsto> sk)) n)
     (\<lambda>_. exactly (k(fd \<mapsto> sk\<lparr>sk_rings := insert (get_opt_name kind) (sk_rings sk)\<rparr>)) n)"
  using assms
  by (auto simp: conforms_def exactly_def ring_alloc_def asks_def ret_def and_next_def sys_def Let_def krun_append page_ring_kind split: prod.splits)

lemma exact_rings:
  "conforms (rings fd) (exactly (k(fd \<mapsto> sk)) n) (\<lambda>_. exactly (k(fd \<mapsto> sk)) n)"
  by (auto simp: conforms_def exactly_def rings_def asks_def and_next_def sys_def Let_def krun_append)

lemma exact_busy_poll:
  "conforms (busy_poll cfg fd) (exactly (k(fd \<mapsto> sk)) n) (\<lambda>_. exactly (k(fd \<mapsto> sk)) n)"
  by (auto simp: busy_poll_def set_busy_poll_def intro!: conforms_ret conforms_next exact_sys split: option.split)

definition fresh_from :: "kernel \<Rightarrow> nat \<Rightarrow> bool" where
  "fresh_from k n \<longleftrightarrow> (\<forall>m \<ge> n. k m = None)"

lemma queue_setup_conforms:
  assumes fresh: "fresh_from k n"
  shows "conforms (queue_setup cfg shared if_index queue_id um mem) (exactly k n) (\<lambda>_. fresh_from)"
proof -
  let ?own = "\<lparr>sk_umem = True, sk_rings = {6, 2, 5, 3}, sk_bound = True\<rparr>"
  have flags: "(NeedWakeup OR xdp_mode_flags md) AND SharedUmem = 0"
    "\<not> ((NeedWakeup OR xdp_mode_flags md) AND CopyMode \<noteq> 0 \<and> (NeedWakeup OR xdp_mode_flags md) AND ZeroCopy \<noteq> 0)" for md
    by (cases md; simp add: NeedWakeup_def SharedUmem_def CopyMode_def ZeroCopy_def)+
  have k: "k n = None" "k (Suc n) = None" using fresh by (auto simp: fresh_from_def)
  show ?thesis
    unfolding queue_setup_def Let_def socket_bind_def
    apply (rule conforms_next[OF exact_socket_new[of k n, OF k(1)]], rule conforms_pure, hypsubst)
    apply (rule conforms_next[OF exact_busy_poll])
    apply (rule conforms_next[OF exact_umem_register], simp, simp)
    apply (rule conforms_next[OF exact_rings])
    apply (rule conforms_next[OF exact_ring], simp, simp)
    apply (rule conforms_next[OF exact_ring], simp, simp)
    apply (rule conforms_next[OF exact_ring], simp, simp)
    apply (rule conforms_next[OF exact_ring], simp, simp)
    apply (rule conforms_next[OF exact_sys[where k' = "k(n \<mapsto> ?own)"]])
      apply (simp add: bind_allowed_def flags)
     apply simp
    apply (rule conforms_next[OF exact_sys[where k' = "k(n \<mapsto> ?own)"]], simp, simp)
    apply (rule conforms_next[OF exact_socket_new], simp add: k, rule conforms_pure, hypsubst)
    apply (rule conforms_next[OF exact_busy_poll])
    apply (rule conforms_next[OF exact_rings])
    apply (rule conforms_next[OF exact_ring], simp, simp)
    apply (rule conforms_next[OF exact_sys[where k' = "k(n \<mapsto> ?own, Suc n \<mapsto> \<lparr>sk_umem = False, sk_rings = {3}, sk_bound = True\<rparr>)"]])
      apply (simp add: bind_allowed_def SharedUmem_def)
     apply simp
    apply (split sum.split, intro conjI allI impI, rule conforms_fail)
    apply (rule conforms_next[OF exact_sys], simp, simp)
    apply (rule conforms_ret, use fresh in \<open>simp add: exactly_def fresh_from_def\<close>)
    done
qed

lemma conforms_exact: "(\<And>k n. P k n \<Longrightarrow> conforms m (exactly k n) Q) \<Longrightarrow> conforms m P Q"
  unfolding conforms_def exactly_def by blast

lemma queues_setup_conforms:
  "conforms (queues_setup cfg shared if_index queue_id ums) fresh_from (\<lambda>_. fresh_from)"
proof (induction ums arbitrary: queue_id)
  case Nil
  show ?case unfolding queues_setup.simps by (rule conforms_ret)
next
  case (Cons u ums)
  obtain um mem where u: "u = (um, mem)" by fastforce
  have q: "conforms (queue_setup cfg shared if_index queue_id um mem) fresh_from (\<lambda>_. fresh_from)"
    by (rule conforms_exact) (rule queue_setup_conforms)
  show ?case
    unfolding u queues_setup.simps by (rule conforms_next[OF q]) (rule conforms_next[OF Cons], rule conforms_ret)
qed

lemma controller_new_conforms: "conforms (controller_new hv iface cfg umems) fresh_from (\<lambda>_. fresh_from)"
  unfolding controller_new_def Let_def
  by (intro conforms_next[where R = "\<lambda>_. fresh_from"] conforms_host conforms_sys conforms_ret queues_setup_conforms) auto


section \<open>Errors stop the set-up\<close>

definition tolerated :: "sys_call \<times> bool \<Rightarrow> bool" where
  "tolerated = (\<lambda>(c, ok). ok \<or> (\<exists>fd reg. c = Set_opt fd (Umem_reg reg) \<and> reg_flags reg \<noteq> 0))"

definition reported :: "setup_error + 'a \<Rightarrow> (sys_call \<times> bool) list \<Rightarrow> bool" where
  "reported r new \<longleftrightarrow> (case r of
       Inl (Os_error c) \<Rightarrow> (\<exists>before. new = before @ [(c, False)] \<and> list_all tolerated before)
     | _ \<Rightarrow> list_all tolerated new)"

definition reports :: "'a init \<Rightarrow> bool" where
  "reports m \<longleftrightarrow> (\<forall>s. \<exists>new. os_log (snd (m s)) = os_log s @ new \<and> reported (fst (m s)) new)"

lemma reports_sys: "reports (sys c)"
  by (auto simp: reports_def reported_def sys_def Let_def tolerated_def)

lemma reports_quiet: "reports (ret x)" "reports (from_host r)" "reports (fail_with (Receiver_error e))"
  by (auto simp: reports_def reported_def ret_def from_host_def fail_with_def split: sum.split)

lemma reported_append:
  "reported (Inr x) new \<Longrightarrow> reported r new' \<Longrightarrow> reported r (new @ new')"
  by (auto simp: reported_def split: sum.splits setup_error.splits)

lemma reports_next:
  assumes "reports m" "\<And>x. reports (f x)"
  shows "reports (and_next m f)"
  unfolding reports_def
proof
  fix s
  obtain r s1 where m: "m s = (r, s1)" by fastforce
  obtain new where n: "os_log s1 = os_log s @ new" "reported r new" using assms(1) m unfolding reports_def by (metis fst_conv snd_conv)
  show "\<exists>new. os_log (snd (and_next m f s)) = os_log s @ new \<and> reported (fst (and_next m f s)) new"
  proof (cases r)
    case (Inl e)
    then show ?thesis using m n by (auto simp: and_next_def reported_def)
  next
    case (Inr x)
    obtain new' where "os_log (snd (f x s1)) = os_log s1 @ new'" "reported (fst (f x s1)) new'"
      using assms(2)[of x] unfolding reports_def by blast
    then show ?thesis using m n Inr reported_append[of x new "fst (f x s1)" new'] by (auto simp: and_next_def)
  qed
qed

lemma reports_pure:
  assumes "\<And>s. os_log (snd (g s)) = os_log s \<and> (\<exists>y. fst (g s) = Inr y)"
  shows "reports g"
  unfolding reports_def
proof
  fix s
  obtain y where "fst (g s) = Inr y" using assms by blast
  then show "\<exists>new. os_log (snd (g s)) = os_log s @ new \<and> reported (fst (g s)) new"
    using assms[of s] by (simp add: reported_def)
qed

lemma reports_state: "reports (asks f)" "reports next_fd"
  by (rule reports_pure, simp add: asks_def next_fd_def)+

lemma reports_umem_register: "reports (umem_register um fd)"
proof -
  have "reg_flags (as_reg um) \<noteq> 0" by (simp add: as_reg_def XDP_UMEM_TX_METADATA_LEN_def)
  then show ?thesis by (auto simp: reports_def reported_def umem_register_def sys_def Let_def tolerated_def)
qed

lemma reports_ring: "reports (ring_alloc ct w fd offs kind sz)"
  unfolding ring_alloc_def
  by (intro reports_next reports_sys reports_state) (simp add: reports_quiet split_beta)

lemma reports_socket: "reports socket_new" "reports (rings fd)" "reports (busy_poll cfg fd)"
proof -
  show "reports socket_new"
    unfolding socket_new_def by (intro reports_next reports_sys reports_state reports_quiet)
  show "reports (rings fd)" unfolding rings_def by (intro reports_next reports_sys reports_state)
  show "reports (busy_poll cfg fd)"
    unfolding busy_poll_def set_busy_poll_def by (auto intro!: reports_next[OF reports_sys] reports_sys reports_quiet split: option.split)
qed

lemma reports_queue_setup: "reports (queue_setup cfg shared if_index queue_id um mem)"
  unfolding queue_setup_def Let_def socket_bind_def
  by (intro reports_next reports_socket reports_sys reports_umem_register reports_ring)
     (auto intro: reports_quiet reports_next reports_sys split: sum.split)

lemma reports_queues_setup: "reports (queues_setup cfg shared if_index queue_id ums)"
proof (induction ums arbitrary: queue_id)
  case (Cons u ums)
  obtain um mem where u: "u = (um, mem)" by fastforce
  show ?case
    unfolding u queues_setup.simps by (intro reports_next reports_queue_setup Cons reports_quiet)
qed (simp add: reports_quiet)

lemma reports_controller_new: "reports (controller_new hv iface cfg umems)"
  unfolding controller_new_def Let_def by (intro reports_next reports_quiet reports_sys reports_queues_setup)


section \<open>What is set up\<close>

text \<open>From a state where mapped rings show as many slots as were asked for, a result that satisfies \<open>P\<close>.\<close>

definition shows_slots :: "u32 \<Rightarrow> os \<Rightarrow> bool" where
  "shows_slots rs s \<longleftrightarrow> (\<forall>n. length (fst (os_descs s n)) = unat rs)"

definition delivers :: "u32 \<Rightarrow> 'a init \<Rightarrow> ('a \<Rightarrow> bool) \<Rightarrow> bool" where
  "delivers rs m P \<longleftrightarrow> (\<forall>s x s'. shows_slots rs s \<longrightarrow> m s = (Inr x, s') \<longrightarrow> shows_slots rs s' \<and> P x)"

lemma delivers_next:
  assumes "delivers rs m R" "\<And>x. R x \<Longrightarrow> delivers rs (f x) P"
  shows "delivers rs (and_next m f) P"
  unfolding delivers_def
proof (intro allI impI)
  fix s x s' assume s: "shows_slots rs s" "and_next m f s = (Inr x, s')"
  then obtain y s1 where "m s = (Inr y, s1)" "f y s1 = (Inr x, s')" by (auto simp: and_next_def split: prod.splits sum.splits)
  then show "shows_slots rs s' \<and> P x" using assms s(1) unfolding delivers_def by blast
qed

lemma delivers_ret: "P x \<Longrightarrow> delivers rs (ret x) P"
  by (simp add: delivers_def ret_def)

lemma delivers_host: "(\<And>x. r = Inr x \<Longrightarrow> P x) \<Longrightarrow> delivers rs (from_host r) P"
  by (auto simp: delivers_def from_host_def ret_def fail_with_def split: sum.splits)

lemma delivers_sys: "P () \<Longrightarrow> delivers rs (sys c) P"
  by (auto simp: delivers_def shows_slots_def sys_def Let_def split: if_splits)

lemma delivers_step:
  assumes "\<And>s. os_descs (snd (g s)) = os_descs s" "\<And>s x. shows_slots rs s \<Longrightarrow> fst (g s) = Inr x \<Longrightarrow> P x"
  shows "delivers rs g P"
  unfolding delivers_def
proof (intro allI impI)
  fix s x s' assume s: "shows_slots rs s" "g s = (Inr x, s')"
  then show "shows_slots rs s' \<and> P x" using assms[of s] by (simp add: shows_slots_def)
qed

definition anything :: "'a \<Rightarrow> bool" where "anything x = True"

lemma delivers_parts:
  "delivers rs (sys c) anything" "delivers rs socket_new anything" "delivers rs (rings fd) anything"
  "delivers rs (busy_poll cfg fd) anything" "delivers rs (umem_register um fd) anything"
  "delivers rs (ring_alloc ct w fd offs kind sz) anything"
proof -
  show sys: "delivers rs (sys c) anything" for c by (rule delivers_sys) (simp add: anything_def)
  have st: "delivers rs (asks f) anything" "delivers rs next_fd anything" for f :: "os \<Rightarrow> 'z"
    by (rule delivers_step; simp add: asks_def next_fd_def anything_def)+
  show "delivers rs socket_new anything"
    unfolding socket_new_def
    by (rule delivers_next[OF st(1)], rule delivers_next[OF sys], rule delivers_next[OF st(2)], rule delivers_ret) (simp add: anything_def)
  show "delivers rs (rings fd) anything" unfolding rings_def by (rule delivers_next[OF sys]) (rule st(1))
  show "delivers rs (busy_poll cfg fd) anything"
    unfolding busy_poll_def set_busy_poll_def by (auto intro!: delivers_next[OF sys] sys delivers_ret simp: anything_def split: option.split)
  show "delivers rs (umem_register um fd) anything"
    by (rule delivers_step) (simp_all add: umem_register_def sys_def Let_def anything_def)
  show "delivers rs (ring_alloc ct w fd offs kind sz) anything"
    unfolding ring_alloc_def
    by (rule delivers_next[OF sys], rule delivers_next[OF sys], rule delivers_step)
       (simp_all add: anything_def and_next_def asks_def ret_def split_beta)
qed

lemma delivers_tx:
  assumes "0 < unat rs" "unat rs dvd 2 ^ 32"
  shows "delivers rs (desc_ring fd offs Tx rs) (\<lambda>r. ring_wf r \<and> ring_size r = rs)"
  unfolding ring_alloc_def
proof (rule delivers_next[OF delivers_parts(1)], rule delivers_next[OF delivers_parts(1)], rule delivers_step)
  let ?g = "and_next (asks (\<lambda>s. os_descs s (length (os_log s) - 1))) (\<lambda>(mem, p, c, fl). ret (ring_new Tx rs mem p c fl))"
  fix s :: os and x :: "descriptor ring"
  show "os_descs (snd (?g s)) = os_descs s" by (simp add: and_next_def asks_def ret_def split_beta)
  assume sl: "shows_slots rs s" and x: "fst (?g s) = Inr x"
  obtain mem p c fl where d: "os_descs s (length (os_log s) - 1) = (mem, p, c, fl)" by (metis prod_cases4)
  then have "length mem = unat rs" using sl unfolding shows_slots_def by (metis fst_conv)
  then show "ring_wf x \<and> ring_size x = rs"
    using x d assms unat_bounds(3)[of rs] by (auto simp: ring_new_def ring_wf_def and_next_def asks_def ret_def)
qed

lemma queue_setup_delivers:
  assumes rs: "0 < unat (xc_ring_size cfg)" "unat (xc_ring_size cfg) dvd 2 ^ 32" "3 * unat (xc_ring_size cfg) < 2 ^ 32"
    and sh: "macs_ok shared" "86 \<le> unat (um_frame_size um)"
  shows "delivers (xc_ring_size cfg) (queue_setup cfg shared if_index queue_id um mem) (queue_ok (queue_layout shared um (xc_ring_size cfg)))"
  unfolding queue_setup_def Let_def socket_bind_def
  apply (rule delivers_next[OF delivers_parts(2)])
  apply (rule delivers_next[OF delivers_parts(4)])
  apply (rule delivers_next[OF delivers_parts(5)])
  apply (rule delivers_next[OF delivers_parts(3)])
  apply (rule delivers_next[OF delivers_tx[OF rs(1,2)]])
  apply (rule delivers_next[OF delivers_parts(6)])
  apply (rule delivers_next[OF delivers_parts(6)])
  apply (rule delivers_next[OF delivers_parts(6)])
  apply (rule delivers_next[OF delivers_parts(1)])
  apply (rule delivers_next[OF delivers_parts(1)])
  apply (rule delivers_next[OF delivers_parts(2)])
  apply (rule delivers_next[OF delivers_parts(4)])
  apply (rule delivers_next[OF delivers_parts(3)])
  apply (rule delivers_next[OF delivers_tx[OF rs(1,2)]])
  apply (rule delivers_next[OF delivers_parts(1)])
  apply (split sum.split, intro conjI allI impI, simp add: delivers_def fail_with_def)
  apply (rule delivers_next[OF delivers_parts(1)], rule delivers_ret)
  apply (use queue_new_ok[OF _ _ _ _ sh rs(3)] in auto)
  done

lemma queues_setup_delivers:
  assumes rs: "0 < unat (xc_ring_size cfg)" "unat (xc_ring_size cfg) dvd 2 ^ 32" "3 * unat (xc_ring_size cfg) < 2 ^ 32"
    and sh: "macs_ok shared" "\<forall>(um, mem) \<in> set ums. 86 \<le> unat (um_frame_size um)"
  shows "delivers (xc_ring_size cfg) (queues_setup cfg shared if_index queue_id ums)
     (list_all2 (\<lambda>(um, _) q. queue_ok (queue_layout shared um (xc_ring_size cfg)) q) ums)"
  using sh(2)
proof (induction ums arbitrary: queue_id)
  case Nil
  show ?case unfolding queues_setup.simps by (rule delivers_ret) simp
next
  case (Cons u ums)
  obtain um mem where u: "u = (um, mem)" by fastforce
  have q: "delivers (xc_ring_size cfg) (queue_setup cfg shared if_index queue_id um mem) (queue_ok (queue_layout shared um (xc_ring_size cfg)))"
    using queue_setup_delivers[OF rs sh(1)] Cons.prems u by auto
  have qs: "delivers (xc_ring_size cfg) (queues_setup cfg shared if_index (queue_id + 1) ums)
     (list_all2 (\<lambda>(um, _) q. queue_ok (queue_layout shared um (xc_ring_size cfg)) q) ums)" using Cons by auto
  show ?case
    unfolding u queues_setup.simps by (rule delivers_next[OF q], rule delivers_next[OF qs], rule delivers_ret) simp
qed

lemma parse_octets_length: "parse_octets ss = Inr vs \<Longrightarrow> length vs = length ss"
  by (induction ss arbitrary: vs) (auto split: option.splits sum.splits)

lemma interface_mac_length: "interface_get_mac content = Inr m \<Longrightarrow> length m = 6"
  by (auto simp: interface_get_mac_def mac_from_str_def Let_def split: option.splits if_splits dest: parse_octets_length)

lemma gateway_mac_length: "gateway_inner routes before ping after i = Inr m \<Longrightarrow> length m = 6"
  by (auto simp: gateway_inner_def split: sum.splits if_splits dest: get_mac_from_neigh_entry)

lemma controller_new_delivers:
  assumes rs: "0 < unat (xc_ring_size cfg)" "unat (xc_ring_size cfg) dvd 2 ^ 32" "3 * unat (xc_ring_size cfg) < 2 ^ 32"
    and um: "\<forall>(um, mem) \<in> set ums. 86 \<le> unat (um_frame_size um)"
  shows "delivers (xc_ring_size cfg) (controller_new hv iface cfg ums) (\<lambda>(sh, qs). macs_ok sh
     \<and> list_all2 (\<lambda>(um, _) q. queue_ok (queue_layout sh um (xc_ring_size cfg)) q) ums qs)"
  unfolding controller_new_def Let_def
  apply (rule delivers_next[OF delivers_host[where P = anything]], simp add: anything_def)
  apply (rule delivers_next[OF delivers_host[where P = "\<lambda>m. length m = 6"]], erule gateway_mac_length)
  apply (rule delivers_next[OF delivers_host[where P = "\<lambda>m. length m = 6"]], erule interface_mac_length)
  apply (rule delivers_next[OF delivers_host[where P = anything]], simp add: anything_def)
  apply (rule delivers_next[OF delivers_parts(1)])
  apply (rule delivers_next[OF queues_setup_delivers[OF rs _ um]], simp add: macs_ok_def)
  apply (rule delivers_ret, simp add: macs_ok_def)
  done


section \<open>Queues and processors\<close>

text \<open>
  The number of queues fits the machine: a start is refused unless the card has a queue and every queue can have a
  processor of its own besides two for the feeder and the database thread; otherwise all queues are served.
\<close>
theorem queues_fit_machine:
  shows "main_queues parallelism qs = Inr n \<longleftrightarrow>
     n = q_combined (q_current qs) \<and> 0 < n \<and> unat n \<le> max (parallelism - 2) 1"
proof -
  let ?q = "q_combined (q_current qs)" and ?m = "max (parallelism - 2) 1"
  let ?u = "word_of_nat (min ?m (unat ?q)) :: u32"
  have u: "unat ?u = min ?m (unat ?q)" using unat_bounds(3)[of ?q] by (subst unat_of_nat) simp
  then have less: "?u < ?q \<longleftrightarrow> ?m < unat ?q" by (simp add: word_less_nat_alt min_less_iff_disj del: max_less_iff_conj)
  moreover have "?u = ?q" if "\<not> ?m < unat ?q"
  proof -
    have "min ?m (unat ?q) = unat ?q" using that by (intro min_absorb2) (simp only: not_less)
    then show ?thesis by (simp only: of_nat_unat ucast_id)
  qed
  ultimately show ?thesis unfolding main_queues_def Let_def by (auto simp: word_gt_0 not_less)
qed

section \<open>A small machine\<close>

definition demo_host :: host_view where
  "demo_host = \<lparr>hv_index = \<lambda>_. 2,
     hv_routes = [Some \<lparr>destination_prefix_length = 0, route_attributes = [Gateway_inet 0x0A000001, Oif 2]\<rparr>],
     hv_before = [Some [Destination_inet 0x0A000001, Link_layer [2, 0, 0, 0, 0, 1]]], hv_ping = \<lambda>_. True, hv_after = [],
     hv_mac = Some ''02:00:00:00:00:02'',
     hv_ifaddrs = [\<lparr>ifa_name = ''eth0'', ifa_addr = None\<rparr>, \<lparr>ifa_name = ''eth0'', ifa_addr = Some (AF_INET, 10, 0, 0, 2)\<rparr>]\<rparr>"

definition demo_config :: xdp_config where
  "demo_config = \<lparr>xc_mode = Mode_copy, xc_attach_mode = Attach_skb, xc_checksum_offload = False, xc_ring_size = 2,
     xc_busy_polling = Some (64, 20), xc_rx_batch = 4\<rparr>"

text \<open>The second call to register memory is accepted, and every other call.\<close>

definition demo_os :: os where
  "demo_os = \<lparr>os_ok = \<lambda>n. n \<noteq> 5, os_log = [], os_fd = 3,
     os_offsets = (let off = \<lparr>ro_producer = 0, ro_consumer = 64, ro_desc = 128, ro_flags = 192\<rparr>
        in \<lparr>mo_rx = off, mo_tx = off, mo_fr = off, mo_cr = off\<rparr>),
     os_descs = \<lambda>_. (replicate 2 \<lparr>d_addr = 0, d_len = 0, d_options = 0\<rparr>, 0, 0, 0), os_addrs = \<lambda>_. ([0, 0], 0, 0, 0)\<rparr>"

lemma demo_host_facts:
  "interface_get_mac (hv_mac demo_host) = Inr [2, 0, 0, 0, 0, 2]" "get_local_ip ''eth0'' (hv_ifaddrs demo_host) = Inr 0x0A000002"
  "gateway_inner (hv_routes demo_host) (hv_before demo_host) (hv_ping demo_host) (hv_after demo_host) 2 = Inr [2, 0, 0, 0, 0, 1]"
  "name_to_index (hv_index demo_host) ''eth0'' = Inr 2"
  by code_simp+

lemma demo_queue_new: "queue_new sh um tx (ring_new Fill 2 [0, 0] 0 0 0) r c tx' 2 batch True mem \<noteq> Inl e"
proof -
  have "[0..<2] = [0, 1 :: nat]" by (simp add: upt_rec)
  then show ?thesis
    by (simp add: queue_new_def receiver_new_def reserve_def free_def submit_def fill_frame_def Let_def ring_index_mut_def ring_new_def split: prod.split)
qed

lemma demo_controller: "\<exists>sh q s'. controller_new demo_host ''eth0'' demo_config [(demo_sat_umem, \<lambda>_. 0)] demo_os = (Inr (sh, [q]), s')"
  by (auto simp: demo_queue_new controller_new_def and_next_def from_host_def demo_host_facts ret_def Let_def sys_def queue_setup_def socket_new_def
      asks_def next_fd_def busy_poll_def set_busy_poll_def umem_register_def rings_def ring_alloc_def socket_bind_def demo_os_def
      demo_config_def split: sum.splits)


end
