(* ===== verification/System.thy ===== *)
theory System
  imports Strategies Sessions Setup
begin

text \<open>
  The whole program: the threads of a session (\<^verbatim>\<open>Session::start\<close> of \<^verbatim>\<open>controller/session.rs\<close>) at work on what they share, and the
  sessions that \<^verbatim>\<open>main.rs\<close> runs one after the other on the queues that the controller has set up.

  The threads are the feeder, one saturator for each queue, and the printer and database thread. They share the two strategies, the two
  work-stealing queues, the channel of banners and two counters. A step is one round of one thread: the feeder's tick, a round
  of a saturator, a round of the database thread; in between the kernel writes packets into receive frames. Finer interleavings are
  the subject of \<open>Deque\<close> and of \<open>port_states_conserved\<close>.

  \<open>session_safe\<close> shows that no thread faults, \<open>session_probes\<close> where SYN segments go, \<open>session_banners\<close> that banners reach the
  database.
\<close>

section \<open>Starting a session\<close>

text \<open>The values of the configuration that a session reads; \<open>cf_timeout\<close> is the timeout of \<^verbatim>\<open>SharedData\<close>.\<close>

record ('f, 'v) config =
  cf_source_port :: port_range
  cf_print_every :: nat
  cf_max_rate :: rat
  cf_flush_interval :: nat
  cf_flush_capacity :: nat
  cf_max_in_flight :: nat
  cf_budget_per_address :: u32
  cf_epsilon_ip :: 'v
  cf_epsilon_port :: 'f
  cf_catchall_threshold :: u8
  cf_timeout_batch :: nat
  cf_duration :: nat
  cf_batch_size :: nat
  cf_max_reorder_segments :: nat
  cf_max_reorder_bytes :: nat
  cf_ring_size :: u32
  cf_completion_batch :: u32
  cf_timeout :: nat

text \<open>
  What a session is generic over or takes from other crates: the generators with their seeding, the permutation of the indices, the
  payload, the parser and the hash of banners, and the order in which hash maps iterate.
\<close>

record ('f, 'g, 'v, 'p) session_env =
  en_port :: "('f, 'g) port_env"
  en_ip :: "('g, 'v) ip_env"
  en_payload :: "ipv4 \<Rightarrow> u16 \<Rightarrow> bytes option"
  en_parser :: "bytes \<Rightarrow> parse_error + 'p"
  en_hash :: "'p \<Rightarrow> u64"
  en_feeder_rng :: "u64 \<Rightarrow> 'g"
  en_responder_rng :: "u64 \<Rightarrow> 'g"
  en_port_order :: "(u16 \<times> u64) list \<Rightarrow> (u16 \<times> u64) list"
  en_pair_order :: "((u16 \<times> u16) \<times> u64) list \<Rightarrow> ((u16 \<times> u16) \<times> u64) list"
  en_config :: "('f, 'v) config"

abbreviation en_responder :: "('f::linorder, 'g, 'v::linorder, 'p) session_env \<Rightarrow> ('f port_adapter, 'v ip_adapter, 'p, 'g) resp_env" where
  "en_responder E \<equiv> strategy_env (en_port E) (en_ip E) (en_payload E) (en_parser E) (en_hash E)"

text \<open>
  The state of a session. The feeder's record holds what the threads share: both strategies and both queues. \<open>se_taken\<close> and
  \<open>se_found\<close> record the targets that scanners took and the banners that saturators sent, in order.
\<close>

type_synonym 'p scanling = "ipv4 \<times> u16 \<times> 'p"

record ('f, 'g, 'v, 'p) session =
  se_feeder :: "('g, 'v, 'f) feeder"
  se_saturators :: "('f port_adapter, 'v ip_adapter, 'p, 'g) saturator list"
  se_flusher :: "('p scanling, expiry option) flusher"
  se_channel :: "'p scanling list"
  se_completed :: usize
  se_filled :: usize
  se_done :: bool
  se_taken :: "packet_template list"
  se_found :: "'p scanling list"

text \<open>What the saturators of a session with \<open>n\<close> queues start with.\<close>

definition saturator_args :: "('f, 'g, 'v, 'p) session_env \<Rightarrow> u64 \<Rightarrow> nat \<Rightarrow> 'f port_adapter \<Rightarrow> 'v ip_adapter \<Rightarrow> nat \<Rightarrow> send_obs list
    \<Rightarrow> ('f port_adapter, 'v ip_adapter, 'g) session_args" where
  "saturator_args E seed now pa ia n k =
     (let cfg = en_config E; rate_per_completer = cf_max_rate cfg / of_nat n
      in \<lparr>sn_seed = seed, sn_port = pa, sn_ip = ia, sn_rng = en_responder_rng E seed, sn_ring = cf_ring_size cfg,
          sn_segments = cf_max_reorder_segments cfg, sn_bytes = cf_max_reorder_bytes cfg, sn_timeout = cf_timeout cfg,
          sn_rate = rate_per_completer, sn_batch = cf_completion_batch cfg, sn_now = of_nat now, sn_completed = 0, sn_kernel = k\<rparr>)"

text \<open>
  \<^verbatim>\<open>Session::start\<close> up to the loop of the feeder. The queues are what the last session has left or the controller has set up;
  \<open>ks\<close> is the kernel's behaviour towards the calls of each saturator's responder.
\<close>

definition session_start :: "('f::linorder, 'g, 'v::linorder, 'p) session_env \<Rightarrow> 'e database \<Rightarrow> compiled_ranges \<Rightarrow> u16 list \<Rightarrow> u64 \<Rightarrow> nat
    \<Rightarrow> (nat \<Rightarrow> send_obs list) \<Rightarrow> (queue \<times> memory) list \<Rightarrow> 'e + ('f, 'g, 'v, 'p) session" where
  "session_start E db c seed_ports seed now ks qs =
     (let cfg = en_config E in
      case build_graph (en_port_order E) (en_pair_order E) (cf_catchall_threshold cfg) db seed_ports of
        Inl e \<Rightarrow> Inl e
      | Inr pg \<Rightarrow>
          (let pa = port_new pg (cf_max_in_flight cfg) (cf_epsilon_port cfg) (unat (cf_budget_per_address cfg)) (cf_source_port cfg)
           in case build_prefix_graph db of
                Inl e \<Rightarrow> Inl e
              | Inr ig \<Rightarrow>
                  (let ia = ip_new c ig (cf_epsilon_ip cfg)
                   in Inr \<lparr>se_feeder = feeder_new (en_feeder_rng E seed) now (cf_duration cfg) (cf_timeout cfg) (cf_batch_size cfg) ia pa,
                           se_saturators = map (\<lambda>(i, q, mem). saturator_new (saturator_args E seed now pa ia (length qs) (ks i)) q mem) (enumerate 0 qs),
                           se_flusher = flusher_new now (cf_print_every cfg) None, se_channel = [], se_completed = 0, se_filled = 0,
                           se_done = False, se_taken = [], se_found = []\<rparr>)))"

section \<open>The threads\<close>

text \<open>The loop of the feeder ends with the tick that returns true; the flag tells the saturators.\<close>

definition feeder_turn :: "('f::linorder, 'g, 'v::linorder, 'p) session_env \<Rightarrow> nat \<Rightarrow> ('f, 'g, 'v, 'p) session \<Rightarrow> ('f, 'g, 'v, 'p) session option" where
  "feeder_turn E now s =
     map_option (\<lambda>(fin, fd). s\<lparr>se_feeder := fd, se_done := fin\<rparr>) (feeder_tick (en_ip E) (en_port E) now (se_feeder s))"

text \<open>A saturator with the shared strategies and counters as they are at the start of its round.\<close>

definition lend :: "('f, 'g, 'v, 'p) session \<Rightarrow> ('f port_adapter, 'v ip_adapter, 'p, 'g) saturator \<Rightarrow> ('f port_adapter, 'v ip_adapter, 'p, 'g) saturator" where
  "lend s st = st\<lparr>sat_queue := [], sat_responder := (sat_responder st)\<lparr>port_adapter := f_port (se_feeder s), ip_adapter := f_ip (se_feeder s),
     rs_completer := (rs_completer (sat_responder st))\<lparr>completed := se_completed s\<rparr>\<rparr>\<rparr>"

text \<open>
  A round of saturator \<open>i\<close>. Its scanner steals from the queue of targets; \<open>None\<close> is a steal that leaves the buffer.
\<close>

definition saturator_turn :: "('f::linorder, 'g, 'v::linorder, 'p) session_env \<Rightarrow> sat_obs \<Rightarrow> nat \<Rightarrow> ('f, 'g, 'v, 'p) session
    \<Rightarrow> (sat_result \<times> ('f, 'g, 'v, 'p) session) option" where
  "saturator_turn E ob i s =
     (let st = se_saturators s ! i; fd = se_feeder s in
      case steal_batch (sc_capacity (sat_scanner st)) (f_results fd) of
        None \<Rightarrow> None
      | Some (stolen, d) \<Rightarrow>
          (let targets = (case stolen of Success dest \<Rightarrow> map the dest | _ \<Rightarrow> []);
               outcome = (case stolen of Success _ \<Rightarrow> Success targets | Empty \<Rightarrow> Empty | Retry \<Rightarrow> Retry);
               (res, filled, st) = saturator_round (en_responder E) (ob\<lparr>ob_steals := [outcome]\<rparr>) (se_filled s) (lend s st);
               rsp = sat_responder st
           in Some (res, s\<lparr>se_feeder := fd\<lparr>f_results := d, f_port := port_adapter rsp, f_ip := ip_adapter rsp\<rparr>,
                se_saturators := (se_saturators s)[i := st], se_channel := se_channel s @ sat_queue st,
                se_completed := completed (rs_completer rsp), se_filled := filled,
                se_taken := se_taken s @ targets, se_found := se_found s @ sat_queue st\<rparr>)))"

text \<open>A round of the database thread; of \<open>ob\<close> it takes the event, the clock and the outcome of writes.\<close>

definition flush_turn :: "('f::linorder, 'g, 'v::linorder, 'p) session_env \<Rightarrow> ('p scanling, expiry deque \<times> 'f port_adapter) flush_obs
    \<Rightarrow> ('f, 'g, 'v, 'p) session \<Rightarrow> ('f, 'g, 'v, 'p) session option" where
  "flush_turn E ob s =
     (let cfg = en_config E; fd = se_feeder s;
          ob = ob\<lparr>fo_completed := se_completed s, fo_filled := se_filled s, fo_shared := (f_expiries fd, f_port fd)\<rparr>
      in case flush_round (pmap_expire (cf_timeout_batch cfg)) (cf_flush_interval cfg) (cf_flush_capacity cfg) ob (se_flusher s) of
           None \<Rightarrow> None
         | Some (fl, done_ctr, filled, d, a) \<Rightarrow>
             Some (s\<lparr>se_flusher := fl, se_completed := done_ctr, se_filled := filled,
                se_feeder := fd\<lparr>f_expiries := d, f_port := a\<rparr>, se_channel := drop (length (received ob)) (se_channel s)\<rparr>))"

text \<open>What is left of the queues when the saturators have ended.\<close>

definition session_queues :: "('f, 'g, 'v, 'p) session \<Rightarrow> (queue \<times> memory) list" where
  "session_queues s = map (\<lambda>st. (saturator_into_inner st, rs_memory (sat_responder st))) (se_saturators s)"

section \<open>Runs\<close>

text \<open>
  The assumptions about the world: batches fit into the queues (\<open>push_overruns\<close> tells what happens otherwise), received packets
  are in the receive frames and have passed the filter, SYN/ACK segments that acknowledge a cookie come from hosts that were
  probed, and the channel delivers banners in order.
\<close>

definition batches_fit :: "('f, 'g, 'v, 'p) session \<Rightarrow> bool" where
  "batches_fit s \<longleftrightarrow> (\<forall>n \<le> f_batch_size (se_feeder s). dq_fits n (f_results (se_feeder s)) \<and> dq_fits n (f_expiries (se_feeder s)))"

definition traffic_ok :: "sat_layout list \<Rightarrow> rx_obs \<Rightarrow> nat \<Rightarrow> ('f, 'g, 'v, 'p) session \<Rightarrow> bool" where
  "traffic_ok L ob i s \<longleftrightarrow> i < length (se_saturators s) \<and> packets_ok (L ! i) ob (sat_responder (se_saturators s ! i))
     \<and> answers_from (scanned_addresses (f_ip (se_feeder s))) (rs_seed (sat_responder (se_saturators s ! i))) ob (sat_responder (se_saturators s ! i))"

definition channel_ok :: "('p scanling, 'x) flush_obs \<Rightarrow> ('f, 'g, 'v, 'p) session \<Rightarrow> bool" where
  "channel_ok ob s \<longleftrightarrow> fo_event ob \<noteq> Closed \<and> take (length (received ob)) (se_channel s) = received ob"

inductive session_run :: "sat_layout list \<Rightarrow> ('f::linorder, 'g, 'v::linorder, 'p) session_env \<Rightarrow> ('f, 'g, 'v, 'p) session \<Rightarrow> ('f, 'g, 'v, 'p) session \<Rightarrow> bool"
  for L E s0 where
  sr_start: "session_run L E s0 s0"
| sr_feed: "session_run L E s0 s \<Longrightarrow> \<not> se_done s \<Longrightarrow> batches_fit s \<Longrightarrow> feeder_turn E now s = Some s' \<Longrightarrow> session_run L E s0 s'"
| sr_saturate: "session_run L E s0 s \<Longrightarrow> traffic_ok L (ob_rx ob) i s \<Longrightarrow> saturator_turn E ob i s = Some (Round b, s') \<Longrightarrow> session_run L E s0 s'"
| sr_flush: "session_run L E s0 s \<Longrightarrow> channel_ok ob s \<Longrightarrow> flush_turn E ob s = Some s' \<Longrightarrow> session_run L E s0 s'"
| sr_kernel: "session_run L E s0 s \<Longrightarrow> i < length (se_saturators s)
    \<Longrightarrow> (\<And>b n. b + n \<le> sl_rx (L ! i) * sl_frame (L ! i) \<or> (sl_rx (L ! i) + unat (sl_ring (L ! i))) * sl_frame (L ! i) \<le> b
          \<Longrightarrow> read_bytes mem b n = read_bytes (rs_memory (sat_responder (se_saturators s ! i))) b n)
    \<Longrightarrow> session_run L E s0 (s\<lparr>se_saturators := (se_saturators s)[i := (se_saturators s ! i)\<lparr>sat_responder :=
          (sat_responder (se_saturators s ! i))\<lparr>rs_memory := mem\<rparr>\<rparr>]\<rparr>)"

section \<open>The invariant\<close>

text \<open>\<open>handed\<close> are the addresses handed out, \<open>a0\<close> the port strategy at the start, \<open>c\<close> the ranges of the session.\<close>

definition targets :: "('f, 'g, 'v, 'p) session \<Rightarrow> packet_template list" where
  "targets s = se_taken s @ dq_items (f_results (se_feeder s))"

definition sat_sound :: "('f::linorder, 'g) port_env \<Rightarrow> ipv4 list \<Rightarrow> 'f port_adapter \<Rightarrow> u64 \<Rightarrow> sat_layout
    \<Rightarrow> ('f port_adapter, 'v ip_adapter, 'p, 'g) saturator \<Rightarrow> bool" where
  "sat_sound penv handed a0 seed S st \<longleftrightarrow> sat_inv S st \<and> sound (\<lambda>_. True) (\<lambda>_. True) (set handed) (probe_ok penv handed a0) seed (sat_responder st)"

definition session_inv :: "sat_layout list \<Rightarrow> ('f::linorder, 'g, 'v::linorder, 'p) session_env \<Rightarrow> compiled_ranges \<Rightarrow> 'f port_adapter \<Rightarrow> u64
    \<Rightarrow> ipv4 list \<Rightarrow> ('f, 'g, 'v, 'p) session \<Rightarrow> bool" where
  "session_inv L E c a0 seed handed s \<longleftrightarrow> feeder_inv (en_ip E) (en_port E) handed (se_feeder s)
     \<and> port_sound (en_port E) handed a0 (f_port (se_feeder s)) \<and> ip_sound (en_ip E) c (f_index (se_feeder s)) handed (f_ip (se_feeder s))
     \<and> list_all2 (sat_sound (en_port E) handed a0 seed) L (se_saturators s)
     \<and> (\<exists>unused. handed = map pt_ip (targets s) @ unused \<and> (se_done s \<or> unused = []))
     \<and> (\<forall>t \<in> set (targets s). target_ok (en_port E) a0 t)
     \<and> (\<exists>got. flush_inv got (se_flusher s) \<and> se_found s = got @ se_channel s)"

lemma session_invD:
  assumes "session_inv L E c a0 seed handed s"
  shows "feeder_inv (en_ip E) (en_port E) handed (se_feeder s)" "port_sound (en_port E) handed a0 (f_port (se_feeder s))"
    "ip_sound (en_ip E) c (f_index (se_feeder s)) handed (f_ip (se_feeder s))" "list_all2 (sat_sound (en_port E) handed a0 seed) L (se_saturators s)"
    "\<exists>unused. handed = map pt_ip (targets s) @ unused \<and> (se_done s \<or> unused = [])" "\<forall>t \<in> set (targets s). target_ok (en_port E) a0 t"
    "\<exists>got. flush_inv got (se_flusher s) \<and> se_found s = got @ se_channel s"
  using assms unfolding session_inv_def by blast+

lemma sound_mono:
  assumes "sound p i known probe seed st" "p' (port_adapter st)" "i' (ip_adapter st)" "known \<subseteq> known'" "\<And>t. probe t \<Longrightarrow> probe' t"
  shows "sound p' i' known' probe' seed st"
  using assms unfolding sound_def by blast

lemma target_ok_conf: "same_conf a b \<Longrightarrow> target_ok penv b t = target_ok penv a t"
  by (simp add: target_ok_def same_conf_def)

text \<open>The feeder.\<close>

lemma feeder_turn_inv:
  assumes inv: "session_inv L E c a0 seed handed s" and nd: "\<not> se_done s" and fits: "batches_fit s"
  shows "\<exists>s' (ts :: packet_template list). feeder_turn E now s = Some s' \<and> session_inv L E c a0 seed (handed @ map pt_ip ts) s'"
proof -
  note i = session_invD[OF inv]
  let ?fd = "se_feeder s"
  obtain fin fd ts where t: "feeder_tick (en_ip E) (en_port E) now ?fd = Some (fin, fd)" "feeder_inv (en_ip E) (en_port E) (handed @ map pt_ip ts) fd"
    "\<forall>t \<in> set ts. target_ok (en_port E) (f_port ?fd) t \<and> states (f_port fd) (pt_ip t) \<noteq> None"
    "if fin then f_results fd = f_results ?fd \<and> f_expiries fd = f_expiries ?fd
     else dq_items (f_results fd) = dq_items (f_results ?fd) @ ts
       \<and> dq_items (f_expiries fd) = dq_items (f_expiries ?fd) @ map (\<lambda>t. (now + f_timeout ?fd, pt_ip t)) ts"
    "ip_ranges (f_ip fd) = ip_ranges (f_ip ?fd)" "same_conf (f_port ?fd) (f_port fd)"
    "dom (states (f_port fd)) \<subseteq> dom (states (f_port ?fd)) \<union> set (map pt_ip ts)"
    by (rule feeder_tick_spec[OF i(1) fits[unfolded batches_fit_def]]) (rule that; assumption)
  let ?s = "s\<lparr>se_feeder := fd, se_done := fin\<rparr>" and ?handed = "handed @ map pt_ip ts"
  have a: "same_conf a0 (f_port ?fd)" "dom (states (f_port ?fd)) \<subseteq> set handed" using i(2) by (simp_all add: port_sound_def)
  have "port_sound (en_port E) ?handed a0 (f_port fd)"
    using t(2,6,7) a same_conf_trans unfolding port_sound_def feeder_inv_def by auto
  moreover have "ip_sound (en_ip E) c (f_index fd) ?handed (f_ip fd)" using t(2,5) i(3) by (simp add: ip_sound_def feeder_inv_def)
  moreover have "list_all2 (sat_sound (en_port E) ?handed a0 seed) L (se_saturators s)"
    using i(4) by (rule list_all2_mono) (auto simp: sat_sound_def probe_ok_def elim!: sound_mono)
  moreover have "\<exists>unused. ?handed = map pt_ip (targets ?s) @ unused \<and> (fin \<or> unused = [])"
    using i(5) nd t(4) by (cases fin) (auto simp: targets_def)
  moreover have "\<forall>t \<in> set (targets ?s). target_ok (en_port E) a0 t"
    using i(6) t(3,4) target_ok_conf[OF a(1)] by (cases fin) (auto simp: targets_def)
  ultimately have "session_inv L E c a0 seed ?handed ?s" using t(2) i(7) by (simp add: session_inv_def)
  then show ?thesis using t(1) by (simp add: feeder_turn_def) blast
qed

text \<open>A saturator.\<close>

lemma steal_batch_items:
  assumes "dq_valid d"
  shows "\<exists>r d'. steal_batch n d = Some (r, d') \<and> dq_valid d' \<and> dq_items d = (case r of Success dest \<Rightarrow> map the dest | _ \<Rightarrow> []) @ dq_items d'"
proof -
  obtain xs where ok: "dq_ok d xs" using assms by (auto simp: dq_valid_def)
  obtain ys d' where g: "dq_get n d = (ys, d')" by fastforce
  note i = dqi.get_items[OF assms g]
  show ?thesis
    using steal_batch_contents[OF ok, of n] g i assms by (auto simp: dq_get_def split: if_splits)
qed

lemma lend_sound:
  assumes "sat_sound penv handed a0 seed S st" "port_sound penv handed a0 (f_port (se_feeder s))"
    "ip_sound ienv c i handed (f_ip (se_feeder s))"
  shows "sat_inv S (lend s st)" "sound (port_sound penv handed a0) (ip_sound ienv c i handed) (set handed) (probe_ok penv handed a0) seed
      (sat_responder (lend s st))"
  using assms unfolding sat_sound_def sat_inv_def conns_ok_def lend_def sound_def by simp_all

lemma lend_traffic:
  assumes "traffic_ok L ob i s" "ip_inv ienv (f_ip (se_feeder s)) j handed"
  shows "i < length (se_saturators s)" "packets_ok (L ! i) ob (sat_responder (lend s (se_saturators s ! i)))"
    "answers_from (set handed) (rs_seed (sat_responder (se_saturators s ! i))) ob (sat_responder (lend s (se_saturators s ! i)))"
  using assms unfolding traffic_ok_def packets_ok_def answers_from_def lend_def ip_inv_def by simp_all

lemma saturator_turn_inv:
  assumes inv: "session_inv L E c a0 seed handed s" and tr: "traffic_ok L (ob_rx ob) i s"
    and fit: "\<forall>S \<in> set L. payloads_fit (sl_frame S) (en_responder E)"
  shows "\<exists>res s'. saturator_turn E ob i s = Some (res, s') \<and> round_ok res \<and> session_inv L E c a0 seed handed s'"
proof -
  note v = session_invD[OF inv]
  let ?fd = "se_feeder s" and ?st = "se_saturators s ! i"
  have ip: "ip_inv (en_ip E) (f_ip ?fd) (f_index ?fd) handed" using v(3) by (simp add: ip_sound_def)
  note tr = lend_traffic[OF tr ip]
  have len: "length L = length (se_saturators s)" using v(4) by (rule list_all2_lengthD)
  have st: "sat_sound (en_port E) handed a0 seed (L ! i) ?st" using v(4) tr(1) len by (simp add: list_all2_conv_all_nth)
  note l = lend_sound[OF st v(2,3)]
  have seed: "rs_seed (sat_responder ?st) = seed" using st by (simp add: sat_sound_def sound_def)
  have fit: "payloads_fit (sl_frame (L ! i)) (en_responder E)" using fit tr(1) len by simp
  obtain r d where d: "steal_batch (sc_capacity (sat_scanner ?st)) (f_results ?fd) = Some (r, d)" "dq_valid d"
    "dq_items (f_results ?fd) = (case r of Success dest \<Rightarrow> map the dest | _ \<Rightarrow> []) @ dq_items d"
    using steal_batch_items[of "f_results ?fd"] v(1) unfolding feeder_inv_def by blast
  define ts where "ts = (case r of Success dest \<Rightarrow> map the dest | _ \<Rightarrow> [])"
  define ob' where "ob' = ob\<lparr>ob_steals := [case r of Success _ \<Rightarrow> Success ts | Empty \<Rightarrow> Empty | Retry \<Rightarrow> Retry]\<rparr>"
  have rx: "ob_rx ob' = ob_rx ob" by (simp add: ob'_def)
  obtain res fl st' where r: "saturator_round (en_responder E) ob' (se_filled s) (lend s ?st) = (res, fl, st')" by (metis prod_cases3)
  have ok: "round_ok res" "sat_inv (L ! i) st'" using saturator_round_inv[OF l(1) _ fit r] tr(2) rx by auto
  have so: "sound (port_sound (en_port E) handed a0) (ip_sound (en_ip E) c (f_index ?fd) handed) (set handed) (probe_ok (en_port E) handed a0) seed
      (sat_responder st')"
    using pmap.sound_round[OF l(1) _ fit _ l(2) r] tr(2,3) rx seed by simp
  let ?rsp = "sat_responder st'"
  define s' where "s' = s\<lparr>se_feeder := ?fd\<lparr>f_results := d, f_port := port_adapter ?rsp, f_ip := ip_adapter ?rsp\<rparr>,
      se_saturators := (se_saturators s)[i := st'], se_channel := se_channel s @ sat_queue st',
      se_completed := completed (rs_completer ?rsp), se_filled := fl, se_taken := se_taken s @ ts, se_found := se_found s @ sat_queue st'\<rparr>"
  have turn: "saturator_turn E ob i s = Some (res, s')"
    using d(1) r by (cases r) (simp_all add: saturator_turn_def Let_def ts_def ob'_def s'_def)
  have ps: "port_sound (en_port E) handed a0 (port_adapter ?rsp)" "ip_sound (en_ip E) c (f_index ?fd) handed (ip_adapter ?rsp)"
    using so by (simp_all add: sound_def)
  have "sat_sound (en_port E) handed a0 seed (L ! i) st'" using ok(2) so by (auto simp: sat_sound_def elim!: sound_mono)
  from list_all2_update_cong[OF v(4) this, of i] have "list_all2 (sat_sound (en_port E) handed a0 seed) L (se_saturators s')"
    by (simp add: s'_def)
  moreover have "feeder_inv (en_ip E) (en_port E) handed (se_feeder s')"
    using v(1,3) ps d(2) by (simp add: feeder_inv_def s'_def port_sound_def ip_sound_def)
  moreover have "targets s' = targets s" using d(3) by (simp add: targets_def s'_def ts_def)
  ultimately have "session_inv L E c a0 seed handed s'"
    using ps v(5,6,7) by (auto simp: session_inv_def) (auto simp: s'_def)
  then show ?thesis using turn ok(1) by blast
qed

text \<open>The database thread and the kernel.\<close>

lemma flush_turn_inv:
  assumes inv: "session_inv L E c a0 seed handed s" and ch: "channel_ok ob s"
  shows "\<exists>s'. flush_turn E ob s = Some s' \<and> session_inv L E c a0 seed handed s'"
proof -
  note v = session_invD[OF inv]
  let ?fd = "se_feeder s" and ?cfg = "en_config E"
  define ob' where "ob' = ob\<lparr>fo_completed := se_completed s, fo_filled := se_filled s, fo_shared := (f_expiries ?fd, f_port ?fd)\<rparr>"
  have rcv: "received ob' = received ob" by (simp add: received_def ob'_def)
  have dv: "dq_valid (f_expiries ?fd)" using v(1) by (simp add: feeder_inv_def)
  have ai: "adapter_inv (en_port E) (f_port ?fd) []" using v(2) by (simp add: port_sound_def)
  obtain p' q' a where e: "port_expire (fo_now ob) (cf_timeout_batch ?cfg) (fl_expirer (se_flusher s)) (dq_items (f_expiries ?fd)) (f_port ?fd)
      = Some (p', q', a)" "adapter_inv (en_port E) a []" "same_conf (f_port ?fd) a" "dom (states a) \<subseteq> dom (states (f_port ?fd))"
    using port_expire_inv[OF ai] by blast
  obtain d where d: "pmap_expire (cf_timeout_batch ?cfg) (fo_now ob) (fl_expirer (se_flusher s)) (f_expiries ?fd, f_port ?fd) = Some (p', d, a)"
    "dq_valid d" using pmap_expire_refines[OF dv e(1)] by blast
  obtain l dn fl pr where "printer_tick (fo_now ob) (se_completed s) (se_filled s) (fl_printer (se_flusher s)) = (l, dn, fl, pr)"
    by (metis prod_cases4)
  with d(1) obtain fl' dn fl where f: "flush_round (pmap_expire (cf_timeout_batch ?cfg)) (cf_flush_interval ?cfg) (cf_flush_capacity ?cfg) ob' (se_flusher s)
      = Some (fl', dn, fl, d, a)" by (simp add: flush_round_def Let_def ob'_def)
  define s' where "s' = s\<lparr>se_flusher := fl', se_completed := dn, se_filled := fl, se_feeder := ?fd\<lparr>f_expiries := d, f_port := a\<rparr>,
      se_channel := drop (length (received ob)) (se_channel s)\<rparr>"
  have turn: "flush_turn E ob s = Some s'"
    using f by (simp add: flush_turn_def Let_def ob'_def[symmetric] rcv) (simp add: s'_def)
  obtain got where g: "flush_inv got (se_flusher s)" "se_found s = got @ se_channel s" using v(7) by blast
  have "se_channel s = received ob @ drop (length (received ob)) (se_channel s)"
    using ch unfolding channel_ok_def by (metis append_take_drop_id)
  then have "se_found s = (got @ received ob) @ drop (length (received ob)) (se_channel s)" using g(2) by simp
  moreover have "flush_inv (got @ received ob) fl'" using flush_round_inv[OF g(1) f] rcv by simp
  moreover have "port_sound (en_port E) handed a0 a"
    using v(2) e same_conf_trans unfolding port_sound_def by blast
  moreover have "feeder_inv (en_ip E) (en_port E) handed (se_feeder s')" using v(1) e(2) d(2) by (simp add: feeder_inv_def s'_def)
  moreover have "targets s' = targets s" by (simp add: targets_def s'_def)
  ultimately have "session_inv L E c a0 seed handed s'"
    using v(3-6) by (auto simp: session_inv_def) (auto simp: s'_def)
  then show ?thesis using turn by blast
qed

lemma kernel_inv:
  assumes inv: "session_inv L E c a0 seed handed s" and i: "i < length (se_saturators s)"
    and m: "\<And>b n. b + n \<le> sl_rx (L ! i) * sl_frame (L ! i) \<or> (sl_rx (L ! i) + unat (sl_ring (L ! i))) * sl_frame (L ! i) \<le> b
          \<Longrightarrow> read_bytes mem b n = read_bytes (rs_memory (sat_responder (se_saturators s ! i))) b n"
  shows "session_inv L E c a0 seed handed (s\<lparr>se_saturators := (se_saturators s)[i := (se_saturators s ! i)\<lparr>sat_responder :=
          (sat_responder (se_saturators s ! i))\<lparr>rs_memory := mem\<rparr>\<rparr>]\<rparr>)"
proof -
  note v = session_invD[OF inv]
  let ?st = "se_saturators s ! i"
  have len: "length L = length (se_saturators s)" using v(4) by (rule list_all2_lengthD)
  have st: "sat_sound (en_port E) handed a0 seed (L ! i) ?st" using v(4) i len by (simp add: list_all2_conv_all_nth)
  then have "sat_sound (en_port E) handed a0 seed (L ! i) (?st\<lparr>sat_responder := (sat_responder ?st)\<lparr>rs_memory := mem\<rparr>\<rparr>)"
    using kernel_keeps_inv[of "L ! i" ?st mem] m unfolding sat_sound_def by auto
  from list_all2_update_cong[OF v(4) this, of i] show ?thesis
    using v by (simp add: session_inv_def targets_def)
qed

lemma session_run_inv:
  assumes "session_run L E s0 s" "session_inv L E c a0 seed [] s0" "\<forall>S \<in> set L. payloads_fit (sl_frame S) (en_responder E)"
  shows "\<exists>handed. session_inv L E c a0 seed handed s"
  using assms(1)
proof (induction rule: session_run.induct)
  case sr_start
  then show ?case using assms(2) by blast
next
  case (sr_feed s now s')
  then show ?case using feeder_turn_inv[of L E c a0 seed _ s now] by (metis option.inject)
next
  case (sr_saturate s ob i b s')
  then show ?case using saturator_turn_inv[OF _ _ assms(3), of c a0 seed _ s ob i] by (metis option.inject prod.inject)
next
  case (sr_flush s ob s')
  then show ?case using flush_turn_inv[of L E c a0 seed _ s ob] by (metis option.inject)
next
  case (sr_kernel s i mem)
  then show ?case using kernel_inv by blast
qed

section \<open>The program\<close>

text \<open>
  One turn of the loop of \<^verbatim>\<open>main\<close> up to the start of the session: the ranges, then the session. \<open>F\<close> gives the environment of a
  session, whose permutation of indices depends on its seed and ranges.
\<close>

definition main_session :: "(u64 \<Rightarrow> compiled_ranges \<Rightarrow> ('f::linorder, 'g, 'v::linorder, 'p) session_env) \<Rightarrow> 'e database \<Rightarrow> ipv4_ranges \<Rightarrow> selector
    \<Rightarrow> u16 list \<Rightarrow> u64 \<Rightarrow> nat \<Rightarrow> (nat \<Rightarrow> send_obs list) \<Rightarrow> (queue \<times> memory) list \<Rightarrow> 'e + compiled_ranges \<times> ('f, 'g, 'v, 'p) session" where
  "main_session F db excludes sel seed_ports seed now ks qs =
     (case controller_session db excludes sel of
        Inl e \<Rightarrow> Inl e
      | Inr c \<Rightarrow> (case session_start (F seed c) db c seed_ports seed now ks qs of Inl e \<Rightarrow> Inl e | Inr s \<Rightarrow> Inr (c, s)))"

text \<open>
  The loop: a session that cannot be created or started leaves the queues alone, one that ends leaves its queues to the next.
  \<open>dbs k\<close> is the database as turn \<open>k\<close> finds it.
\<close>

inductive program_run :: "sat_layout list \<Rightarrow> (u64 \<Rightarrow> compiled_ranges \<Rightarrow> ('f::linorder, 'g, 'v::linorder, 'p) session_env) \<Rightarrow> (nat \<Rightarrow> 'e database) \<Rightarrow> ipv4_ranges
    \<Rightarrow> (queue \<times> memory) list \<Rightarrow> nat \<Rightarrow> (queue \<times> memory) list \<Rightarrow> bool" for L F dbs excludes qs0 where
  pr_start: "program_run L F dbs excludes qs0 0 qs0"
| pr_failed: "program_run L F dbs excludes qs0 k qs \<Longrightarrow> main_session F (dbs k) excludes sel ports seed now ks qs = Inl e
    \<Longrightarrow> program_run L F dbs excludes qs0 (Suc k) qs"
| pr_session: "program_run L F dbs excludes qs0 k qs \<Longrightarrow> main_session F (dbs k) excludes sel ports seed now ks qs = Inr (c, s0)
    \<Longrightarrow> session_run L (F seed c) s0 s \<Longrightarrow> se_done s \<Longrightarrow> program_run L F dbs excludes qs0 (Suc k) (session_queues s)"

text \<open>
  What the program relies on: the permutation of the indices is one, requests fit into frames, and a query that groups by address
  returns no address twice.
\<close>

definition env_ok :: "sat_layout list \<Rightarrow> (u64 \<Rightarrow> compiled_ranges \<Rightarrow> ('f::linorder, 'g, 'v::linorder, 'p) session_env) \<Rightarrow> bool" where
  "env_ok L F \<longleftrightarrow> (\<forall>seed c. permutes_below (en_ip (F seed c)) (ranges.count c)
     \<and> (\<forall>S \<in> set L. payloads_fit (sl_frame S) (en_responder (F seed c))))"

definition grouped :: "'e database \<Rightarrow> bool" where
  "grouped db \<longleftrightarrow> (\<forall>rows. db_ips db = Inr rows \<longrightarrow> distinct (concat (map (\<lambda>r. case r of Inl _ \<Rightarrow> [] | Inr ip \<Rightarrow> [ip]) rows)))"

lemma read_loop_prefix:
  "read_loop n rows acc = Inr out \<Longrightarrow> \<exists>ys rest. out = acc @ ys \<and> concat (map (\<lambda>r. case r of Inl _ \<Rightarrow> [] | Inr ip \<Rightarrow> [ip]) rows) = ys @ rest"
proof (induction n rows acc rule: read_loop.induct)
  case (3 n ip rows acc)
  show ?case
  proof (cases "n \<le> Suc (length acc)")
    case True
    then show ?thesis using 3(2) by - (rule exI[of _ "[ip]"], auto simp: Let_def)
  next
    case False
    then obtain ys rest where "out = (acc @ [ip]) @ ys" "concat (map (\<lambda>r. case r of Inl _ \<Rightarrow> [] | Inr ip \<Rightarrow> [ip]) rows) = ys @ rest"
      using 3 by (auto simp: Let_def)
    then show ?thesis by (intro exI[of _ "ip # ys"] exI[of _ rest]) simp
  qed
qed auto

lemma session_compiled:
  assumes "parse input = Inr excludes" "grouped db" "controller_session db excludes sel = Inr c"
  shows "compiled c \<and> ranges_set (inner c) \<inter> ranges_set (inner excludes) = {}"
proof -
  obtain rgs where s: "select db sel = Inr rgs" "c = compile (exclude rgs excludes)"
    using assms(3) by (auto simp: controller_session_def split: sum.splits)
  have "ascending (inner rgs)"
  proof (cases sel)
    case All_selector
    then show ?thesis using s(1) by (auto simp: ascending_def from_range_def)
  next
    case (Rescan_selector n)
    then obtain rows out where r: "db_ips db = Inr rows" "read_loop n rows [] = Inr out" "rgs = from_addresses (sort out)"
      using s(1) by (auto simp: read_ranges_def split: sum.splits)
    then have "distinct out" using read_loop_prefix[OF r(2)] assms(2) by (auto simp: grouped_def)
    then show ?thesis using from_addresses_sorted[of out] r(3) by simp
  qed
  note m = exclude_minus[OF this parse_by_start[OF assms(1)], unfolded minus_spec_def]
  then show ?thesis using s(2) by (auto simp: compiled_def ranges_set_compile)
qed

lemma session_start_inv:
  fixes s0 :: "('f::linorder, 'g, 'v::linorder, 'p) session"
  assumes "session_start E db c ports seed now ks qs = Inr s0" "compiled c" "permutes_below (en_ip E) (ranges.count c)" "list_all2 queue_ok L qs"
  shows "\<exists>a0. session_inv L E c a0 seed [] s0 \<and> source_port_range a0 = cf_source_port (en_config E)"
proof -
  let ?cfg = "en_config E"
  obtain pg ig where g: "build_graph (en_port_order E) (en_pair_order E) (cf_catchall_threshold ?cfg) db ports = Inr pg" "build_prefix_graph db = Inr ig"
    using assms(1) by (auto simp: session_start_def Let_def split: sum.splits)
  define pa where "pa = port_new pg (cf_max_in_flight ?cfg) (cf_epsilon_port ?cfg) (unat (cf_budget_per_address ?cfg)) (cf_source_port ?cfg)"
  define ia where "ia = ip_new c ig (cf_epsilon_ip ?cfg)"
  have f: "se_feeder s0 = feeder_new (en_feeder_rng E seed) now (cf_duration ?cfg) (cf_timeout ?cfg) (cf_batch_size ?cfg) ia pa"
    "se_flusher s0 = flusher_new now (cf_print_every ?cfg) None" "se_channel s0 = []" "se_found s0 = []" "se_taken s0 = []"
    using assms(1) g by (auto simp: session_start_def Let_def pa_def ia_def)
  define args where "args = (\<lambda>i. saturator_args E seed now pa ia (length qs) (ks i))"
  have st: "se_saturators s0 = map (\<lambda>(i, q, mem). saturator_new (args i) q mem) (enumerate 0 qs)" "sn_seed (args i) = seed" for i
    using assms(1) g by (auto simp: session_start_def args_def Let_def pa_def ia_def) (simp add: saturator_args_def Let_def)
  have "ip_run (en_ip E) c ia 0 []" unfolding ia_def by (rule ir_start)
  from ip_run_inv[OF this assms(2,3)] have ip: "ip_inv (en_ip E) ia 0 []" "ip_ranges ia = c" by auto
  have ad: "adapter_inv (en_port E) pa []" "states pa = Map.empty" by (simp_all add: pa_def port_new_inv) (simp add: port_new_def)
  have "sat_sound (en_port E) [] pa seed S (saturator_new (args i) q mem :: ('f port_adapter, 'v ip_adapter, 'p, 'g) saturator)" if "queue_ok S (q, mem)" for S i q mem
    using saturator_new_inv[OF that] st(2)[of i]
    by (auto simp: sat_sound_def sound_def saturator_new_def responder_new_def split: prod.split)
  moreover have "queue_ok (L ! i) (fst (qs ! i), snd (qs ! i))" if "i < length qs" for i
    using assms(4) that by (simp add: list_all2_conv_all_nth)
  ultimately have "sat_sound (en_port E) [] pa seed (L ! i) (saturator_new (args i) (fst (qs ! i)) (snd (qs ! i)) :: ('f port_adapter, 'v ip_adapter, 'p, 'g) saturator)"
    if "i < length qs" for i using that by blast
  then have "list_all2 (sat_sound (en_port E) [] pa seed) L (se_saturators s0)"
    using assms(4) unfolding st(1) by (simp add: list_all2_conv_all_nth nth_enumerate_eq split_beta)
  moreover have "flush_inv [] (se_flusher s0)" by (auto simp: f(2) flusher_new_def flush_inv_def do_writes_def)
  moreover have "feeder_inv (en_ip E) (en_port E) [] (se_feeder s0)"
    using ip ad(1) assms(3) by (auto simp: feeder_inv_def f(1) feeder_new_def worker_new_valid)
  ultimately have "session_inv L E c pa seed [] s0"
    using ip ad by (simp add: session_inv_def f targets_def feeder_new_def worker_new_items port_sound_def ip_sound_def same_conf_def)
  moreover have "source_port_range pa = cf_source_port ?cfg" by (simp add: pa_def port_new_def)
  ultimately show ?thesis by blast
qed

lemma session_queues_ok:
  assumes "session_inv L E c a0 seed handed s"
  shows "list_all2 queue_ok L (session_queues s)"
  using session_invD(4)[OF assms] by (auto simp: session_queues_def list_all2_conv_all_nth sat_sound_def intro: into_inner_ok)

lemma main_session_inv:
  assumes "main_session F db excludes sel ports seed now ks qs = Inr (c, s0)" "session_run L (F seed c) s0 s"
    "parse input = Inr excludes" "grouped db" "env_ok L F" "list_all2 queue_ok L qs"
  shows "\<exists>a0 handed. session_inv L (F seed c) c a0 seed handed s \<and> source_port_range a0 = cf_source_port (en_config (F seed c))"
    "ranges_set (inner c) \<inter> ranges_set (inner excludes) = {}"
proof -
  have s: "controller_session db excludes sel = Inr c" "session_start (F seed c) db c ports seed now ks qs = Inr s0"
    using assms(1) by (auto simp: main_session_def split: sum.splits)
  note c = session_compiled[OF assms(3,4) s(1)]
  have e: "permutes_below (en_ip (F seed c)) (ranges.count c)" "\<forall>S \<in> set L. payloads_fit (sl_frame S) (en_responder (F seed c))"
    using assms(5) by (auto simp: env_ok_def)
  show "\<exists>a0 handed. session_inv L (F seed c) c a0 seed handed s \<and> source_port_range a0 = cf_source_port (en_config (F seed c))"
    using session_start_inv[OF s(2) conjunct1[OF c] e(1) assms(6)] session_run_inv[OF assms(2) _ e(2)] by blast
  show "ranges_set (inner c) \<inter> ranges_set (inner excludes) = {}" using c by blast
qed

lemma program_queues_ok:
  assumes "program_run L F dbs excludes qs0 k qs" "parse input = Inr excludes" "\<forall>k. grouped (dbs k)" "env_ok L F" "list_all2 queue_ok L qs0"
  shows "list_all2 queue_ok L qs"
  using assms(1,5)
proof (induction rule: program_run.induct)
  case (pr_session k qs sel ports seed now ks c s0 s)
  then have "list_all2 queue_ok L qs" by blast
  from main_session_inv(1)[OF pr_session(2,3) assms(2) _ assms(4) this] assms(3) show ?case using session_queues_ok by blast
qed auto

text \<open>
  From the start of the program to a state \<open>s\<close> of one of its sessions: the exclude file is parsed, the controller is set up on
  packet memories \<open>umems\<close>, turns of the loop run, and a session with ranges \<open>c\<close> and environment \<open>E\<close> has got to \<open>s\<close>. \<open>L\<close> says
  where the parts of each packet memory are.
\<close>

definition program_state :: "host_view \<Rightarrow> string \<Rightarrow> xdp_config \<Rightarrow> (umem \<times> memory) list \<Rightarrow> os \<Rightarrow> string
    \<Rightarrow> (u64 \<Rightarrow> compiled_ranges \<Rightarrow> ('f::linorder, 'g, 'v::linorder, 'p) session_env) \<Rightarrow> (nat \<Rightarrow> 'e database) \<Rightarrow> sat_layout list \<Rightarrow> ipv4_ranges
    \<Rightarrow> compiled_ranges \<Rightarrow> ('f, 'g, 'v, 'p) session_env \<Rightarrow> ('f, 'g, 'v, 'p) session \<Rightarrow> bool" where
  "program_state hv iface xcfg umems os input F dbs L excludes c E s \<longleftrightarrow> parse input = Inr excludes \<and>
     (\<exists>sh qs0 os' k qs sel ports seed now ks s0. controller_new hv iface xcfg umems os = (Inr (sh, qs0), os')
        \<and> L = map (\<lambda>(um, _). queue_layout sh um (xc_ring_size xcfg)) umems \<and> program_run L F dbs excludes qs0 k qs
        \<and> main_session F (dbs k) excludes sel ports seed now ks qs = Inr (c, s0) \<and> E = F seed c \<and> session_run L E s0 s)"

text \<open>
  A machine on which this works: the ring size is a power of two of which three fit into the counters, frames can hold a packet,
  the mapped rings have the size that was asked for; and the assumptions about the environment hold.
\<close>

definition machine_ok :: "xdp_config \<Rightarrow> (umem \<times> memory) list \<Rightarrow> os \<Rightarrow> bool" where
  "machine_ok xcfg umems os \<longleftrightarrow> 0 < unat (xc_ring_size xcfg) \<and> unat (xc_ring_size xcfg) dvd 2 ^ 32 \<and> 3 * unat (xc_ring_size xcfg) < 2 ^ 32
     \<and> (\<forall>(um, mem) \<in> set umems. 86 \<le> unat (um_frame_size um)) \<and> shows_slots (xc_ring_size xcfg) os"

lemma program_inv:
  assumes "program_state hv iface xcfg umems os input F dbs L excludes c E s" "machine_ok xcfg umems os" "env_ok L F" "\<forall>k. grouped (dbs k)"
  obtains a0 handed seed where "session_inv L E c a0 seed handed s" "source_port_range a0 = cf_source_port (en_config E)"
    "ranges_set (inner c) \<inter> ranges_set (inner excludes) = {}" "\<forall>S \<in> set L. payloads_fit (sl_frame S) (en_responder E)"
proof -
  obtain sh qs0 os' k qs sel ports seed now ks s0 where p: "parse input = Inr excludes"
    "controller_new hv iface xcfg umems os = (Inr (sh, qs0), os')"
    "L = map (\<lambda>(um, _). queue_layout sh um (xc_ring_size xcfg)) umems" "program_run L F dbs excludes qs0 k qs"
    "main_session F (dbs k) excludes sel ports seed now ks qs = Inr (c, s0)" "E = F seed c" "session_run L (F seed c) s0 s"
    using assms(1) unfolding program_state_def by blast
  have "list_all2 (\<lambda>(um, _) q. queue_ok (queue_layout sh um (xc_ring_size xcfg)) q) umems qs0"
    using controller_new_delivers[of xcfg umems hv iface] assms(2) p(2) unfolding machine_ok_def delivers_def by auto
  then have "list_all2 queue_ok L qs0" unfolding p(3) list_all2_map1 by (rule list_all2_mono) auto
  note q = program_queues_ok[OF p(4,1) assms(4,3) this]
  have "grouped (dbs k)" using assms(4) by blast
  note m = main_session_inv[OF p(5,7,1) this assms(3) q]
  moreover have "\<forall>S \<in> set L. payloads_fit (sl_frame S) (en_responder E)" using assms(3) p(6) by (simp add: env_ok_def)
  ultimately show thesis using that p(6) by blast
qed

section \<open>What the program guarantees\<close>


text \<open>Every probe of a session, of a scanner or of a responder, is one that the port strategy made for an address of the feeder.\<close>

definition probes :: "('f, 'g, 'v, 'p) session \<Rightarrow> packet_template set" where
  "probes s = set (targets s) \<union> (\<Union>st \<in> set (se_saturators s). {t. Call_syn t \<in> set (sends (sat_responder st))})"

lemma session_probe:
  assumes inv: "session_inv L E c a0 seed handed s" and "t \<in> probes s"
  shows "probe_ok (en_port E) handed a0 t"
proof -
  note v = session_invD[OF inv]
  from assms(2) consider "t \<in> set (targets s)" | st where "st \<in> set (se_saturators s)" "Call_syn t \<in> set (sends (sat_responder st))"
    by (auto simp: probes_def)
  then show ?thesis
  proof cases
    case 1
    then show ?thesis using v(5,6) by (auto simp: probe_ok_def)
  next
    case 2
    then obtain S where "sat_sound (en_port E) handed a0 seed S st"
      using v(4) by (metis in_set_conv_nth list_all2_conv_all_nth)
    then show ?thesis using 2(2) by (auto simp: sat_sound_def sound_def)
  qed
qed

lemma probe_source:
  assumes "probe_ok penv handed a0 t" "range_ok penv" "pr_start (source_port_range a0) \<le> pr_end (source_port_range a0)"
  shows "pr_start (source_port_range a0) \<le> pt_source_port t \<and> pt_source_port t \<le> pr_end (source_port_range a0)"
  using assms(1) sample_range[OF assms(2,3)] by (auto simp: probe_ok_def target_ok_def)

text \<open>
  C2. Where the probes of a session go: the targets that the scanners took or will take have pairwise different addresses, and every SYN
  segment, of a scanner or of a responder that follows up an answer, goes to a /24 prefix that holds an address of
  the session's ranges - none of which is excluded - and comes from a port of the configured range.
\<close>
theorem session_probes:
  assumes "program_state hv iface xcfg umems os input F dbs L excludes c E s" "machine_ok xcfg umems os" "env_ok L F" "\<forall>k. grouped (dbs k)"
    and "range_ok (en_port E)" "pr_start (cf_source_port (en_config E)) \<le> pr_end (cf_source_port (en_config E))"
    and "t \<in> probes s"
  shows "distinct (map pt_ip (targets s))
     \<and> (\<exists>a. a \<in> ranges_set (inner c) \<and> a \<notin> ranges_set (inner excludes) \<and> drop_bit 8 a = drop_bit 8 (pt_ip t))
     \<and> pr_start (cf_source_port (en_config E)) \<le> pt_source_port t \<and> pt_source_port t \<le> pr_end (cf_source_port (en_config E))"
proof -
  obtain a0 handed seed where i: "session_inv L E c a0 seed handed s" "source_port_range a0 = cf_source_port (en_config E)"
    "ranges_set (inner c) \<inter> ranges_set (inner excludes) = {}" by (rule program_inv[OF assms(1-4)])
  note v = session_invD[OF i(1)]
  have ip: "ip_inv (en_ip E) (f_ip (se_feeder s)) (f_index (se_feeder s)) handed" "ip_ranges (f_ip (se_feeder s)) = c"
    using v(3) by (simp_all add: ip_sound_def)
  have t: "probe_ok (en_port E) handed a0 t" by (rule session_probe[OF i(1) assms(7)])
  then have h: "pt_ip t \<in> set handed" by (simp add: probe_ok_def)
  have "drop_bit 8 (pt_ip t) \<in> blocks (ranges_set (inner c))" using ip_in_blocks[OF ip(1) h] ip(2) by simp
  moreover have "distinct (map pt_ip (targets s))" using v(5) ip(1) by (auto simp: ip_inv_def)
  moreover have "pr_start (cf_source_port (en_config E)) \<le> pt_source_port t \<and> pt_source_port t \<le> pr_end (cf_source_port (en_config E))"
    using probe_source[OF t assms(5)] i(2) assms(6) by simp
  ultimately show ?thesis using i(3) by fastforce
qed


text \<open>A session on the small machine of \<open>Setup\<close>: one address of the table is scanned again.\<close>

definition demo_session_env :: "(nat, u16, nat, bytes) session_env" where
  "demo_session_env = \<lparr>en_port = PortStrategy.demo_env, en_ip = demo_ip_env, en_payload = \<lambda>_ _. Some [1, 2],
     en_parser = slp_parse (\<lambda>_. True), en_hash = \<lambda>_. 0, en_feeder_rng = \<lambda>_. 0, en_responder_rng = \<lambda>_. 0, en_port_order = rev, en_pair_order = rev,
     en_config = \<lparr>cf_source_port = Range 61000 62000, cf_print_every = 1000, cf_max_rate = 10, cf_flush_interval = 5, cf_flush_capacity = 8,
       cf_max_in_flight = 2, cf_budget_per_address = 3, cf_epsilon_ip = 2, cf_epsilon_port = 1, cf_catchall_threshold = 3, cf_timeout_batch = 4,
       cf_duration = 10, cf_batch_size = 1, cf_max_reorder_segments = 4, cf_max_reorder_bytes = 4096, cf_ring_size = 2,
       cf_completion_batch = 2, cf_timeout = 5\<rparr>\<rparr>"

definition demo_excludes :: ipv4_ranges where
  "demo_excludes = from_range_vec [\<lparr>r_start = 0x05000000, r_last = (0x05FFFFFF :: ipv4)\<rparr>]"

definition demo_ranges :: compiled_ranges where
  "demo_ranges = compile (exclude (from_addresses [0x01020304, 0x05060708]) demo_excludes)"

lemma demo_session_ranges: "controller_session demo_db demo_excludes (Rescan_selector 10) = Inr demo_ranges"
  by code_simp

lemma demo_session_feed:
  "case build_graph rev rev 3 demo_db [25565] of Inl _ \<Rightarrow> False | Inr pg \<Rightarrow>
     (case build_prefix_graph demo_db of Inl _ \<Rightarrow> False | Inr ig \<Rightarrow>
        map_option (\<lambda>(fin, fd). (fin, map pt_ip (dq_items (f_results fd)))) (feeder_tick demo_ip_env PortStrategy.demo_env 1
          (feeder_new 0 0 10 5 1 (ip_new demo_ranges ig 2) (port_new pg 2 1 3 (Range 61000 62000)))) = Some (False, [0x01020304]))"
  by code_simp

abbreviation demo_program :: "sat_layout list \<Rightarrow> (nat, u16, nat, bytes) session \<Rightarrow> bool" where
  "demo_program L s \<equiv> program_state demo_host ''eth0'' demo_config [(demo_sat_umem, \<lambda>_. 0)] demo_os ''5.0.0.0/8'' (\<lambda>_ _. demo_session_env)
     (\<lambda>_. demo_db) L demo_excludes demo_ranges demo_session_env s"

text \<open>Its first state and the one after a tick of the feeder.\<close>

lemma demo_sessions:
  obtains L s0 s1 where "demo_program L s0" "demo_program L s1" "env_ok L (\<lambda>_ _. demo_session_env)" "\<not> se_done s0" "batches_fit s0"
    "se_channel s0 = []" "se_channel s1 = []" "map pt_ip (targets s1) = [0x01020304]"
proof -
  let ?F = "\<lambda>_ _. demo_session_env" and ?E = demo_session_env
  obtain sh q os' where c: "controller_new demo_host ''eth0'' demo_config [(demo_sat_umem, \<lambda>_. 0)] demo_os = (Inr (sh, [q]), os')"
    using demo_controller by blast
  obtain pg ig where g: "build_graph rev rev 3 demo_db [25565] = Inr pg" "build_prefix_graph demo_db = Inr ig"
    "map_option (\<lambda>(fin, fd). (fin, map pt_ip (dq_items (f_results fd)))) (feeder_tick demo_ip_env PortStrategy.demo_env 1
          (feeder_new 0 0 10 5 1 (ip_new demo_ranges ig 2) (port_new pg 2 1 3 (Range 61000 62000)))) = Some (False, [0x01020304])"
    using demo_session_feed by (auto split: sum.splits)
  let ?fd = "feeder_new 0 0 10 5 1 (ip_new demo_ranges ig 2) (port_new pg 2 1 3 (Range 61000 62000)) :: (u16, nat, nat) feeder"
  define L where "L = map (\<lambda>(um, _). queue_layout sh um (xc_ring_size demo_config)) [(demo_sat_umem, (\<lambda>_. 0) :: memory)]"
  obtain s0 where s0: "session_start ?E demo_db demo_ranges [25565] 77 0 (\<lambda>_. []) [q] = Inr s0" "se_feeder s0 = ?fd" "se_channel s0 = []" "\<not> se_done s0"
    "se_taken s0 = []"
    using g(1,2) by (simp add: session_start_def demo_session_env_def Let_def)
  have m: "main_session ?F demo_db demo_excludes (Rescan_selector 10) [25565] 77 0 (\<lambda>_. []) [q] = Inr (demo_ranges, s0)"
    using s0(1) by (simp add: main_session_def demo_session_ranges)
  have p: "parse ''5.0.0.0/8'' = Inr demo_excludes" by code_simp
  have run: "demo_program L s" if "session_run L ?E s0 s" for s
    unfolding program_state_def by (intro conjI exI, rule p, rule c, rule L_def, rule pr_start, rule m, rule refl, rule that)
  have fits: "batches_fit s0" by (simp add: batches_fit_def s0(2) feeder_new_def worker_new_fits)
  obtain fd where fd: "feeder_tick demo_ip_env PortStrategy.demo_env 1 ?fd = Some (False, fd)" "map pt_ip (dq_items (f_results fd)) = [0x01020304]"
    using g(3) by auto
  let ?s1 = "s0\<lparr>se_feeder := fd, se_done := False\<rparr>"
  have "feeder_turn ?E 1 s0 = Some ?s1" using fd(1) s0(2) by (simp add: feeder_turn_def demo_session_env_def)
  then have "session_run L ?E s0 ?s1" by (rule sr_feed[OF sr_start s0(4) fits])
  moreover have "env_ok L ?F"
    by (auto simp: env_ok_def L_def queue_layout_def demo_sat_umem_def payloads_fit_def strategy_env_def demo_session_env_def
        permutes_below_def demo_ip_env_def bij_betw_def inj_on_def)
  ultimately show thesis using that[OF run[OF sr_start] run] s0 fits fd(2) by (simp add: targets_def)
qed

lemma demo_machine: "machine_ok demo_config [(demo_sat_umem, \<lambda>_. 0)] demo_os" "\<forall>k :: nat. grouped demo_db"
  by (simp_all add: machine_ok_def demo_config_def demo_sat_umem_def shows_slots_def demo_os_def grouped_def demo_db_def)


theorem session_probes_witness:
  "\<exists>L s t. demo_program L s \<and> targets s = [t] \<and> pt_ip t = 0x01020304 \<and> 61000 \<le> pt_source_port t \<and> pt_source_port t \<le> 62000"
proof -
  obtain L s0 s1 where d: "demo_program L s1" "env_ok L (\<lambda>_ _. demo_session_env)" "map pt_ip (targets s1) = [0x01020304]" by (rule demo_sessions)
  then obtain t where t: "targets s1 = [t]" "pt_ip t = 0x01020304" by auto
  have "range_ok (en_port demo_session_env)" by (auto simp: range_ok_def demo_session_env_def PortStrategy.demo_env_def)
  from session_probes[OF d(1) demo_machine(1) d(2) demo_machine(2) this, of t] t d(1) show ?thesis
    by (auto simp: demo_session_env_def probes_def)
qed


end
